(* ===== verification/Prelude.thy ===== *)
theory Prelude
  imports Main "HOL-Library.Word"
begin

unbundle bit_operations_syntax

section \<open>Shared vocabulary: bytes, byte memories, C integers\<close>

text \<open>
  The development models C code that works on memory-mapped flash and on byte buffers.
  This theory fixes how both are written down and collects the generic facts that the
  component theories share:
  \<^item> a byte is an 8-bit word, a memory is a total function from addresses to bytes, and
    \<open>mread\<close>, \<open>mwrite\<close>, \<open>mfill\<close> and \<open>mprog\<close> are the block operations on it
    (\<open>mprog\<close> is NOR-flash programming: it can only clear bits);
  \<^item> \<open>u16\<close>, \<open>u32\<close> and \<open>sub32\<close> write out the wrap-around of \<open>uint16_t\<close> and
    \<open>uint32_t\<close> arithmetic on natural numbers;
  \<^item> \<open>le16\<close>, \<open>le32\<close> and their inverses are the little-endian views of byte lists.
  The collection \<open>mem_simps\<close> rewrites reads over writes.
\<close>

type_synonym byte = "8 word"
type_synonym mem = "nat \<Rightarrow> byte"

text \<open>Offsets such as \<open>2 + n\<close> are kept as they are written.\<close>

declare add_2_eq_Suc [simp del] add_2_eq_Suc' [simp del]

named_theorems mem_simps \<open>reads of a memory after block writes\<close>
named_theorems c_arith \<open>C integer arithmetic that does not wrap\<close>

subsection \<open>C integer widths\<close>

definition u16 :: "nat \<Rightarrow> nat" where
  "u16 n = n mod 2 ^ 16"

definition u32 :: "nat \<Rightarrow> nat" where
  "u32 n = n mod 2 ^ 32"

text \<open>\<open>a - b\<close> on \<open>uint32_t\<close>.\<close>

definition sub32 :: "nat \<Rightarrow> nat \<Rightarrow> nat" where
  "sub32 a b = (a + (2 ^ 32 - b mod 2 ^ 32)) mod 2 ^ 32"

lemma u16_id [c_arith]: "n < 2 ^ 16 \<Longrightarrow> u16 n = n"
  by (simp add: u16_def)

lemma u32_id [c_arith]: "n < 2 ^ 32 \<Longrightarrow> u32 n = n"
  by (simp add: u32_def)

lemma u16_bound [simp]: "u16 n < 65536"
  by (simp add: u16_def)

lemma u32_bound [simp]: "u32 n < 4294967296"
  by (simp add: u32_def)

lemma sub32_id [c_arith]:
  assumes "b \<le> a" "a < 2 ^ 32"
  shows "sub32 a b = a - b"
proof -
  have "a + (2 ^ 32 - b mod 2 ^ 32) = (a - b) + 2 ^ 32"
    using assms by simp
  then show ?thesis
    unfolding sub32_def using assms by (metis less_imp_diff_less mod_add_self2 mod_less)
qed

lemma sub32_bound [simp]: "sub32 a b < 4294967296"
  by (simp add: sub32_def)

subsection \<open>Byte memories\<close>

definition mread :: "mem \<Rightarrow> nat \<Rightarrow> nat \<Rightarrow> byte list" where
  "mread m a n = map m [a..<a + n]"

definition mwrite :: "mem \<Rightarrow> nat \<Rightarrow> byte list \<Rightarrow> mem" where
  "mwrite m a bs = (\<lambda>x. if a \<le> x \<and> x < a + length bs then bs ! (x - a) else m x)"

definition mfill :: "mem \<Rightarrow> nat \<Rightarrow> nat \<Rightarrow> byte \<Rightarrow> mem" where
  "mfill m a n b = (\<lambda>x. if a \<le> x \<and> x < a + n then b else m x)"

definition mprog :: "mem \<Rightarrow> nat \<Rightarrow> byte list \<Rightarrow> mem" where
  "mprog m a bs = (\<lambda>x. if a \<le> x \<and> x < a + length bs then m x AND bs ! (x - a) else m x)"

text \<open>\<open>same_outside a n m m'\<close>: the two memories agree outside \<open>[a, a + n)\<close>.\<close>

definition same_outside :: "nat \<Rightarrow> nat \<Rightarrow> mem \<Rightarrow> mem \<Rightarrow> bool" where
  "same_outside a n m m' \<longleftrightarrow> (\<forall>x. x < a \<or> a + n \<le> x \<longrightarrow> m' x = m x)"

lemma length_mread [simp]: "length (mread m a n) = n"
  by (simp add: mread_def)

lemma mread_0 [simp]: "mread m a 0 = []"
  by (simp add: mread_def)

lemma mread_nth [simp]: "i < n \<Longrightarrow> mread m a n ! i = m (a + i)"
  by (simp add: mread_def)

lemma mread_eq_iff: "mread m a n = mread m' b n \<longleftrightarrow> (\<forall>i<n. m (a + i) = m' (b + i))"
  by (auto simp: list_eq_iff_nth_eq)

lemma mread_cong: "(\<And>i. i < n \<Longrightarrow> m (a + i) = m' (b + i)) \<Longrightarrow> mread m a n = mread m' b n"
  by (simp add: mread_eq_iff)

lemma mread_add: "mread m a (n + k) = mread m a n @ mread m (a + n) k"
  by (rule nth_equalityI) (auto simp: nth_append add.assoc)

lemma mread_Suc: "mread m a (Suc n) = m a # mread m (Suc a) n"
  using mread_add [of m a 1 n] by (simp add: mread_def)

lemma take_mread: "k \<le> n \<Longrightarrow> take k (mread m a n) = mread m a k"
  by (rule nth_equalityI) auto

lemma drop_mread: "drop k (mread m a n) = mread m (a + k) (n - k)"
  by (rule nth_equalityI) (auto simp: add.assoc)

lemma mwrite_apply [mem_simps]:
  "mwrite m a bs x = (if a \<le> x \<and> x < a + length bs then bs ! (x - a) else m x)"
  by (simp add: mwrite_def)

lemma mfill_apply [mem_simps]:
  "mfill m a n b x = (if a \<le> x \<and> x < a + n then b else m x)"
  by (simp add: mfill_def)

lemma mprog_apply [mem_simps]:
  "mprog m a bs x = (if a \<le> x \<and> x < a + length bs then m x AND bs ! (x - a) else m x)"
  by (simp add: mprog_def)

lemma mread_mwrite_same: "length bs = n \<Longrightarrow> mread (mwrite m a bs) a n = bs"
  by (rule nth_equalityI) (auto simp: mem_simps)

lemma mread_mwrite_sub:
  "k + n \<le> length bs \<Longrightarrow> mread (mwrite m a bs) (a + k) n = take n (drop k bs)"
  by (rule nth_equalityI) (auto simp: mem_simps)

lemma mread_mwrite_other:
  "a + length bs \<le> x \<or> x + n \<le> a \<Longrightarrow> mread (mwrite m a bs) x n = mread m x n"
  by (rule mread_cong) (auto simp: mem_simps)

lemma mread_mfill_other:
  "a + k \<le> x \<or> x + n \<le> a \<Longrightarrow> mread (mfill m a k b) x n = mread m x n"
  by (rule mread_cong) (auto simp: mem_simps)

lemma mprog_single [mem_simps]: "mprog m a [b] x = (if x = a then m x AND b else m x)"
  by (auto simp: mprog_def)

lemma mprog_Nil [simp]: "mprog m a [] = m"
  by (rule ext) (auto simp: mem_simps)

lemma mwrite_Nil [simp]: "mwrite m a [] = m"
  by (rule ext) (auto simp: mem_simps)

lemma mprog_Cons: "mprog m a (b # bs) = mprog (m(a := m a AND b)) (Suc a) bs"
  by (rule ext) (auto simp: mem_simps nth_Cons' Suc_diff_Suc)

lemma and_max_byte [simp]: "(255 :: byte) AND b = b" "b AND (255 :: byte) = b"
proof -
  have m: "(255 :: byte) = -1"
    by simp
  show "(255 :: byte) AND b = b" "b AND (255 :: byte) = b"
    by (simp_all add: m)
qed

text \<open>Programming erased flash stores the data.\<close>

lemma mprog_erased:
  assumes "\<And>i. i < length bs \<Longrightarrow> m (a + i) = 255"
  shows "mprog m a bs = mwrite m a bs"
proof (rule ext)
  fix x
  show "mprog m a bs x = mwrite m a bs x"
    using assms [of "x - a"] by (auto simp: mem_simps)
qed

lemma mprog_idem: "mprog (mprog m a bs) a bs = mprog m a bs"
  by (rule ext) (auto simp: mem_simps and.assoc)

lemma mprog_id:
  assumes "mread m a (length bs) = bs"
  shows "mprog m a bs = m"
proof (rule ext)
  fix x
  have "m x AND bs ! (x - a) = m x" if "a \<le> x" "x < a + length bs"
    using that mread_nth [of "x - a" "length bs" m a] assms by simp
  then show "mprog m a bs x = m x"
    by (simp add: mem_simps)
qed

lemma same_outside_refl [simp]: "same_outside a n m m"
  by (simp add: same_outside_def)

lemma same_outside_trans:
  "same_outside a n m m' \<Longrightarrow> same_outside a n m' m'' \<Longrightarrow> same_outside a n m m''"
  by (simp add: same_outside_def)

lemma same_outside_mono:
  "same_outside b k m m' \<Longrightarrow> a \<le> b \<Longrightarrow> b + k \<le> a + n \<Longrightarrow> same_outside a n m m'"
  by (auto simp: same_outside_def)

lemma same_outsideD: "same_outside a n m m' \<Longrightarrow> x < a \<or> a + n \<le> x \<Longrightarrow> m' x = m x"
  by (auto simp: same_outside_def)

lemma same_outside_mread:
  "same_outside a n m m' \<Longrightarrow> x + k \<le> a \<or> a + n \<le> x \<Longrightarrow> mread m' x k = mread m x k"
  unfolding same_outside_def by (rule mread_cong) auto

lemma same_outside_mprog: "length bs \<le> n \<Longrightarrow> same_outside a n m (mprog m a bs)"
  by (auto simp: same_outside_def mem_simps)

lemma same_outside_mfill: "k \<le> n \<Longrightarrow> same_outside a n m (mfill m a k b)"
  by (auto simp: same_outside_def mem_simps)

text \<open>The two nibbles of a byte.\<close>

lemma bit_low_nibble: "bit (15 :: byte) n \<longleftrightarrow> n < 4"
proof -
  have e: "(15 :: byte) = mask 4"
    by (simp add: mask_eq_exp_minus_1)
  show ?thesis
    unfolding e by (auto simp: bit_simps)
qed

lemma bit_high_nibble: "bit (240 :: byte) n \<longleftrightarrow> 4 \<le> n \<and> n < 8"
proof -
  have e: "(240 :: byte) = push_bit 4 (mask 4)"
    by (simp add: mask_eq_exp_minus_1)
  show ?thesis
    unfolding e by (auto simp: bit_simps)
qed

lemmas bit_nibble_iff = bit_and_iff bit_or_iff bit_push_bit_iff bit_drop_bit_eq o_def
  bit_low_nibble bit_high_nibble

subsection \<open>Little-endian integers\<close>

definition le16 :: "byte list \<Rightarrow> nat" where
  "le16 bs = unat (bs ! 0) + 256 * unat (bs ! 1)"

definition le32 :: "byte list \<Rightarrow> nat" where
  "le32 bs = unat (bs ! 0) + 256 * unat (bs ! 1) + 65536 * unat (bs ! 2)
     + 16777216 * unat (bs ! 3)"

definition to_le32 :: "nat \<Rightarrow> byte list" where
  "to_le32 n = [of_nat n, of_nat (n div 256), of_nat (n div 65536), of_nat (n div 16777216)]"

definition le16_at :: "mem \<Rightarrow> nat \<Rightarrow> nat" where
  "le16_at m a = le16 (mread m a 2)"

definition le32_at :: "mem \<Rightarrow> nat \<Rightarrow> nat" where
  "le32_at m a = le32 (mread m a 4)"

lemma unat_byte_bound [simp]: "unat (b :: byte) < 256"
proof -
  have "unat b < 2 ^ LENGTH(8)"
    by (rule unsigned_less)
  then show ?thesis
    by simp
qed

lemma unat_of_nat_byte [simp]: "unat (of_nat n :: byte) = n mod 256"
  by (simp add: unat_of_nat)

lemma length_to_le32 [simp]: "length (to_le32 n) = 4"
  by (simp add: to_le32_def)

lemma le32_bound: "le32 bs < 4294967296"
  using unat_byte_bound [of "bs ! 0"] unat_byte_bound [of "bs ! 1"]
    unat_byte_bound [of "bs ! 2"] unat_byte_bound [of "bs ! 3"]
  unfolding le32_def by linarith

lemma le16_bound: "le16 bs < 65536"
  using unat_byte_bound [of "bs ! 0"] unat_byte_bound [of "bs ! 1"]
  unfolding le16_def by linarith

lemma mod_256_pow4:
  "n mod 4294967296 = n mod 256 + 256 * (n div 256 mod 256) + 65536 * (n div 65536 mod 256)
      + 16777216 * (n div 16777216 mod 256)" for n :: nat
proof -
  have "n mod (256 * 256) = 256 * (n div 256 mod 256) + n mod 256"
    by (rule mod_mult2_eq)
  moreover have "n mod (65536 * 256) = 65536 * (n div 65536 mod 256) + n mod 65536"
    by (rule mod_mult2_eq)
  moreover have "n mod (16777216 * 256) = 16777216 * (n div 16777216 mod 256) + n mod 16777216"
    by (rule mod_mult2_eq)
  ultimately show ?thesis
    by simp
qed

lemma le32_to_le32: "le32 (to_le32 n) = u32 n"
  by (simp add: le32_def to_le32_def u32_def mod_256_pow4)

lemma to_le32_le32:
  assumes "length bs = 4"
  shows "to_le32 (le32 bs) = bs"
proof -
  obtain a b c d where bs: "bs = [a, b, c, d]"
    using assms by (auto simp: numeral_eq_Suc length_Suc_conv)
  have dm: "(r + k * q) div k = q" if "r < k" for r k q :: nat
    using that by simp
  have d1: "le32 bs div 256 = unat b + 256 * (unat c + 256 * unat d)"
    using dm [of "unat a" 256 "unat b + 256 * (unat c + 256 * unat d)"]
    by (simp add: bs le32_def algebra_simps)
  have d2: "le32 bs div 65536 = unat c + 256 * unat d"
    using dm [of "unat a + 256 * unat b" 65536 "unat c + 256 * unat d"]
      unat_byte_bound [of a] unat_byte_bound [of b]
    by (simp add: bs le32_def algebra_simps)
  have d3: "le32 bs div 16777216 = unat d"
    using dm [of "unat a + 256 * unat b + 65536 * unat c" 16777216 "unat d"]
      unat_byte_bound [of a] unat_byte_bound [of b] unat_byte_bound [of c]
    by (simp add: bs le32_def algebra_simps)
  have z: "(256 :: byte) = 0" "(65536 :: byte) = 0" "(16777216 :: byte) = 0"
    by simp_all
  have "of_nat (le32 bs) = a" "of_nat (le32 bs div 256) = b" "of_nat (le32 bs div 65536) = c"
    "of_nat (le32 bs div 16777216) = d"
    unfolding d1 d2 d3 by (simp_all add: bs le32_def z)
  then show ?thesis
    by (simp add: to_le32_def bs)
qed

lemma le32_eq_iff: "length bs = 4 \<Longrightarrow> n < 2 ^ 32 \<Longrightarrow> le32 bs = n \<longleftrightarrow> bs = to_le32 n"
  by (metis le32_to_le32 to_le32_le32 u32_id)

lemma le32_at_eq:
  "le32_at m a = unat (m a) + 256 * unat (m (a + 1)) + 65536 * unat (m (a + 2))
     + 16777216 * unat (m (a + 3))"
  by (simp add: le32_at_def le32_def)

lemma le16_at_eq: "le16_at m a = unat (m a) + 256 * unat (m (a + 1))"
  by (simp add: le16_at_def le16_def)

lemma le32_at_bound: "le32_at m a < 4294967296"
  by (simp only: le32_at_def le32_bound)

lemma le32_at_cong: "(\<And>i. i < 4 \<Longrightarrow> m (a + i) = m' (b + i)) \<Longrightarrow> le32_at m a = le32_at m' b"
  unfolding le32_at_def by (metis mread_cong)

end
