(* ===== verification/Flash.thy ===== *)
theory Flash
  imports Prelude
begin

section \<open>Build configuration, the flash HAL and the simulator HAL\<close>

text \<open>
  wolfBoot's core is compiled against a build configuration (\<open>include/target.h.in\<close>,
  \<open>include/wolfboot/wolfboot.h\<close>) and calls the flash through the HAL declared in
  \<open>include/hal.h\<close>. Here
  \<^item> \<open>cfg\<close> is the configuration, with the source's macro names as fields, and
    \<open>cfg_ok\<close> the layout conditions that \<open>target.h.in\<close> enforces with \<open>#error\<close>
    together with the documented geometry (partitions are whole numbers of sectors);
  \<^item> \<open>'s hal\<close> is the HAL as a record of operations on a device state \<open>'s\<close>: the core
    is defined for every HAL;
  \<^item> the locales \<open>flash_dev\<close> and \<open>flash_hal\<close> state the contract of \<open>docs/HAL.md\<close>,
    for devices that may lose power in the middle of any operation;
  \<^item> \<open>sim_hal\<close> is the HAL of \<open>hal/sim.c\<close>, including its power-failure and
    emergency test hooks, and the interpretations prove that it meets the contract.
\<close>

subsection \<open>Configuration\<close>

record cfg =
  WOLFBOOT_SECTOR_SIZE :: nat
  WOLFBOOT_PARTITION_SIZE :: nat
  WOLFBOOT_PARTITION_BOOT_ADDRESS :: nat
  WOLFBOOT_PARTITION_UPDATE_ADDRESS :: nat
  WOLFBOOT_PARTITION_SWAP_ADDRESS :: nat
  IMAGE_HEADER_SIZE :: nat
  FLASHBUFFER_SIZE :: nat
  FLAGS_HOME :: bool
  NVM_FLASH_WRITEONCE :: bool
  ALLOW_DOWNGRADE :: bool

definition IMAGE_HEADER_OFFSET :: nat where
  "IMAGE_HEADER_OFFSET = 2 * 4"

definition UINTPTR_MAX :: nat where
  "UINTPTR_MAX = 2 ^ 64 - 1"

definition WOLFBOOT_MAGIC :: nat where
  "WOLFBOOT_MAGIC = 0x464C4F57"

definition WOLFBOOT_MAGIC_TRAIL :: nat where
  "WOLFBOOT_MAGIC_TRAIL = 0x544F4F42"

definition FLASH_BYTE_ERASED :: byte where
  "FLASH_BYTE_ERASED = 0xFF"

definition PART_BOOT :: nat where "PART_BOOT = 0"
definition PART_UPDATE :: nat where "PART_UPDATE = 1"
definition PART_SWAP :: nat where "PART_SWAP = 2"
definition PART_NONE :: nat where "PART_NONE = 0xFF"

lemmas part_defs = PART_BOOT_def PART_UPDATE_def PART_SWAP_def PART_NONE_def

lemma part_distinct [simp]:
  "PART_BOOT \<noteq> PART_UPDATE" "PART_UPDATE \<noteq> PART_BOOT" "PART_BOOT \<noteq> PART_SWAP"
  "PART_SWAP \<noteq> PART_BOOT" "PART_UPDATE \<noteq> PART_SWAP" "PART_SWAP \<noteq> PART_UPDATE"
  "PART_BOOT \<noteq> PART_NONE" "PART_UPDATE \<noteq> PART_NONE" "PART_SWAP \<noteq> PART_NONE"
  "PART_NONE \<noteq> PART_BOOT" "PART_NONE \<noteq> PART_UPDATE" "PART_NONE \<noteq> PART_SWAP"
  by (simp_all add: part_defs)

text \<open>Two regions do not overlap.\<close>

definition disjnt_regions :: "nat \<Rightarrow> nat \<Rightarrow> nat \<Rightarrow> nat \<Rightarrow> bool" where
  "disjnt_regions a n b k \<longleftrightarrow> a + n \<le> b \<or> b + k \<le> a"

text \<open>
  The layout checks of \<open>target.h.in\<close> (the three partitions are disjoint), that the
  partitions are made of at least four whole, aligned sectors with room for the header in
  the first and for the flags in the last, that a sector is a whole number of copy buffers,
  and that addresses fit in 31 bits.
\<close>

definition cfg_ok :: "cfg \<Rightarrow> bool" where
  "cfg_ok c \<longleftrightarrow>
     0 < FLASHBUFFER_SIZE c
   \<and> FLASHBUFFER_SIZE c dvd WOLFBOOT_SECTOR_SIZE c
   \<and> WOLFBOOT_SECTOR_SIZE c dvd WOLFBOOT_PARTITION_SIZE c
   \<and> 4 * WOLFBOOT_SECTOR_SIZE c \<le> WOLFBOOT_PARTITION_SIZE c
   \<and> WOLFBOOT_PARTITION_SIZE c div WOLFBOOT_SECTOR_SIZE c + 32 \<le> 2 * WOLFBOOT_SECTOR_SIZE c
   \<and> WOLFBOOT_SECTOR_SIZE c dvd WOLFBOOT_PARTITION_BOOT_ADDRESS c
   \<and> WOLFBOOT_SECTOR_SIZE c dvd WOLFBOOT_PARTITION_UPDATE_ADDRESS c
   \<and> WOLFBOOT_SECTOR_SIZE c dvd WOLFBOOT_PARTITION_SWAP_ADDRESS c
   \<and> IMAGE_HEADER_OFFSET < IMAGE_HEADER_SIZE c
   \<and> IMAGE_HEADER_SIZE c \<le> WOLFBOOT_SECTOR_SIZE c
   \<and> WOLFBOOT_PARTITION_SIZE c + WOLFBOOT_PARTITION_BOOT_ADDRESS c < 2 ^ 31
   \<and> WOLFBOOT_PARTITION_SIZE c + WOLFBOOT_PARTITION_UPDATE_ADDRESS c < 2 ^ 31
   \<and> WOLFBOOT_SECTOR_SIZE c + WOLFBOOT_PARTITION_SWAP_ADDRESS c < 2 ^ 31
   \<and> disjnt_regions (WOLFBOOT_PARTITION_BOOT_ADDRESS c) (WOLFBOOT_PARTITION_SIZE c)
       (WOLFBOOT_PARTITION_UPDATE_ADDRESS c) (WOLFBOOT_PARTITION_SIZE c)
   \<and> disjnt_regions (WOLFBOOT_PARTITION_BOOT_ADDRESS c) (WOLFBOOT_PARTITION_SIZE c)
       (WOLFBOOT_PARTITION_SWAP_ADDRESS c) (WOLFBOOT_SECTOR_SIZE c)
   \<and> disjnt_regions (WOLFBOOT_PARTITION_UPDATE_ADDRESS c) (WOLFBOOT_PARTITION_SIZE c)
       (WOLFBOOT_PARTITION_SWAP_ADDRESS c) (WOLFBOOT_SECTOR_SIZE c)"

text \<open>The layout of \<open>config/examples/sim.config\<close>, with ED25519 and SHA256 headers.\<close>

definition sim_config :: cfg where
  "sim_config = \<lparr>WOLFBOOT_SECTOR_SIZE = 0x1000, WOLFBOOT_PARTITION_SIZE = 0x40000,
     WOLFBOOT_PARTITION_BOOT_ADDRESS = 0x80000, WOLFBOOT_PARTITION_UPDATE_ADDRESS = 0x100000,
     WOLFBOOT_PARTITION_SWAP_ADDRESS = 0x180000, IMAGE_HEADER_SIZE = 256, FLASHBUFFER_SIZE = 256,
     FLAGS_HOME = False, NVM_FLASH_WRITEONCE = False, ALLOW_DOWNGRADE = False\<rparr>"

lemma sim_config_sel [simp]:
  "WOLFBOOT_SECTOR_SIZE sim_config = 0x1000" "WOLFBOOT_PARTITION_SIZE sim_config = 0x40000"
  "WOLFBOOT_PARTITION_BOOT_ADDRESS sim_config = 0x80000"
  "WOLFBOOT_PARTITION_UPDATE_ADDRESS sim_config = 0x100000"
  "WOLFBOOT_PARTITION_SWAP_ADDRESS sim_config = 0x180000"
  "IMAGE_HEADER_SIZE sim_config = 256" "FLASHBUFFER_SIZE sim_config = 256"
  "\<not> FLAGS_HOME sim_config" "\<not> NVM_FLASH_WRITEONCE sim_config" "\<not> ALLOW_DOWNGRADE sim_config"
  by (simp_all add: sim_config_def)

lemma sim_config_ok: "cfg_ok sim_config"
  by (simp add: cfg_ok_def disjnt_regions_def IMAGE_HEADER_OFFSET_def)

lemma cfg_okD:
  assumes "cfg_ok c"
  shows "0 < FLASHBUFFER_SIZE c" "FLASHBUFFER_SIZE c dvd WOLFBOOT_SECTOR_SIZE c"
    "WOLFBOOT_SECTOR_SIZE c dvd WOLFBOOT_PARTITION_SIZE c"
    "4 * WOLFBOOT_SECTOR_SIZE c \<le> WOLFBOOT_PARTITION_SIZE c"
    "WOLFBOOT_PARTITION_SIZE c div WOLFBOOT_SECTOR_SIZE c + 32 \<le> 2 * WOLFBOOT_SECTOR_SIZE c"
    "16 \<le> WOLFBOOT_SECTOR_SIZE c"
    "WOLFBOOT_SECTOR_SIZE c dvd WOLFBOOT_PARTITION_BOOT_ADDRESS c"
    "WOLFBOOT_SECTOR_SIZE c dvd WOLFBOOT_PARTITION_UPDATE_ADDRESS c"
    "WOLFBOOT_SECTOR_SIZE c dvd WOLFBOOT_PARTITION_SWAP_ADDRESS c"
    "IMAGE_HEADER_OFFSET < IMAGE_HEADER_SIZE c"
    "IMAGE_HEADER_SIZE c \<le> WOLFBOOT_SECTOR_SIZE c"
    "WOLFBOOT_PARTITION_SIZE c + WOLFBOOT_PARTITION_BOOT_ADDRESS c < 2147483648"
    "WOLFBOOT_PARTITION_SIZE c + WOLFBOOT_PARTITION_UPDATE_ADDRESS c < 2147483648"
    "WOLFBOOT_SECTOR_SIZE c + WOLFBOOT_PARTITION_SWAP_ADDRESS c < 2147483648"
  using assms unfolding cfg_ok_def by simp_all

lemma cfg_ok_disjoint:
  assumes "cfg_ok c"
  shows "WOLFBOOT_PARTITION_BOOT_ADDRESS c + WOLFBOOT_PARTITION_SIZE c \<le> WOLFBOOT_PARTITION_UPDATE_ADDRESS c
       \<or> WOLFBOOT_PARTITION_UPDATE_ADDRESS c + WOLFBOOT_PARTITION_SIZE c \<le> WOLFBOOT_PARTITION_BOOT_ADDRESS c"
    "WOLFBOOT_PARTITION_BOOT_ADDRESS c + WOLFBOOT_PARTITION_SIZE c \<le> WOLFBOOT_PARTITION_SWAP_ADDRESS c
       \<or> WOLFBOOT_PARTITION_SWAP_ADDRESS c + WOLFBOOT_SECTOR_SIZE c \<le> WOLFBOOT_PARTITION_BOOT_ADDRESS c"
    "WOLFBOOT_PARTITION_UPDATE_ADDRESS c + WOLFBOOT_PARTITION_SIZE c \<le> WOLFBOOT_PARTITION_SWAP_ADDRESS c
       \<or> WOLFBOOT_PARTITION_SWAP_ADDRESS c + WOLFBOOT_SECTOR_SIZE c \<le> WOLFBOOT_PARTITION_UPDATE_ADDRESS c"
  using assms unfolding cfg_ok_def disjnt_regions_def by blast+

subsection \<open>The HAL interface\<close>

record 's hal =
  hal_flash_write :: "nat \<Rightarrow> byte list \<Rightarrow> 's \<Rightarrow> int \<times> 's"
  hal_flash_erase :: "nat \<Rightarrow> nat \<Rightarrow> 's \<Rightarrow> int \<times> 's"
  hal_flash_unlock :: "'s \<Rightarrow> 's"
  hal_flash_lock :: "'s \<Rightarrow> 's"
  flash_mem :: "'s \<Rightarrow> mem"

text \<open>
  The contract. \<open>alive\<close> says that the device is powered and answers, \<open>dead\<close> that
  power has been lost: from then on nothing changes. An erase that loses power leaves its
  own region in any state; a write that loses power has programmed a prefix of its data.
  \<open>flash_dev\<close> asks for writes to erased flash only, which is all that write-once
  memories offer.
\<close>

locale flash_dev =
  fixes H :: "'s hal"
    and alive :: "'s \<Rightarrow> bool"
    and unlocked :: "'s \<Rightarrow> bool"
    and dead :: "'s \<Rightarrow> bool"
  assumes alive_not_dead: "alive s \<Longrightarrow> \<not> dead s"
    and unlock_alive: "alive s \<Longrightarrow> alive (hal_flash_unlock H s) \<and> unlocked (hal_flash_unlock H s)"
    and unlock_dead: "dead s \<Longrightarrow> dead (hal_flash_unlock H s)"
    and unlock_mem: "flash_mem H (hal_flash_unlock H s) = flash_mem H s"
    and lock_alive: "alive s \<Longrightarrow> alive (hal_flash_lock H s)"
    and lock_dead: "dead s \<Longrightarrow> dead (hal_flash_lock H s)"
    and lock_mem: "flash_mem H (hal_flash_lock H s) = flash_mem H s"
    and write_erased: "alive s \<Longrightarrow> unlocked s \<Longrightarrow>
      (\<And>i. i < length d \<Longrightarrow> flash_mem H s (a + i) = 255) \<Longrightarrow>
      hal_flash_write H a d s = (r, s') \<Longrightarrow>
        (alive s' \<and> unlocked s' \<and> r = 0 \<and> flash_mem H s' = mwrite (flash_mem H s) a d)
      \<or> (dead s' \<and> (\<exists>k\<le>length d. flash_mem H s' = mwrite (flash_mem H s) a (take k d)))"
    and write_dead: "dead s \<Longrightarrow> hal_flash_write H a d s = (r, s') \<Longrightarrow>
      dead s' \<and> flash_mem H s' = flash_mem H s"
    and erase_alive: "alive s \<Longrightarrow> unlocked s \<Longrightarrow> hal_flash_erase H a n s = (r, s') \<Longrightarrow>
        (alive s' \<and> unlocked s' \<and> r = 0 \<and> flash_mem H s' = mfill (flash_mem H s) a n 255)
      \<or> (dead s' \<and> same_outside a n (flash_mem H s) (flash_mem H s'))"
    and erase_dead: "dead s \<Longrightarrow> hal_flash_erase H a n s = (r, s') \<Longrightarrow>
      dead s' \<and> flash_mem H s' = flash_mem H s"

text \<open>
  The shape of every statement about a device operation: either the device lives and its
  memory is \<open>m\<close>, or power was lost and the memory satisfies \<open>P\<close>. \<open>frozen f\<close> says
  that \<open>f\<close> changes nothing on a dead device; \<open>outcome_bind\<close> composes operations.
\<close>

context flash_dev
begin

definition outcome :: "mem \<Rightarrow> (mem \<Rightarrow> bool) \<Rightarrow> 's \<Rightarrow> bool" where
  "outcome m P s \<longleftrightarrow> (alive s \<and> unlocked s \<and> flash_mem H s = m) \<or> (dead s \<and> P (flash_mem H s))"

definition frozen :: "('s \<Rightarrow> 's) \<Rightarrow> bool" where
  "frozen f \<longleftrightarrow> (\<forall>s. dead s \<longrightarrow> dead (f s) \<and> flash_mem H (f s) = flash_mem H s)"

lemma outcome_bind:
  assumes "outcome m P s" "frozen g"
    and "\<And>s. alive s \<Longrightarrow> unlocked s \<Longrightarrow> flash_mem H s = m \<Longrightarrow> outcome m' Q (g s)"
    and "\<And>m. P m \<Longrightarrow> Q m"
  shows "outcome m' Q (g s)"
  using assms unfolding outcome_def frozen_def by metis

lemma outcome_mono: "outcome m P s \<Longrightarrow> (\<And>m. P m \<Longrightarrow> Q m) \<Longrightarrow> outcome m Q s"
  by (auto simp: outcome_def)

lemma outcome_alive: "outcome m P s \<Longrightarrow> alive s \<Longrightarrow> unlocked s \<and> flash_mem H s = m"
  by (auto simp: outcome_def dest: alive_not_dead)

lemma outcome_dead: "outcome m P s \<Longrightarrow> dead s \<Longrightarrow> P (flash_mem H s)"
  by (auto simp: outcome_def dest: alive_not_dead)

lemma outcome_refl: "alive s \<Longrightarrow> unlocked s \<Longrightarrow> flash_mem H s = m \<Longrightarrow> outcome m P s"
  by (simp add: outcome_def)

lemma frozen_id: "frozen (\<lambda>s. s)"
  by (simp add: frozen_def)

lemma frozen_comp: "frozen f \<Longrightarrow> frozen g \<Longrightarrow> frozen (\<lambda>s. g (f s))"
  by (simp add: frozen_def)

lemma frozen_if: "frozen f \<Longrightarrow> frozen g \<Longrightarrow> frozen (\<lambda>s. if P s then f s else g s)"
  by (simp add: frozen_def)

lemma frozen_write: "frozen (\<lambda>s. snd (hal_flash_write H a d s))"
  unfolding frozen_def by (metis prod.collapse write_dead)

lemma frozen_erase: "frozen (\<lambda>s. snd (hal_flash_erase H a n s))"
  unfolding frozen_def by (metis prod.collapse erase_dead)

lemma frozen_unlock: "frozen (hal_flash_unlock H)"
  by (simp add: frozen_def unlock_dead unlock_mem)

lemma frozen_lock: "frozen (hal_flash_lock H)"
  by (simp add: frozen_def lock_dead lock_mem)

lemmas frozen_hal = frozen_id frozen_write frozen_erase frozen_unlock frozen_lock

lemma erase_outcome:
  "alive s \<Longrightarrow> unlocked s \<Longrightarrow>
     outcome (mfill (flash_mem H s) a n 255) (same_outside a n (flash_mem H s))
       (snd (hal_flash_erase H a n s))"
  unfolding outcome_def by (metis prod.collapse erase_alive)

lemma write_erased_outcome:
  "alive s \<Longrightarrow> unlocked s \<Longrightarrow> (\<And>i. i < length d \<Longrightarrow> flash_mem H s (a + i) = 255) \<Longrightarrow>
     outcome (mwrite (flash_mem H s) a d)
       (\<lambda>m. \<exists>k\<le>length d. m = mwrite (flash_mem H s) a (take k d))
       (snd (hal_flash_write H a d s))"
  unfolding outcome_def by (metis prod.collapse write_erased)

lemma erase_ret: "alive s \<Longrightarrow> unlocked s \<Longrightarrow> alive (snd (hal_flash_erase H a n s)) \<Longrightarrow>
    fst (hal_flash_erase H a n s) = 0"
  by (metis alive_not_dead prod.collapse erase_alive)

lemma write_erased_ret: "alive s \<Longrightarrow> unlocked s \<Longrightarrow>
    (\<And>i. i < length d \<Longrightarrow> flash_mem H s (a + i) = 255) \<Longrightarrow>
    alive (snd (hal_flash_write H a d s)) \<Longrightarrow> fst (hal_flash_write H a d s) = 0"
  by (metis alive_not_dead prod.collapse write_erased)

end

text \<open>
  NOR flash that may be programmed more than once between erases: a write clears bits.
  This is what the partition trailer of \<open>libwolfboot.c\<close> relies on when
  \<open>NVM_FLASH_WRITEONCE\<close> is not set.
\<close>

locale flash_hal = flash_dev H alive unlocked dead
  for H :: "'s hal" and alive unlocked dead +
  assumes write_alive: "alive s \<Longrightarrow> unlocked s \<Longrightarrow> hal_flash_write H a d s = (r, s') \<Longrightarrow>
        (alive s' \<and> unlocked s' \<and> r = 0 \<and> flash_mem H s' = mprog (flash_mem H s) a d)
      \<or> (dead s' \<and> (\<exists>k\<le>length d. flash_mem H s' = mprog (flash_mem H s) a (take k d)))"

context flash_hal
begin

lemma write_outcome:
  "alive s \<Longrightarrow> unlocked s \<Longrightarrow>
     outcome (mprog (flash_mem H s) a d)
       (\<lambda>m. \<exists>k\<le>length d. m = mprog (flash_mem H s) a (take k d))
       (snd (hal_flash_write H a d s))"
  unfolding outcome_def by (metis prod.collapse write_alive)

lemma write_ret: "alive s \<Longrightarrow> unlocked s \<Longrightarrow> alive (snd (hal_flash_write H a d s)) \<Longrightarrow>
    fst (hal_flash_write H a d s) = 0"
  by (metis alive_not_dead prod.collapse write_alive)

end

subsection \<open>The simulator HAL of \<open>hal/sim.c\<close>\<close>

text \<open>
  The globals of \<open>hal/sim.c\<close>: the mapped flash file, the lock flag and the two test
  hooks set from the command line. \<open>exit(0)\<close> in the simulated power failure is
  \<open>powered := False\<close>: the process is gone, so no later HAL call has an effect.
\<close>

record sim =
  sim_mem :: mem
  flashLocked :: bool
  forceEmergency :: bool
  erasefail_address :: nat
  powered :: bool

fun sim_program :: "cfg \<Rightarrow> mem \<Rightarrow> nat \<Rightarrow> byte list \<Rightarrow> int \<times> mem" where
  "sim_program c m a [] = (0, m)"
| "sim_program c m a (b # bs) =
     (if NVM_FLASH_WRITEONCE c \<and> m a \<noteq> FLASH_BYTE_ERASED then (-1, m)
      else sim_program c (m(a := m a AND b)) (Suc a) bs)"

definition sim_flash_write :: "cfg \<Rightarrow> nat \<Rightarrow> byte list \<Rightarrow> sim \<Rightarrow> int \<times> sim" where
  "sim_flash_write c address d s =
     (if \<not> powered s then (-1, s)
      else if flashLocked s then (-1, s)
      else if forceEmergency s \<and> address = WOLFBOOT_PARTITION_BOOT_ADDRESS c then
        (0, s\<lparr>sim_mem := mfill (sim_mem s) address (length d) 0, forceEmergency := False\<rparr>)
      else (let (r, m) = sim_program c (sim_mem s) address d in (r, s\<lparr>sim_mem := m\<rparr>)))"

definition sim_flash_erase :: "cfg \<Rightarrow> nat \<Rightarrow> nat \<Rightarrow> sim \<Rightarrow> int \<times> sim" where
  "sim_flash_erase c address len s =
     (if \<not> powered s then (-1, s)
      else if flashLocked s then (-1, s)
      else if address = erasefail_address s + WOLFBOOT_PARTITION_BOOT_ADDRESS c then
        (0, s\<lparr>sim_mem := mfill (sim_mem s) address len 0xEE, powered := False\<rparr>)
      else (0, s\<lparr>sim_mem := mfill (sim_mem s) address len FLASH_BYTE_ERASED\<rparr>))"

definition sim_flash_unlock :: "sim \<Rightarrow> sim" where
  "sim_flash_unlock s = s\<lparr>flashLocked := False\<rparr>"

definition sim_flash_lock :: "sim \<Rightarrow> sim" where
  "sim_flash_lock s = s\<lparr>flashLocked := True\<rparr>"

definition sim_hal :: "cfg \<Rightarrow> sim hal" where
  "sim_hal c = \<lparr>hal_flash_write = sim_flash_write c, hal_flash_erase = sim_flash_erase c,
     hal_flash_unlock = sim_flash_unlock, hal_flash_lock = sim_flash_lock, flash_mem = sim_mem\<rparr>"

definition sim_alive :: "sim \<Rightarrow> bool" where
  "sim_alive s \<longleftrightarrow> powered s \<and> \<not> forceEmergency s"

definition sim_unlocked :: "sim \<Rightarrow> bool" where
  "sim_unlocked s \<longleftrightarrow> \<not> flashLocked s"

definition sim_dead :: "sim \<Rightarrow> bool" where
  "sim_dead s \<longleftrightarrow> \<not> powered s"

lemmas sim_state_defs = sim_alive_def sim_unlocked_def sim_dead_def
lemmas sim_ops_defs = sim_flash_write_def sim_flash_erase_def sim_flash_unlock_def
  sim_flash_lock_def

lemma sim_hal_sel [simp]:
  "hal_flash_write (sim_hal c) = sim_flash_write c"
  "hal_flash_erase (sim_hal c) = sim_flash_erase c"
  "hal_flash_unlock (sim_hal c) = sim_flash_unlock"
  "hal_flash_lock (sim_hal c) = sim_flash_lock"
  "flash_mem (sim_hal c) = sim_mem"
  by (simp_all add: sim_hal_def)

lemma sim_program_erased:
  "(\<And>i. i < length d \<Longrightarrow> m (a + i) = 255) \<Longrightarrow> sim_program c m a d = (0, mprog m a d)"
proof (induction c m a d rule: sim_program.induct)
  case (1 c m a)
  then show ?case by simp
next
  case (2 c m a b bs)
  have 0: "m a = 255"
    using "2.prems" [of 0] by simp
  have rest: "(m(a := m a AND b)) (Suc a + i) = 255" if "i < length bs" for i
    using "2.prems" [of "Suc i"] that by simp
  from 0 have g: "\<not> (NVM_FLASH_WRITEONCE c \<and> m a \<noteq> FLASH_BYTE_ERASED)"
    by (simp add: FLASH_BYTE_ERASED_def)
  from g show ?case
    by (simp only: sim_program.simps if_False mprog_Cons "2.IH" [OF g rest])
qed

lemma sim_program_nor: "\<not> NVM_FLASH_WRITEONCE c \<Longrightarrow> sim_program c m a d = (0, mprog m a d)"
  by (induction c m a d rule: sim_program.induct) (simp_all add: mprog_Cons)

interpretation sim_dev: flash_dev "sim_hal c" sim_alive sim_unlocked sim_dead
proof
  fix s :: sim and d :: "byte list" and a :: nat and r :: int and s' :: sim
  assume "sim_alive s" "sim_unlocked s"
    and e: "\<And>i. i < length d \<Longrightarrow> flash_mem (sim_hal c) s (a + i) = 255"
    and "hal_flash_write (sim_hal c) a d s = (r, s')"
  moreover from e have "sim_program c (sim_mem s) a d = (0, mwrite (sim_mem s) a d)"
    by (simp add: sim_program_erased mprog_erased)
  ultimately show "(sim_alive s' \<and> sim_unlocked s' \<and> r = 0 \<and>
      flash_mem (sim_hal c) s' = mwrite (flash_mem (sim_hal c) s) a d) \<or>
    (sim_dead s' \<and> (\<exists>k\<le>length d. flash_mem (sim_hal c) s' =
      mwrite (flash_mem (sim_hal c) s) a (take k d)))"
    by (auto simp: sim_state_defs sim_flash_write_def)
next
  fix s :: sim and a n :: nat and r :: int and s' :: sim
  assume "sim_alive s" "sim_unlocked s" "hal_flash_erase (sim_hal c) a n s = (r, s')"
  then show "(sim_alive s' \<and> sim_unlocked s' \<and> r = 0 \<and>
      flash_mem (sim_hal c) s' = mfill (flash_mem (sim_hal c) s) a n 255) \<or>
    (sim_dead s' \<and> same_outside a n (flash_mem (sim_hal c) s) (flash_mem (sim_hal c) s'))"
    by (auto simp: sim_state_defs sim_flash_erase_def FLASH_BYTE_ERASED_def same_outside_mfill
        split: if_splits)
qed (auto simp: sim_state_defs sim_ops_defs split: if_splits prod.splits)

text \<open>
  Without \<open>NVM_FLASH_WRITEONCE\<close> the simulator is a NOR flash. The configuration is
  pinned to that build by \<open>nor_cfg\<close>.
\<close>

definition nor_cfg :: "cfg \<Rightarrow> cfg" where
  "nor_cfg c = c\<lparr>NVM_FLASH_WRITEONCE := False\<rparr>"

lemma nor_cfg_id [simp]: "\<not> NVM_FLASH_WRITEONCE c \<Longrightarrow> nor_cfg c = c"
  by (simp add: nor_cfg_def)

interpretation sim_nor: flash_hal "sim_hal (nor_cfg c)" sim_alive sim_unlocked sim_dead
proof
  fix s :: sim and d :: "byte list" and a :: nat and r :: int and s' :: sim
  assume "sim_alive s" "sim_unlocked s" "hal_flash_write (sim_hal (nor_cfg c)) a d s = (r, s')"
  moreover have "sim_program (nor_cfg c) (sim_mem s) a d = (0, mprog (sim_mem s) a d)"
    by (simp add: sim_program_nor nor_cfg_def)
  ultimately show "(sim_alive s' \<and> sim_unlocked s' \<and> r = 0 \<and>
      flash_mem (sim_hal (nor_cfg c)) s' = mprog (flash_mem (sim_hal (nor_cfg c)) s) a d) \<or>
    (sim_dead s' \<and> (\<exists>k\<le>length d. flash_mem (sim_hal (nor_cfg c)) s' =
      mprog (flash_mem (sim_hal (nor_cfg c)) s) a (take k d)))"
    by (auto simp: sim_state_defs sim_flash_write_def)
qed

lemma sim_flash_hal:
  "\<not> NVM_FLASH_WRITEONCE c \<Longrightarrow> flash_hal (sim_hal c) sim_alive sim_unlocked sim_dead"
  using sim_nor.flash_hal_axioms [of c] by simp

text \<open>
  The simulator loses power in an erase at \<open>erasefail_address\<close> only.
\<close>

lemma sim_write_alive [simp]: "sim_alive s \<Longrightarrow> sim_alive (snd (sim_flash_write c a d s))"
  by (simp add: sim_alive_def sim_flash_write_def split_def Let_def)

lemma sim_write_unlocked [simp]: "sim_unlocked s \<Longrightarrow> sim_unlocked (snd (sim_flash_write c a d s))"
  by (simp add: sim_unlocked_def sim_flash_write_def split_def Let_def)

lemma sim_erase_alive [simp]:
  "sim_alive s \<Longrightarrow> a \<noteq> erasefail_address s + WOLFBOOT_PARTITION_BOOT_ADDRESS c \<Longrightarrow>
    sim_alive (snd (sim_flash_erase c a n s))"
  by (simp add: sim_alive_def sim_flash_erase_def)

lemma sim_lock_alive [simp]:
  "sim_alive (sim_flash_lock s) = sim_alive s" "sim_alive (sim_flash_unlock s) = sim_alive s"
  "sim_unlocked (sim_flash_unlock s)"
  by (simp_all add: sim_state_defs sim_ops_defs)

lemma sim_erasefail_address [simp]:
  "erasefail_address (snd (sim_flash_write c a d s)) = erasefail_address s"
  "erasefail_address (snd (sim_flash_erase c a n s)) = erasefail_address s"
  "erasefail_address (sim_flash_lock s) = erasefail_address s"
  "erasefail_address (sim_flash_unlock s) = erasefail_address s"
  by (simp_all add: sim_ops_defs split_def Let_def)

lemma sim_lock_mem [simp]:
  "sim_mem (sim_flash_lock s) = sim_mem s" "sim_mem (sim_flash_unlock s) = sim_mem s"
  "flashLocked (sim_flash_lock s)"
  by (simp_all add: sim_ops_defs)

end
