(* ===== verification/Trailer.thy ===== *)
theory Trailer
  imports Flash
begin

section \<open>The partition trailer: states and sector flags (\<open>src/libwolfboot.c\<close>)\<close>

text \<open>
  The last bytes of a partition hold a magic word, the state byte of the partition and,
  for the UPDATE partition, one nibble per sector that records the progress of the swap.
  With \<open>FLAGS_HOME\<close> all of them are at the end of the BOOT partition.

  \<open>NVM_FLASH_WRITEONCE\<close> selects between two schemes. Without it, the flags are NOR
  bytes that are programmed in place. With it, two copies of the last sector are kept:
  \<open>nvm_select_fresh_sector\<close> picks the current one and erases the other,
  \<open>trailer_write\<close> and \<open>partition_magic_write\<close> write the modified copy to the
  erased sector and then erase the old one. Since selecting a sector may erase the other,
  reading a flag also takes and returns the device state.

  The trailers modelled are those on internal flash (\<open>EXT_FLASH\<close> not set), with the
  default polarity of the flags (\<open>WOLFBOOT_FLAGS_INVERT\<close> not set) and no room for an
  encryption key (\<open>TRAILER_SKIP\<close> is 0).
\<close>

subsection \<open>States, flags and addresses\<close>

definition IMG_STATE_NEW :: byte where "IMG_STATE_NEW = 0xFF"
definition IMG_STATE_UPDATING :: byte where "IMG_STATE_UPDATING = 0x70"
definition IMG_STATE_FINAL_FLAGS :: byte where "IMG_STATE_FINAL_FLAGS = 0x30"
definition IMG_STATE_TESTING :: byte where "IMG_STATE_TESTING = 0x10"
definition IMG_STATE_SUCCESS :: byte where "IMG_STATE_SUCCESS = 0x00"

definition SECT_FLAG_NEW :: byte where "SECT_FLAG_NEW = 0x0F"
definition SECT_FLAG_SWAPPING :: byte where "SECT_FLAG_SWAPPING = 0x07"
definition SECT_FLAG_BACKUP :: byte where "SECT_FLAG_BACKUP = 0x03"
definition SECT_FLAG_UPDATED :: byte where "SECT_FLAG_UPDATED = 0x00"

definition FLASH_WORD_ERASED :: nat where "FLASH_WORD_ERASED = 0xFFFFFFFF"

lemmas img_state_defs = IMG_STATE_NEW_def IMG_STATE_UPDATING_def IMG_STATE_FINAL_FLAGS_def
  IMG_STATE_TESTING_def IMG_STATE_SUCCESS_def
lemmas sect_flag_defs = SECT_FLAG_NEW_def SECT_FLAG_SWAPPING_def SECT_FLAG_BACKUP_def
  SECT_FLAG_UPDATED_def

definition PART_BOOT_ENDFLAGS :: "cfg \<Rightarrow> nat" where
  "PART_BOOT_ENDFLAGS c = WOLFBOOT_PARTITION_BOOT_ADDRESS c + WOLFBOOT_PARTITION_SIZE c"

definition PART_UPDATE_ENDFLAGS :: "cfg \<Rightarrow> nat" where
  "PART_UPDATE_ENDFLAGS c =
     (if FLAGS_HOME c then PART_BOOT_ENDFLAGS c - 8
      else WOLFBOOT_PARTITION_UPDATE_ADDRESS c + WOLFBOOT_PARTITION_SIZE c)"

definition SECTOR_FLAGS_SIZE :: "cfg \<Rightarrow> nat" where
  "SECTOR_FLAGS_SIZE c = WOLFBOOT_SECTOR_SIZE c - (4 + 1)"

subsection \<open>The two-sector scheme for write-once flash\<close>

text \<open>\<open>FLAG_CMP(a,b)\<close>: which of the two sectors has the more advanced flag.\<close>

definition FLAG_CMP :: "byte \<Rightarrow> byte \<Rightarrow> nat" where
  "FLAG_CMP a b = (if a < b then 0 else 1)"

definition get_base_offset :: "mem \<Rightarrow> nat \<Rightarrow> nat \<Rightarrow> byte" where
  "get_base_offset m base off = m (base - off)"

text \<open>The loop of \<open>nvm_select_fresh_sector\<close> over the offsets that remain.\<close>

fun nvm_scan_flags :: "cfg \<Rightarrow> mem \<Rightarrow> nat \<Rightarrow> nat list \<Rightarrow> nat" where
  "nvm_scan_flags c m base [] = 0"
| "nvm_scan_flags c m base (off # offs) =
     (let byte_0 = get_base_offset m base off;
          byte_1 = get_base_offset m base (WOLFBOOT_SECTOR_SIZE c + off)
      in if byte_0 = FLASH_BYTE_ERASED \<and> byte_1 \<noteq> FLASH_BYTE_ERASED then 1
         else if byte_0 \<noteq> FLASH_BYTE_ERASED \<and> byte_1 = FLASH_BYTE_ERASED then 0
         else if byte_0 = FLASH_BYTE_ERASED \<and> byte_1 = FLASH_BYTE_ERASED then
           FLAG_CMP (get_base_offset m base (off - 1))
                    (get_base_offset m base ((WOLFBOOT_SECTOR_SIZE c + off) - 1))
         else nvm_scan_flags c m base offs)"

definition nvm_base :: "cfg \<Rightarrow> nat \<Rightarrow> nat" where
  "nvm_base c part = (if part = PART_BOOT then PART_BOOT_ENDFLAGS c else PART_UPDATE_ENDFLAGS c)"

definition nvm_addrErase :: "cfg \<Rightarrow> nat \<Rightarrow> nat" where
  "nvm_addrErase c part =
     (if part = PART_BOOT \<or> FLAGS_HOME c then WOLFBOOT_PARTITION_BOOT_ADDRESS c
      else WOLFBOOT_PARTITION_UPDATE_ADDRESS c)
     + WOLFBOOT_PARTITION_SIZE c - WOLFBOOT_SECTOR_SIZE c"

definition nvm_sel :: "cfg \<Rightarrow> mem \<Rightarrow> nat \<Rightarrow> nat" where
  "nvm_sel c m base =
     (let word_0 = le32_at m (base - 4);
          word_1 = le32_at m (base - (WOLFBOOT_SECTOR_SIZE c + 4))
      in if word_0 = WOLFBOOT_MAGIC_TRAIL \<and> word_1 \<noteq> WOLFBOOT_MAGIC_TRAIL then 0
         else if word_0 \<noteq> WOLFBOOT_MAGIC_TRAIL \<and> word_1 = WOLFBOOT_MAGIC_TRAIL then 1
         else if word_0 \<noteq> WOLFBOOT_MAGIC_TRAIL \<and> word_1 \<noteq> WOLFBOOT_MAGIC_TRAIL then 0
         else nvm_scan_flags c m base [4..<WOLFBOOT_SECTOR_SIZE c])"

text \<open>\<open>!sel\<close> for the selector, which is 0 or 1.\<close>

definition flip :: "nat \<Rightarrow> nat" where
  "flip n = (if n = 0 then 1 else 0)"

definition nvm_select_fresh_sector :: "cfg \<Rightarrow> 's hal \<Rightarrow> nat \<Rightarrow> 's \<Rightarrow> nat \<times> 's" where
  "nvm_select_fresh_sector c H part s =
     (let m = flash_mem H s;
          sel = nvm_sel c m (nvm_base c part);
          addrErase = nvm_addrErase c part - WOLFBOOT_SECTOR_SIZE c * flip sel
      in (sel,
          if le32_at m (addrErase + WOLFBOOT_SECTOR_SIZE c - 4) \<noteq> FLASH_WORD_ERASED
          then snd (hal_flash_erase H addrErase (WOLFBOOT_SECTOR_SIZE c) s) else s))"

text \<open>
  The write loop of \<open>trailer_write\<close>: \<open>FLASHBUFFER_SIZE\<close> bytes at a time while the
  writes succeed, over the chunk offsets that remain.
\<close>

fun nvm_write_chunks :: "cfg \<Rightarrow> 's hal \<Rightarrow> nat \<Rightarrow> byte list \<Rightarrow> nat list \<Rightarrow> 's \<Rightarrow> int \<times> 's" where
  "nvm_write_chunks c H addr cache [] s = (0, s)"
| "nvm_write_chunks c H addr cache (off # offs) s =
     (let (ret, s) = hal_flash_write H (addr + off) (take (FLASHBUFFER_SIZE c) (drop off cache)) s
      in if ret = 0 then nvm_write_chunks c H addr cache offs s else (ret, s))"

text \<open>The offsets \<open>0, FLASHBUFFER_SIZE, ...\<close> below \<open>WOLFBOOT_SECTOR_SIZE\<close>.\<close>

definition chunk_offsets :: "cfg \<Rightarrow> nat list" where
  "chunk_offsets c =
     map (\<lambda>i. i * FLASHBUFFER_SIZE c)
       [0..<(WOLFBOOT_SECTOR_SIZE c + FLASHBUFFER_SIZE c - 1) div FLASHBUFFER_SIZE c]"

definition nvm_write_sector :: "cfg \<Rightarrow> 's hal \<Rightarrow> nat \<Rightarrow> byte list \<Rightarrow> 's \<Rightarrow> int \<times> 's" where
  "nvm_write_sector c H addr cache s =
     (if FLASHBUFFER_SIZE c \<noteq> WOLFBOOT_SECTOR_SIZE c then
        nvm_write_chunks c H addr cache
          (chunk_offsets c) s
      else hal_flash_write H addr cache s)"

text \<open>
  \<open>addr & ~(NVM_CACHE_SIZE - 1)\<close> is written as
  \<open>addr - (addr & (NVM_CACHE_SIZE - 1))\<close>, the same number for all operands.
  \<open>NVM_CACHE_SIZE\<close> is \<open>WOLFBOOT_SECTOR_SIZE\<close>.
\<close>

definition trailer_write :: "cfg \<Rightarrow> 's hal \<Rightarrow> nat \<Rightarrow> nat \<Rightarrow> byte \<Rightarrow> 's \<Rightarrow> int \<times> 's" where
  "trailer_write c H part addr val s =
     (if \<not> NVM_FLASH_WRITEONCE c then hal_flash_write H addr [val] s
      else
        (let ss = WOLFBOOT_SECTOR_SIZE c;
             addr_off = addr AND (ss - 1);
             addr_align = addr - addr_off;
             (cached, s) = nvm_select_fresh_sector c H part s;
             addr_read = addr_align - cached * ss;
             cache = (mread (flash_mem H s) addr_read ss)[addr_off := val];
             addr_write = addr_align - flip cached * ss;
             s = snd (hal_flash_erase H addr_write ss s);
             (ret, s) = nvm_write_sector c H addr_write cache s
         in if ret \<noteq> 0 then (ret, s) else hal_flash_erase H addr_read ss s))"

definition partition_magic_write :: "cfg \<Rightarrow> 's hal \<Rightarrow> nat \<Rightarrow> nat \<Rightarrow> 's \<Rightarrow> int \<times> 's" where
  "partition_magic_write c H part addr s =
     (if \<not> NVM_FLASH_WRITEONCE c then hal_flash_write H addr (to_le32 WOLFBOOT_MAGIC_TRAIL) s
      else
        (let ss = WOLFBOOT_SECTOR_SIZE c;
             off = addr mod ss;
             base = addr - off;
             (cached, s) = nvm_select_fresh_sector c H part s;
             addr_read = base - cached * ss;
             addr_write = base - flip cached * ss;
             old = mread (flash_mem H s) addr_read ss;
             cache = take off old @ to_le32 WOLFBOOT_MAGIC_TRAIL @ drop (off + 4) old;
             (ret, s) = hal_flash_write H addr_write cache s
         in if ret \<noteq> 0 then (ret, s) else hal_flash_erase H addr_read ss s))"

subsection \<open>Trailer access\<close>

text \<open>The address of a trailer byte; NULL is 0.\<close>

definition get_trailer_at :: "cfg \<Rightarrow> 's hal \<Rightarrow> nat \<Rightarrow> nat \<Rightarrow> 's \<Rightarrow> nat \<times> 's" where
  "get_trailer_at c H part at s =
     (if part = PART_BOOT \<or> part = PART_UPDATE then
        (let (sel_sec, s) = (if NVM_FLASH_WRITEONCE c then nvm_select_fresh_sector c H part s
                             else (0, s));
             endflags = (if part = PART_BOOT then PART_BOOT_ENDFLAGS c else PART_UPDATE_ENDFLAGS c)
         in (endflags - (WOLFBOOT_SECTOR_SIZE c * sel_sec + (4 + at)), s))
      else (0, s))"

definition set_trailer_at :: "cfg \<Rightarrow> 's hal \<Rightarrow> nat \<Rightarrow> nat \<Rightarrow> byte \<Rightarrow> 's \<Rightarrow> 's" where
  "set_trailer_at c H part at val s =
     (if part = PART_BOOT then
        snd (trailer_write c H part (PART_BOOT_ENDFLAGS c - (4 + at)) val s)
      else if part = PART_UPDATE then
        snd (trailer_write c H part (PART_UPDATE_ENDFLAGS c - (4 + at)) val s)
      else s)"

definition set_partition_magic :: "cfg \<Rightarrow> 's hal \<Rightarrow> nat \<Rightarrow> 's \<Rightarrow> 's" where
  "set_partition_magic c H part s =
     (if part = PART_BOOT then
        snd (partition_magic_write c H part (PART_BOOT_ENDFLAGS c - 4) s)
      else if part = PART_UPDATE then
        snd (partition_magic_write c H part (PART_UPDATE_ENDFLAGS c - 4) s)
      else s)"

definition get_partition_magic :: "cfg \<Rightarrow> 's hal \<Rightarrow> nat \<Rightarrow> 's \<Rightarrow> nat \<times> 's" where
  "get_partition_magic c H part s = get_trailer_at c H part 0 s"

definition get_partition_state :: "cfg \<Rightarrow> 's hal \<Rightarrow> nat \<Rightarrow> 's \<Rightarrow> nat \<times> 's" where
  "get_partition_state c H part s = get_trailer_at c H part 1 s"

definition set_partition_state :: "cfg \<Rightarrow> 's hal \<Rightarrow> nat \<Rightarrow> byte \<Rightarrow> 's \<Rightarrow> 's" where
  "set_partition_state c H part val s = set_trailer_at c H part 1 val s"

definition set_update_sector_flags :: "cfg \<Rightarrow> 's hal \<Rightarrow> nat \<Rightarrow> byte \<Rightarrow> 's \<Rightarrow> 's" where
  "set_update_sector_flags c H pos val s = set_trailer_at c H PART_UPDATE (2 + pos) val s"

definition get_update_sector_flags :: "cfg \<Rightarrow> 's hal \<Rightarrow> nat \<Rightarrow> 's \<Rightarrow> nat \<times> 's" where
  "get_update_sector_flags c H pos s = get_trailer_at c H PART_UPDATE (2 + pos) s"

subsection \<open>The public operations\<close>

definition wolfBoot_set_partition_state :: "cfg \<Rightarrow> 's hal \<Rightarrow> nat \<Rightarrow> byte \<Rightarrow> 's \<Rightarrow> int \<times> 's" where
  "wolfBoot_set_partition_state c H part newst s =
     (if part = PART_NONE then (-1, s)
      else
        (let (magic, s) = get_partition_magic c H part s;
             s = (if le32_at (flash_mem H s) magic \<noteq> WOLFBOOT_MAGIC_TRAIL
                  then set_partition_magic c H part s else s);
             (state, s) = get_partition_state c H part s;
             s = (if flash_mem H s state \<noteq> newst then set_partition_state c H part newst s else s)
         in (0, s)))"

text \<open>The sector number is a \<open>uint16_t\<close>: the argument is converted.\<close>

definition wolfBoot_set_update_sector_flag :: "cfg \<Rightarrow> 's hal \<Rightarrow> nat \<Rightarrow> byte \<Rightarrow> 's \<Rightarrow> int \<times> 's" where
  "wolfBoot_set_update_sector_flag c H sector newflag s =
     (let sector = u16 sector;
          pos = sector div 2;
          (magic, s) = get_partition_magic c H PART_UPDATE s;
          s = (if le32_at (flash_mem H s) magic \<noteq> WOLFBOOT_MAGIC_TRAIL
               then set_partition_magic c H PART_UPDATE s else s);
          (flags, s) = get_update_sector_flags c H pos s;
          old = flash_mem H s flags;
          fl_value = (if sector = pos * 2
                      then (old AND 0xF0) OR (newflag AND 0x0F)
                      else push_bit 4 (newflag AND 0x0F) OR (old AND 0x0F));
          s = (if fl_value \<noteq> old then set_update_sector_flags c H pos fl_value s else s)
      in (0, s))"

text \<open>
  The getters return \<open>-1\<close> and leave the output argument alone (here \<open>None\<close>), or
  return 0 and store the value (here \<open>Some\<close>).
\<close>

definition wolfBoot_get_partition_state :: "cfg \<Rightarrow> 's hal \<Rightarrow> nat \<Rightarrow> 's \<Rightarrow> byte option \<times> 's" where
  "wolfBoot_get_partition_state c H part s =
     (if part = PART_NONE then (None, s)
      else
        (let (magic, s) = get_partition_magic c H part s
         in if le32_at (flash_mem H s) magic \<noteq> WOLFBOOT_MAGIC_TRAIL then (None, s)
            else (let (state, s) = get_partition_state c H part s
                  in (Some (flash_mem H s state), s))))"

definition wolfBoot_get_update_sector_flag :: "cfg \<Rightarrow> 's hal \<Rightarrow> nat \<Rightarrow> 's \<Rightarrow> byte option \<times> 's" where
  "wolfBoot_get_update_sector_flag c H sector s =
     (let sector = u16 sector;
          pos = sector div 2;
          (magic, s) = get_partition_magic c H PART_UPDATE s
      in if le32_at (flash_mem H s) magic \<noteq> WOLFBOOT_MAGIC_TRAIL then (None, s)
         else
           (let (flags, s) = get_update_sector_flags c H pos s;
                v = flash_mem H s flags
            in (Some (if sector = pos * 2 then v AND 0x0F else drop_bit 4 (v AND 0xF0)), s)))"

definition wolfBoot_erase_partition :: "cfg \<Rightarrow> 's hal \<Rightarrow> nat \<Rightarrow> 's \<Rightarrow> 's" where
  "wolfBoot_erase_partition c H part s =
     (let (address, size) =
            (if part = PART_BOOT
             then (WOLFBOOT_PARTITION_BOOT_ADDRESS c, WOLFBOOT_PARTITION_SIZE c)
             else if part = PART_UPDATE
             then (WOLFBOOT_PARTITION_UPDATE_ADDRESS c, WOLFBOOT_PARTITION_SIZE c)
             else if part = PART_SWAP
             then (WOLFBOOT_PARTITION_SWAP_ADDRESS c, WOLFBOOT_SECTOR_SIZE c)
             else (0, 0))
      in if 0 < size then
           hal_flash_lock H (snd (hal_flash_erase H address size (hal_flash_unlock H s)))
         else s)"

definition wolfBoot_update_trigger :: "cfg \<Rightarrow> 's hal \<Rightarrow> 's \<Rightarrow> 's" where
  "wolfBoot_update_trigger c H s =
     (let ss = WOLFBOOT_SECTOR_SIZE c;
          lastSector = ((PART_UPDATE_ENDFLAGS c - 1) div ss) * ss;
          s = hal_flash_unlock H s
      in if \<not> NVM_FLASH_WRITEONCE c then
           (let s = snd (hal_flash_erase H lastSector ss s);
                s = snd (wolfBoot_set_partition_state c H PART_UPDATE IMG_STATE_UPDATING s)
            in hal_flash_lock H s)
         else
           (let offset = SECTOR_FLAGS_SIZE c
                  - (if FLAGS_HOME c then PART_BOOT_ENDFLAGS c - PART_UPDATE_ENDFLAGS c else 0);
                (selSec, s) = nvm_select_fresh_sector c H PART_UPDATE s;
                cache = mread (flash_mem H s) (lastSector - ss * selSec) ss;
                s = snd (hal_flash_erase H (lastSector - ss * flip selSec) ss s);
                cache = cache[offset := IMG_STATE_UPDATING];
                cache = take (offset + 1) cache @ to_le32 WOLFBOOT_MAGIC_TRAIL
                          @ drop (offset + 1 + 4) cache;
                s = snd (hal_flash_write H (lastSector - ss * flip selSec) cache s);
                s = snd (hal_flash_erase H (lastSector - ss * selSec) ss s)
            in hal_flash_lock H s))"

definition wolfBoot_success :: "cfg \<Rightarrow> 's hal \<Rightarrow> 's \<Rightarrow> 's" where
  "wolfBoot_success c H s =
     hal_flash_lock H
       (snd (wolfBoot_set_partition_state c H PART_BOOT IMG_STATE_SUCCESS (hal_flash_unlock H s)))"

subsection \<open>What the trailer holds\<close>

text \<open>
  The abstraction of the trailer kept in place: the state of a partition and the flag of
  a sector, read from a memory.
\<close>

definition trailer_addr :: "cfg \<Rightarrow> nat \<Rightarrow> nat \<Rightarrow> nat" where
  "trailer_addr c part at =
     (if part = PART_BOOT then PART_BOOT_ENDFLAGS c else PART_UPDATE_ENDFLAGS c) - (4 + at)"

definition has_magic :: "cfg \<Rightarrow> nat \<Rightarrow> mem \<Rightarrow> bool" where
  "has_magic c part m \<longleftrightarrow> le32_at m (trailer_addr c part 0) = WOLFBOOT_MAGIC_TRAIL"

definition part_state :: "cfg \<Rightarrow> nat \<Rightarrow> mem \<Rightarrow> byte option" where
  "part_state c part m = (if has_magic c part m then Some (m (trailer_addr c part 1)) else None)"

definition nibble_of :: "nat \<Rightarrow> byte \<Rightarrow> byte" where
  "nibble_of sector v = (if even sector then v AND 0x0F else drop_bit 4 (v AND 0xF0))"

definition sector_flag :: "cfg \<Rightarrow> nat \<Rightarrow> mem \<Rightarrow> byte option" where
  "sector_flag c sector m =
     (if has_magic c PART_UPDATE m
      then Some (nibble_of sector (m (trailer_addr c PART_UPDATE (2 + sector div 2)))) else None)"

definition set_nibble :: "nat \<Rightarrow> byte \<Rightarrow> byte \<Rightarrow> byte" where
  "set_nibble sector v old =
     (if even sector then (old AND 0xF0) OR (v AND 0x0F)
      else push_bit 4 (v AND 0x0F) OR (old AND 0x0F))"

lemma nibble_of_program:
  "nibble_of sector (old AND set_nibble sector v old) = nibble_of sector old AND v AND 0x0F"
  unfolding nibble_of_def set_nibble_def
  by (cases "even sector"; simp only: if_True if_False;
      rule bit_word_eqI; simp only: bit_nibble_iff; auto)

lemma nibble_of_program_other:
  "even sector \<noteq> even sector' \<Longrightarrow>
     nibble_of sector' (old AND set_nibble sector v old) = nibble_of sector' old"
  unfolding nibble_of_def set_nibble_def
  by (cases "even sector"; simp only: if_True if_False simp_thms;
      rule bit_word_eqI; simp only: bit_nibble_iff; auto)

lemma even_div_2: "n = n div 2 * 2 \<longleftrightarrow> even n" for n :: nat
  by (metis dvd_div_mult_self dvd_triv_right)

text \<open>The memory after a state or a flag has been set, for a trailer programmed in place.\<close>

definition set_magic_mem :: "cfg \<Rightarrow> nat \<Rightarrow> mem \<Rightarrow> mem" where
  "set_magic_mem c part m = mprog m (trailer_addr c part 0) (to_le32 WOLFBOOT_MAGIC_TRAIL)"

definition set_state_mem :: "cfg \<Rightarrow> nat \<Rightarrow> byte \<Rightarrow> mem \<Rightarrow> mem" where
  "set_state_mem c part v m = mprog (set_magic_mem c part m) (trailer_addr c part 1) [v]"

definition set_flag_mem :: "cfg \<Rightarrow> nat \<Rightarrow> byte \<Rightarrow> mem \<Rightarrow> mem" where
  "set_flag_mem c sector v m =
     (let a = trailer_addr c PART_UPDATE (2 + sector div 2); m1 = set_magic_mem c PART_UPDATE m
      in mprog m1 a [set_nibble sector v (m1 a)])"

text \<open>Writing the magic may have been cut short.\<close>

definition magic_torn :: "cfg \<Rightarrow> nat \<Rightarrow> mem \<Rightarrow> mem \<Rightarrow> bool" where
  "magic_torn c part m m' \<longleftrightarrow>
     (\<exists>k\<le>4. m' = mprog m (trailer_addr c part 0) (take k (to_le32 WOLFBOOT_MAGIC_TRAIL)))"

lemma magic_torn_full: "magic_torn c part m (set_magic_mem c part m)"
  unfolding magic_torn_def set_magic_mem_def by (rule exI [of _ 4]) simp

lemma magic_trail_bytes:
  "le32_at m a = WOLFBOOT_MAGIC_TRAIL \<longleftrightarrow> mread m a 4 = to_le32 WOLFBOOT_MAGIC_TRAIL"
  by (simp add: le32_at_def le32_eq_iff WOLFBOOT_MAGIC_TRAIL_def)

lemma set_magic_mem_id: "has_magic c part m \<Longrightarrow> set_magic_mem c part m = m"
  by (simp add: has_magic_def magic_trail_bytes set_magic_mem_def mprog_id)

lemma get_trailer_at_nor:
  "\<not> NVM_FLASH_WRITEONCE c \<Longrightarrow> part = PART_BOOT \<or> part = PART_UPDATE \<Longrightarrow>
    get_trailer_at c H part at s = (trailer_addr c part at, s)"
  by (auto simp: get_trailer_at_def trailer_addr_def)

lemma set_trailer_at_nor:
  "\<not> NVM_FLASH_WRITEONCE c \<Longrightarrow> part = PART_BOOT \<or> part = PART_UPDATE \<Longrightarrow>
    set_trailer_at c H part at v s = snd (hal_flash_write H (trailer_addr c part at) [v] s)"
  by (auto simp: set_trailer_at_def trailer_addr_def trailer_write_def)

lemma set_partition_magic_nor:
  "\<not> NVM_FLASH_WRITEONCE c \<Longrightarrow> part = PART_BOOT \<or> part = PART_UPDATE \<Longrightarrow>
    set_partition_magic c H part s =
      snd (hal_flash_write H (trailer_addr c part 0) (to_le32 WOLFBOOT_MAGIC_TRAIL) s)"
  by (auto simp: set_partition_magic_def trailer_addr_def partition_magic_write_def)

lemmas trailer_nor = get_trailer_at_nor set_trailer_at_nor set_partition_magic_nor
  get_partition_magic_def get_partition_state_def set_partition_state_def
  get_update_sector_flags_def set_update_sector_flags_def

lemma get_state_nor:
  "\<not> NVM_FLASH_WRITEONCE c \<Longrightarrow> part = PART_BOOT \<or> part = PART_UPDATE \<Longrightarrow>
    wolfBoot_get_partition_state c H part s = (part_state c part (flash_mem H s), s)"
  by (auto simp: wolfBoot_get_partition_state_def trailer_nor part_state_def has_magic_def)

lemma get_flag_nor:
  "\<not> NVM_FLASH_WRITEONCE c \<Longrightarrow> sector < 65536 \<Longrightarrow>
    wolfBoot_get_update_sector_flag c H sector s = (sector_flag c sector (flash_mem H s), s)"
  by (auto simp: wolfBoot_get_update_sector_flag_def trailer_nor sector_flag_def has_magic_def
      nibble_of_def u16_def Let_def even_div_2)

context flash_hal
begin

text \<open>A byte or the magic is only programmed when it is not there already.\<close>

definition program_new :: "nat \<Rightarrow> byte list \<Rightarrow> 's \<Rightarrow> 's" where
  "program_new a d s =
     (if mread (flash_mem H s) a (length d) \<noteq> d then snd (hal_flash_write H a d s) else s)"

lemma program_new_outcome:
  assumes "alive s" "unlocked s"
  shows "outcome (mprog (flash_mem H s) a d)
           (\<lambda>m. \<exists>k\<le>length d. m = mprog (flash_mem H s) a (take k d)) (program_new a d s)"
  using assms write_outcome [OF assms]
  by (auto simp: program_new_def mprog_id intro!: outcome_refl)

lemma frozen_program_new: "frozen (program_new a d)"
  unfolding program_new_def by (intro frozen_if frozen_hal)

lemma set_state_eq:
  assumes "\<not> NVM_FLASH_WRITEONCE c" "part = PART_BOOT \<or> part = PART_UPDATE"
  shows "snd (wolfBoot_set_partition_state c H part v s) =
    program_new (trailer_addr c part 1) [v]
      (program_new (trailer_addr c part 0) (to_le32 WOLFBOOT_MAGIC_TRAIL) s)"
  using assms
  by (auto simp: wolfBoot_set_partition_state_def trailer_nor Let_def magic_trail_bytes mread_Suc
      program_new_def)

lemma frozen_set_state:
  assumes "\<not> NVM_FLASH_WRITEONCE c" "part = PART_BOOT \<or> part = PART_UPDATE"
  shows "frozen (\<lambda>s. snd (wolfBoot_set_partition_state c H part v s))"
  unfolding set_state_eq [OF assms] 
  by (rule frozen_comp [OF frozen_program_new frozen_program_new])

lemma set_magic_outcome:
  "alive s \<Longrightarrow> unlocked s \<Longrightarrow>
   outcome (set_magic_mem c part (flash_mem H s)) (magic_torn c part (flash_mem H s))
     (program_new (trailer_addr c part 0) (to_le32 WOLFBOOT_MAGIC_TRAIL) s)"
  using program_new_outcome [of s "trailer_addr c part 0" "to_le32 WOLFBOOT_MAGIC_TRAIL"]
  by (simp add: set_magic_mem_def magic_torn_def [abs_def])

lemma program_byte_outcome:
  assumes "alive s" "unlocked s" "flash_mem H s = m" "P m" "P (mprog m a [v])"
  shows "outcome (mprog m a [v]) P (program_new a [v] s)"
  using program_new_outcome [OF assms(1,2), of a "[v]"] unfolding assms(3)
  by (rule outcome_mono) (use assms in \<open>auto simp: le_Suc_eq\<close>)

lemma set_state_outcome:
  assumes "\<not> NVM_FLASH_WRITEONCE c" "part = PART_BOOT \<or> part = PART_UPDATE"
    and "alive s" "unlocked s"
  shows "outcome (set_state_mem c part v (flash_mem H s))
    (\<lambda>m. magic_torn c part (flash_mem H s) m \<or> m = set_state_mem c part v (flash_mem H s))
    (snd (wolfBoot_set_partition_state c H part v s))"
  unfolding set_state_eq [OF assms(1,2)]
  by (rule outcome_bind [OF set_magic_outcome [OF assms(3,4)] frozen_program_new])
    (simp_all add: set_state_mem_def magic_torn_full program_byte_outcome)

lemma set_flag_eq:
  assumes "\<not> NVM_FLASH_WRITEONCE c" "sector < 65536"
  shows "snd (wolfBoot_set_update_sector_flag c H sector v s) =
    (\<lambda>s. let a = trailer_addr c PART_UPDATE (2 + sector div 2)
         in program_new a [set_nibble sector v (flash_mem H s a)] s)
      (program_new (trailer_addr c PART_UPDATE 0) (to_le32 WOLFBOOT_MAGIC_TRAIL) s)"
  using assms
  by (simp add: wolfBoot_set_update_sector_flag_def trailer_nor Let_def magic_trail_bytes mread_Suc
      program_new_def set_nibble_def u16_def even_div_2)

lemma frozen_program_flag:
  "frozen (\<lambda>s. program_new a [set_nibble sector v (flash_mem H s a)] s)"
  using frozen_program_new by (simp add: frozen_def)

lemma frozen_set_flag:
  assumes "\<not> NVM_FLASH_WRITEONCE c" "sector < 65536"
  shows "frozen (\<lambda>s. snd (wolfBoot_set_update_sector_flag c H sector v s))"
  unfolding set_flag_eq [OF assms] Let_def 
  by (rule frozen_comp [OF frozen_program_new frozen_program_flag])

lemma set_flag_outcome:
  assumes "\<not> NVM_FLASH_WRITEONCE c" "sector < 65536" "alive s" "unlocked s"
  shows "outcome (set_flag_mem c sector v (flash_mem H s))
    (\<lambda>m. magic_torn c PART_UPDATE (flash_mem H s) m \<or> m = set_flag_mem c sector v (flash_mem H s))
    (snd (wolfBoot_set_update_sector_flag c H sector v s))"
  unfolding set_flag_eq [OF assms(1,2)] Let_def
  by (rule outcome_bind [OF set_magic_outcome [OF assms(3,4)] frozen_program_flag])
    (simp_all add: set_flag_mem_def Let_def magic_torn_full program_byte_outcome)

end

subsection \<open>The trailer as a store of states and flags\<close>

lemma endflags_room:
  assumes "cfg_ok c"
  shows "4 * WOLFBOOT_SECTOR_SIZE c \<le> PART_BOOT_ENDFLAGS c"
    "4 * WOLFBOOT_SECTOR_SIZE c \<le> PART_UPDATE_ENDFLAGS c + 8"
  using cfg_okD [OF assms] by (auto simp: PART_BOOT_ENDFLAGS_def PART_UPDATE_ENDFLAGS_def)

text \<open>Consecutive trailer bytes are at consecutive addresses, growing downwards.\<close>

lemma trailer_addr_add:
  assumes "cfg_ok c" "at \<le> 2 * WOLFBOOT_SECTOR_SIZE c"
  shows "trailer_addr c part at + at = trailer_addr c part 0"
    "trailer_addr c part 0 + 4 =
       (if part = PART_BOOT then PART_BOOT_ENDFLAGS c else PART_UPDATE_ENDFLAGS c)"
  using endflags_room [OF assms(1)] cfg_okD(6) [OF assms(1)] assms(2)
  by (auto simp: trailer_addr_def)

lemma trailer_addr_1: "cfg_ok c \<Longrightarrow> trailer_addr c part 1 + 1 = trailer_addr c part 0"
  using trailer_addr_add(1) [of c 1 part] cfg_okD(6) [of c] by simp

text \<open>The magic can be programmed over what is there: it is there, erased or cut short.\<close>

definition magic_ready :: "cfg \<Rightarrow> nat \<Rightarrow> mem \<Rightarrow> bool" where
  "magic_ready c part m \<longleftrightarrow>
     (\<forall>i<4. m (trailer_addr c part 0 + i) AND to_le32 WOLFBOOT_MAGIC_TRAIL ! i
            = to_le32 WOLFBOOT_MAGIC_TRAIL ! i)"

lemma has_magic_set: "magic_ready c part m \<Longrightarrow> has_magic c part (set_magic_mem c part m)"
  unfolding has_magic_def magic_trail_bytes magic_ready_def set_magic_mem_def
  by (rule nth_equalityI) (auto simp: mem_simps)

lemma magic_ready_if:
  "has_magic c part m \<Longrightarrow> magic_ready c part m"
  "(\<And>i. i < 4 \<Longrightarrow> m (trailer_addr c part 0 + i) = 255) \<Longrightarrow> magic_ready c part m"
  unfolding has_magic_def magic_trail_bytes magic_ready_def
  by (metis and.idem length_to_le32 mread_nth, simp)

lemma part_state_set_state:
  assumes "cfg_ok c" "magic_ready c part m"
  shows "part_state c part (set_state_mem c part v m) = Some (m (trailer_addr c part 1) AND v)"
proof -
  note a = trailer_addr_add [OF assms(1), of 1 part]
  have ss: "16 \<le> WOLFBOOT_SECTOR_SIZE c"
    by (rule cfg_okD [OF assms(1)])
  have "le32_at (set_state_mem c part v m) (trailer_addr c part 0)
      = le32_at (set_magic_mem c part m) (trailer_addr c part 0)"
    using a(1) ss by (intro le32_at_cong) (auto simp: set_state_mem_def mem_simps)
  with has_magic_set [OF assms(2)] have "has_magic c part (set_state_mem c part v m)"
    by (simp add: has_magic_def)
  then show ?thesis
    using a(1) ss by (simp add: part_state_def set_state_mem_def set_magic_mem_def mem_simps)
qed

lemma set_state_frame:
  assumes "cfg_ok c"
  shows "same_outside (trailer_addr c part 1) 5 m (set_state_mem c part v m)"
  using trailer_addr_add(1) [OF assms, of 1 part] cfg_okD(6) [OF assms]
  by (auto simp: same_outside_def set_state_mem_def set_magic_mem_def mem_simps)

lemma set_flag_frame:
  assumes "cfg_ok c" "sector < WOLFBOOT_PARTITION_SIZE c div WOLFBOOT_SECTOR_SIZE c"
  shows "same_outside (trailer_addr c PART_UPDATE (2 + sector div 2)) (6 + sector div 2) m
           (set_flag_mem c sector v m)"
proof -
  have "2 + sector div 2 \<le> 2 * WOLFBOOT_SECTOR_SIZE c"
    using assms(2) cfg_okD(5) [OF assms(1)] by linarith
  from trailer_addr_add(1) [OF assms(1) this, of PART_UPDATE] show ?thesis
    by (auto simp: same_outside_def set_flag_mem_def set_magic_mem_def mem_simps Let_def)
qed

definition n_sectors :: "cfg \<Rightarrow> nat" where
  "n_sectors c = WOLFBOOT_PARTITION_SIZE c div WOLFBOOT_SECTOR_SIZE c"

lemma flag_pos_bound:
  "cfg_ok c \<Longrightarrow> sector < n_sectors c \<Longrightarrow> 2 + sector div 2 + 12 \<le> WOLFBOOT_SECTOR_SIZE c"
  using cfg_okD(5) [of c] by (simp add: n_sectors_def)

lemma trailer_addr_flag:
  assumes "cfg_ok c" "sector < n_sectors c"
  shows "trailer_addr c PART_UPDATE (2 + sector div 2) + (2 + sector div 2) = trailer_addr c PART_UPDATE 0"
  by (rule trailer_addr_add [OF assms(1)]) (use flag_pos_bound [OF assms] in simp)

lemma has_magic_set_flag:
  assumes "cfg_ok c" "sector < n_sectors c" "magic_ready c PART_UPDATE m"
  shows "has_magic c PART_UPDATE (set_flag_mem c sector v m)"
proof -
  have "le32_at (set_flag_mem c sector v m) (trailer_addr c PART_UPDATE 0)
      = le32_at (set_magic_mem c PART_UPDATE m) (trailer_addr c PART_UPDATE 0)"
    using trailer_addr_flag [OF assms(1,2)]
    by (intro le32_at_cong) (auto simp: set_flag_mem_def mem_simps Let_def)
  with has_magic_set [OF assms(3)] show ?thesis
    by (simp add: has_magic_def)
qed

lemma set_magic_below: "x < trailer_addr c part 0 \<Longrightarrow> set_magic_mem c part m x = m x"
  by (simp add: set_magic_mem_def mem_simps)

lemma sector_flag_set_flag:
  assumes "cfg_ok c" "sector < n_sectors c" "magic_ready c PART_UPDATE m"
  shows "sector_flag c sector (set_flag_mem c sector v m) =
    Some (nibble_of sector (m (trailer_addr c PART_UPDATE (2 + sector div 2))) AND v AND 0x0F)"
proof -
  let ?a = "trailer_addr c PART_UPDATE (2 + sector div 2)"
  have "?a < trailer_addr c PART_UPDATE 0"
    using trailer_addr_flag [OF assms(1,2)] by linarith
  then have "set_flag_mem c sector v m ?a = m ?a AND set_nibble sector v (m ?a)"
    by (simp only: set_flag_mem_def Let_def set_magic_below mprog_apply list.size) simp
  then show ?thesis
    by (simp only: sector_flag_def has_magic_set_flag [OF assms] if_True nibble_of_program)
qed

lemma sector_flag_set_other:
  assumes "cfg_ok c" "sector < n_sectors c" "sector' < n_sectors c" "sector' \<noteq> sector"
    and "has_magic c PART_UPDATE m"
  shows "sector_flag c sector' (set_flag_mem c sector v m) = sector_flag c sector' m"
proof -
  let ?a = "trailer_addr c PART_UPDATE (2 + sector div 2)"
  let ?b = "trailer_addr c PART_UPDATE (2 + sector' div 2)"
  note e = trailer_addr_flag [OF assms(1,2)] trailer_addr_flag [OF assms(1,3)]
  have m: "set_magic_mem c PART_UPDATE m = m"
    by (rule set_magic_mem_id [OF assms(5)])
  have "nibble_of sector' (set_flag_mem c sector v m ?b) = nibble_of sector' (m ?b)"
  proof (cases "sector' div 2 = sector div 2")
    case True
    then have "even sector \<noteq> even sector'"
      using assms(4) by (metis even_two_times_div_two odd_two_times_div_two_succ)
    with True show ?thesis
      by (simp add: set_flag_mem_def Let_def m mem_simps nibble_of_program_other)
  next
    case False
    with e have "?b \<noteq> ?a"
      by auto
    then show ?thesis
      by (simp only: set_flag_mem_def Let_def m mprog_single if_False)
  qed
  moreover have "has_magic c PART_UPDATE (set_flag_mem c sector v m)"
    by (rule has_magic_set_flag [OF assms(1,2) magic_ready_if(1) [OF assms(5)]])
  ultimately show ?thesis
    using assms(5) by (simp only: sector_flag_def if_True)
qed

text \<open>A state does not depend on the flags, nor on the trailer of the other partition.\<close>

lemma part_state_cong:
  assumes "cfg_ok c" "\<And>x. trailer_addr c part 1 \<le> x \<Longrightarrow> x < trailer_addr c part 0 + 4 \<Longrightarrow> m' x = m x"
  shows "part_state c part m' = part_state c part m"
proof -
  note e = trailer_addr_1 [OF assms(1), of part]
  then have "le32_at m' (trailer_addr c part 0) = le32_at m (trailer_addr c part 0)"
    by (intro le32_at_cong assms(2)) auto
  moreover have "m' (trailer_addr c part 1) = m (trailer_addr c part 1)"
    using e by (intro assms(2)) auto
  ultimately show ?thesis
    by (simp only: part_state_def has_magic_def)
qed

lemma sector_flag_cong:
  assumes "cfg_ok c" "sector < n_sectors c"
    and "\<And>x. trailer_addr c PART_UPDATE (2 + sector div 2) \<le> x \<Longrightarrow> x < trailer_addr c PART_UPDATE 0 + 4 \<Longrightarrow>
           x \<noteq> trailer_addr c PART_UPDATE 1 \<Longrightarrow> m' x = m x"
  shows "sector_flag c sector m' = sector_flag c sector m"
proof -
  note e = trailer_addr_flag [OF assms(1,2)]
  note e1 = trailer_addr_1 [OF assms(1), of PART_UPDATE]
  have "le32_at m' (trailer_addr c PART_UPDATE 0) = le32_at m (trailer_addr c PART_UPDATE 0)"
    using e e1 by (intro le32_at_cong assms(3)) auto
  moreover have "m' (trailer_addr c PART_UPDATE (2 + sector div 2)) = m (trailer_addr c PART_UPDATE (2 + sector div 2))"
    using e e1 by (intro assms(3)) auto
  ultimately show ?thesis
    by (simp only: sector_flag_def has_magic_def)
qed

lemma trailers_disjoint:
  assumes "cfg_ok c" "at + 12 \<le> WOLFBOOT_SECTOR_SIZE c"
  shows "trailer_addr c PART_UPDATE 0 + 4 \<le> trailer_addr c PART_BOOT 1
       \<or> trailer_addr c PART_BOOT 0 + 4 \<le> trailer_addr c PART_UPDATE at"
  using cfg_okD [OF assms(1)] cfg_ok_disjoint [OF assms(1)] assms(2)
  by (auto simp: trailer_addr_def PART_BOOT_ENDFLAGS_def PART_UPDATE_ENDFLAGS_def)

lemma part_state_set_other:
  assumes "cfg_ok c" "part = PART_BOOT \<and> part' = PART_UPDATE \<or> part = PART_UPDATE \<and> part' = PART_BOOT"
  shows "part_state c part' (set_state_mem c part v m) = part_state c part' m"
proof (rule part_state_cong [OF assms(1)])
  fix x
  assume "trailer_addr c part' 1 \<le> x" "x < trailer_addr c part' 0 + 4"
  moreover note trailer_addr_1 [OF assms(1), of part] trailer_addr_1 [OF assms(1), of part']
  moreover have "trailer_addr c PART_UPDATE 0 + 4 \<le> trailer_addr c PART_BOOT 1
       \<or> trailer_addr c PART_BOOT 0 + 4 \<le> trailer_addr c PART_UPDATE 1"
    by (rule trailers_disjoint [OF assms(1)]) (use cfg_okD(6) [OF assms(1)] in simp)
  ultimately show "set_state_mem c part v m x = m x"
    using assms(2) set_state_frame [OF assms(1), of part m v]
    by (auto simp: same_outside_def)
qed

lemma sector_flag_set_state:
  assumes "cfg_ok c" "sector < n_sectors c" "part = PART_BOOT \<or> part = PART_UPDATE \<and> has_magic c PART_UPDATE m"
  shows "sector_flag c sector (set_state_mem c part v m) = sector_flag c sector m"
proof (rule sector_flag_cong [OF assms(1,2)])
  fix x
  assume x: "trailer_addr c PART_UPDATE (2 + sector div 2) \<le> x" "x < trailer_addr c PART_UPDATE 0 + 4"
    "x \<noteq> trailer_addr c PART_UPDATE 1"
  have d: "trailer_addr c PART_UPDATE 0 + 4 \<le> trailer_addr c PART_BOOT 1
       \<or> trailer_addr c PART_BOOT 0 + 4 \<le> trailer_addr c PART_UPDATE (2 + sector div 2)"
    by (rule trailers_disjoint [OF assms(1)]) (use flag_pos_bound [OF assms(1,2)] in simp)
  note e = trailer_addr_1 [OF assms(1), of PART_BOOT]
  from assms(3) show "set_state_mem c part v m x = m x"
  proof
    assume "part = PART_BOOT"
    with x d e set_state_frame [OF assms(1), of PART_BOOT m v] show ?thesis
      by (auto simp: same_outside_def)
  next
    assume "part = PART_UPDATE \<and> has_magic c PART_UPDATE m"
    with x show ?thesis
      by (simp add: set_state_mem_def set_magic_mem_id mprog_single)
  qed
qed

lemma part_state_set_flag:
  assumes "cfg_ok c" "sector < n_sectors c" "has_magic c PART_UPDATE m"
  shows "part_state c PART_UPDATE (set_flag_mem c sector v m) = part_state c PART_UPDATE m"
proof (rule part_state_cong [OF assms(1)])
  fix x
  assume "trailer_addr c PART_UPDATE 1 \<le> x"
  moreover note trailer_addr_1 [OF assms(1), of PART_UPDATE]
  ultimately show "set_flag_mem c sector v m x = m x"
    using trailer_addr_flag [OF assms(1,2)] set_magic_mem_id [OF assms(3)]
    by (auto simp: set_flag_mem_def Let_def mprog_single)
qed

lemma last_sector_eq:
  assumes "cfg_ok c"
  shows "((PART_UPDATE_ENDFLAGS c - 1) div WOLFBOOT_SECTOR_SIZE c) * WOLFBOOT_SECTOR_SIZE c
    = nvm_addrErase c PART_UPDATE"
proof -
  let ?ss = "WOLFBOOT_SECTOR_SIZE c"
  define top where "top = nvm_addrErase c PART_UPDATE + ?ss"
  note d = cfg_okD [OF assms]
  have "top = (if FLAGS_HOME c then WOLFBOOT_PARTITION_BOOT_ADDRESS c
                else WOLFBOOT_PARTITION_UPDATE_ADDRESS c) + WOLFBOOT_PARTITION_SIZE c"
    using d(4) by (simp add: top_def nvm_addrErase_def)
  then have "?ss dvd top" and e: "\<exists>j. 1 \<le> j \<and> j \<le> 9 \<and> PART_UPDATE_ENDFLAGS c - 1 = top - j \<and> j \<le> top"
    using d by (auto simp: PART_UPDATE_ENDFLAGS_def PART_BOOT_ENDFLAGS_def intro: exI [of _ 1] exI [of _ 9])
  then obtain k where k: "top = ?ss * k"
    by (auto elim: dvdE)
  from e obtain j where j: "1 \<le> j" "j \<le> 9" "PART_UPDATE_ENDFLAGS c - 1 = top - j" "j \<le> top"
    by auto
  have "k \<noteq> 0"
    using k j by (cases k) auto
  then obtain k' where k': "k = Suc k'"
    by (cases k) auto
  have "(top - j) div ?ss = k'"
  proof (rule div_nat_eqI)
    show "?ss * k' \<le> top - j" "top - j < ?ss * Suc k'"
      using k k' j d(6) by auto
  qed
  moreover have "nvm_addrErase c PART_UPDATE = ?ss * k'"
    using k k' by (simp add: top_def)
  ultimately show ?thesis
    by (simp only: j(3) mult.commute)
qed

lemma last_sector_has_flags:
  assumes "cfg_ok c"
  shows "at + 12 \<le> WOLFBOOT_SECTOR_SIZE c \<Longrightarrow> nvm_addrErase c PART_UPDATE \<le> trailer_addr c PART_UPDATE at"
    "trailer_addr c PART_UPDATE 0 + 4 \<le> nvm_addrErase c PART_UPDATE + WOLFBOOT_SECTOR_SIZE c"
  using cfg_okD [OF assms]
  by (auto simp: nvm_addrErase_def trailer_addr_def PART_UPDATE_ENDFLAGS_def PART_BOOT_ENDFLAGS_def)


definition trigger_mem :: "cfg \<Rightarrow> mem \<Rightarrow> mem" where
  "trigger_mem c m =
     set_state_mem c PART_UPDATE IMG_STATE_UPDATING
       (mfill m (nvm_addrErase c PART_UPDATE) (WOLFBOOT_SECTOR_SIZE c) 255)"

lemma trigger_mem_state:
  assumes "cfg_ok c"
  shows "part_state c PART_UPDATE (trigger_mem c m) = Some IMG_STATE_UPDATING"
proof -
  let ?m = "mfill m (nvm_addrErase c PART_UPDATE) (WOLFBOOT_SECTOR_SIZE c) 255"
  have b: "nvm_addrErase c PART_UPDATE \<le> trailer_addr c PART_UPDATE 1"
    by (rule last_sector_has_flags [OF assms]) (use cfg_okD(6) [OF assms] in simp)
  note l = trailer_addr_1 [OF assms, of PART_UPDATE] last_sector_has_flags(2) [OF assms]
  have "magic_ready c PART_UPDATE ?m"
    using b l by (intro magic_ready_if) (auto simp: mem_simps)
  moreover have "?m (trailer_addr c PART_UPDATE 1) = 255"
    using b l by (simp add: mem_simps)
  ultimately show ?thesis
    by (simp only: trigger_mem_def part_state_set_state [OF assms] and_max_byte)
qed

lemma trigger_mem_flags:
  assumes "cfg_ok c" "sector < n_sectors c"
  shows "sector_flag c sector (trigger_mem c m) = Some SECT_FLAG_NEW"
proof -
  let ?m = "mfill m (nvm_addrErase c PART_UPDATE) (WOLFBOOT_SECTOR_SIZE c) 255"
  let ?a = "trailer_addr c PART_UPDATE (2 + sector div 2)"
  have "nvm_addrErase c PART_UPDATE \<le> ?a"
    by (rule last_sector_has_flags [OF assms(1)]) (use flag_pos_bound [OF assms] in simp)
  moreover note trailer_addr_flag [OF assms] trailer_addr_1 [OF assms(1), of PART_UPDATE]
    last_sector_has_flags(2) [OF assms(1)]
  ultimately have "trigger_mem c m ?a = 255"
    by (simp add: trigger_mem_def set_state_mem_def set_magic_mem_def mem_simps)
  moreover have "has_magic c PART_UPDATE (trigger_mem c m)"
    using trigger_mem_state [OF assms(1), of m] by (simp add: part_state_def split: if_splits)
  ultimately show ?thesis
    by (simp add: sector_flag_def nibble_of_def SECT_FLAG_NEW_def)
qed

lemma trigger_mem_frame:
  assumes "cfg_ok c"
  shows "same_outside (nvm_addrErase c PART_UPDATE) (WOLFBOOT_SECTOR_SIZE c) m (trigger_mem c m)"
  unfolding trigger_mem_def
proof (rule same_outside_trans [OF same_outside_mfill [OF order_refl]],
       rule same_outside_mono [OF set_state_frame [OF assms]])
  show "nvm_addrErase c PART_UPDATE \<le> trailer_addr c PART_UPDATE 1"
    by (rule last_sector_has_flags [OF assms]) (use cfg_okD(6) [OF assms] in simp)
  show "trailer_addr c PART_UPDATE 1 + 5 \<le> nvm_addrErase c PART_UPDATE + WOLFBOOT_SECTOR_SIZE c"
    using trailer_addr_1 [OF assms, of PART_UPDATE] last_sector_has_flags(2) [OF assms] by simp
qed

context flash_hal
begin

lemma trigger_outcome:
  assumes "cfg_ok c" "\<not> NVM_FLASH_WRITEONCE c" "alive s"
  shows "(alive (wolfBoot_update_trigger c H s)
      \<and> flash_mem H (wolfBoot_update_trigger c H s) = trigger_mem c (flash_mem H s))
    \<or> (dead (wolfBoot_update_trigger c H s)
      \<and> same_outside (nvm_addrErase c PART_UPDATE) (WOLFBOOT_SECTOR_SIZE c) (flash_mem H s)
          (flash_mem H (wolfBoot_update_trigger c H s)))"
proof -
  let ?a = "nvm_addrErase c PART_UPDATE" and ?ss = "WOLFBOOT_SECTOR_SIZE c"
  let ?frame = "same_outside ?a ?ss (flash_mem H s)"
  let ?s1 = "hal_flash_unlock H s"
  have u: "alive ?s1" "unlocked ?s1" "flash_mem H ?s1 = flash_mem H s"
    using unlock_alive [OF assms(3)] unlock_mem by auto
  have run: "outcome (trigger_mem c (flash_mem H s)) ?frame
      (snd (wolfBoot_set_partition_state c H PART_UPDATE IMG_STATE_UPDATING
        (snd (hal_flash_erase H ?a ?ss ?s1))))"
  proof (rule outcome_bind [OF erase_outcome [OF u(1,2)] frozen_set_state])
    fix s2
    assume 2: "alive s2" "unlocked s2" "flash_mem H s2 = mfill (flash_mem H ?s1) ?a ?ss 255"
    have e: "same_outside ?a ?ss (flash_mem H s) (flash_mem H s2)"
      by (simp add: 2 u same_outside_mfill)
    show "outcome (trigger_mem c (flash_mem H s)) ?frame
        (snd (wolfBoot_set_partition_state c H PART_UPDATE IMG_STATE_UPDATING s2))"
    proof (rule outcome_mono [OF set_state_outcome [OF assms(2) _ 2(1,2), of PART_UPDATE IMG_STATE_UPDATING,
            unfolded 2(3) u(3), folded trigger_mem_def]])
      fix m
      assume "magic_torn c PART_UPDATE (mfill (flash_mem H s) ?a ?ss 255) m
          \<or> m = trigger_mem c (flash_mem H s)"
      then show "?frame m"
      proof
        assume "magic_torn c PART_UPDATE (mfill (flash_mem H s) ?a ?ss 255) m"
        moreover have "?a \<le> trailer_addr c PART_UPDATE 0"
          by (rule last_sector_has_flags [OF assms(1)]) (use cfg_okD(6) [OF assms(1)] in simp)
        ultimately show ?thesis
          using last_sector_has_flags(2) [OF assms(1)]
          by (auto simp: magic_torn_def same_outside_def mem_simps)
      qed (simp add: trigger_mem_frame [OF assms(1)])
    qed simp
  qed (use assms u in auto)
  then show ?thesis
    using lock_alive lock_dead lock_mem assms(2)
    by (auto simp: wolfBoot_update_trigger_def Let_def outcome_def
        last_sector_eq [OF assms(1), unfolded One_nat_def])
qed

end

lemma sim_set_state_alive:
  "\<not> NVM_FLASH_WRITEONCE c \<Longrightarrow> sim_alive s \<Longrightarrow>
    sim_alive (snd (wolfBoot_set_partition_state c (sim_hal c) part v s))"
  by (simp add: wolfBoot_set_partition_state_def get_partition_magic_def get_partition_state_def
      get_trailer_at_def set_partition_magic_def partition_magic_write_def set_partition_state_def
      set_trailer_at_def trailer_write_def Let_def)

lemma sim_set_flag_alive:
  "\<not> NVM_FLASH_WRITEONCE c \<Longrightarrow> sim_alive s \<Longrightarrow>
    sim_alive (snd (wolfBoot_set_update_sector_flag c (sim_hal c) sector v s))"
  by (simp add: wolfBoot_set_update_sector_flag_def get_partition_magic_def get_update_sector_flags_def
      get_trailer_at_def set_partition_magic_def partition_magic_write_def set_update_sector_flags_def
      set_trailer_at_def trailer_write_def Let_def)

lemma sim_trigger_alive:
  assumes "cfg_ok c" "\<not> NVM_FLASH_WRITEONCE c" "sim_alive s"
    "nvm_addrErase c PART_UPDATE \<noteq> erasefail_address s + WOLFBOOT_PARTITION_BOOT_ADDRESS c"
  shows "sim_alive (wolfBoot_update_trigger c (sim_hal c) s)"
  using assms
  by (simp add: wolfBoot_update_trigger_def Let_def sim_set_state_alive
      last_sector_eq [OF assms(1), unfolded One_nat_def])

lemma magic_torn_state:
  assumes "cfg_ok c" "magic_torn c part m m'"
  shows "part_state c part m' = part_state c part m
    \<or> part_state c part m' = Some (m (trailer_addr c part 1))"
proof -
  obtain k where k: "k \<le> 4"
    and m': "m' = mprog m (trailer_addr c part 0) (take k (to_le32 WOLFBOOT_MAGIC_TRAIL))"
    using assms(2) by (auto simp: magic_torn_def)
  have b: "m' (trailer_addr c part 1) = m (trailer_addr c part 1)"
    using trailer_addr_1 [OF assms(1), of part] by (simp add: m' mem_simps)
  have "m' = m" if "has_magic c part m"
  proof -
    have "take k (mread m (trailer_addr c part 0) 4) = take k (to_le32 WOLFBOOT_MAGIC_TRAIL)"
      using that by (simp add: has_magic_def magic_trail_bytes)
    then show ?thesis
      unfolding m' using k by (intro mprog_id) (simp add: take_mread)
  qed
  with b show ?thesis
    by (auto simp: part_state_def)
qed

lemma magic_torn_other:
  assumes "cfg_ok c" "part = PART_BOOT \<and> part' = PART_UPDATE \<or> part = PART_UPDATE \<and> part' = PART_BOOT"
    and "magic_torn c part m m'"
  shows "part_state c part' m' = part_state c part' m"
proof (rule part_state_cong [OF assms(1)])
  fix x
  assume "trailer_addr c part' 1 \<le> x" "x < trailer_addr c part' 0 + 4"
  moreover note trailer_addr_1 [OF assms(1), of part] trailer_addr_1 [OF assms(1), of part']
  moreover have "trailer_addr c PART_UPDATE 0 + 4 \<le> trailer_addr c PART_BOOT 1
       \<or> trailer_addr c PART_BOOT 0 + 4 \<le> trailer_addr c PART_UPDATE 1"
    by (rule trailers_disjoint [OF assms(1)]) (use cfg_okD(6) [OF assms(1)] in simp)
  ultimately show "m' x = m x"
    using assms(2,3) by (auto simp: magic_torn_def mem_simps)
qed

lemma magic_torn_frame: "magic_torn c part m m' \<Longrightarrow> same_outside (trailer_addr c part 0) 4 m m'"
  by (auto simp: magic_torn_def intro: same_outside_mprog)

subsection \<open>Properties\<close>

text \<open>The device of the witnesses: blank flash, everything erased.\<close>

definition blank_sim :: sim where
  "blank_sim = \<lparr>sim_mem = (\<lambda>_. 255), flashLocked = False, forceEmergency = False,
     erasefail_address = 0xFFFFFFFF, powered = True\<rparr>"

lemma blank_sim_sel [simp]:
  "sim_mem blank_sim x = 255" "sim_mem blank_sim = (\<lambda>_. 255)" "\<not> flashLocked blank_sim" "\<not> forceEmergency blank_sim"
  "erasefail_address blank_sim = 0xFFFFFFFF" "powered blank_sim" "sim_alive blank_sim" "sim_unlocked blank_sim"
  by (simp_all add: blank_sim_def sim_alive_def sim_unlocked_def)

lemma le32_at_blank [simp]: "le32_at (\<lambda>_. 255) a = 4294967295"
  by (simp add: le32_at_eq)


text \<open>
  C19. Setting the flag of a sector of the UPDATE partition: the flag then read is the new nibble (conjoined with the old one), and the flags of
  the other sectors, which share bytes with it, and the state of the partition are unchanged.
\<close>

theorem set_get_update_sector_flag:
  assumes "cfg_ok c" "\<not> NVM_FLASH_WRITEONCE c" "n_sectors c \<le> 65536"
    and "sim_alive s" "sim_unlocked s"
    and "sector < n_sectors c" "other < n_sectors c" "other \<noteq> sector"
    and "wolfBoot_get_update_sector_flag c (sim_hal c) sector s = (Some old, s)"
    and "wolfBoot_set_update_sector_flag c (sim_hal c) sector newflag s = (ret, s')"
  shows "ret = 0
    \<and> wolfBoot_get_update_sector_flag c (sim_hal c) sector s' = (Some (old AND newflag AND 0x0F), s')
    \<and> fst (wolfBoot_get_update_sector_flag c (sim_hal c) other s')
        = fst (wolfBoot_get_update_sector_flag c (sim_hal c) other s)
    \<and> fst (wolfBoot_get_partition_state c (sim_hal c) PART_UPDATE s')
        = fst (wolfBoot_get_partition_state c (sim_hal c) PART_UPDATE s)"
proof -
  note nor = nor_cfg_id [OF assms(2)]
  have b: "sector < 65536" "other < 65536"
    using assms(3,6,7) by auto
  note get = get_flag_nor [OF assms(2)]
  have magic: "has_magic c PART_UPDATE (sim_mem s)"
    using assms(9) unfolding get [OF b(1)] by (simp add: sector_flag_def split: if_splits)
  from sim_nor.set_flag_outcome [OF assms(2) b(1) assms(4,5), of c newflag]
  have m: "sim_mem s' = set_flag_mem c sector newflag (sim_mem s)"
    unfolding nor assms(10)
    using sim_dev.outcome_alive sim_set_flag_alive [OF assms(2,4), of sector newflag] assms(10)
    by fastforce
  have "ret = 0"
    using assms(10) by (auto simp: wolfBoot_set_update_sector_flag_def Let_def split: prod.splits)
  moreover have "sector_flag c sector (sim_mem s') = Some (old AND newflag AND 0x0F)"
    using assms(9) sector_flag_set_flag [OF assms(1,6) magic_ready_if(1) [OF magic], of newflag]
    unfolding get [OF b(1)] m by (simp add: sector_flag_def magic)
  ultimately show ?thesis
    by (simp add: get_state_nor [OF assms(2)] get b m sector_flag_set_other [OF assms(1,6,7,8) magic]
        part_state_set_flag [OF assms(1,6) magic])
qed

lemma sim_config_sectors [simp]: "n_sectors sim_config = 64"
  by (simp add: n_sectors_def)

text \<open>A device whose UPDATE partition has been triggered.\<close>

definition triggered_sim :: sim where
  "triggered_sim = blank_sim\<lparr>sim_mem := trigger_mem sim_config (\<lambda>_. 255)\<rparr>"

lemma triggered_sim_sel [simp]:
  "sim_alive triggered_sim" "sim_unlocked triggered_sim"
  "sim_mem triggered_sim = trigger_mem sim_config (\<lambda>_. 255)"
  by (simp_all add: triggered_sim_def sim_state_defs)

lemma triggered_sim_flag:
  "sector < 64 \<Longrightarrow> wolfBoot_get_update_sector_flag sim_config (sim_hal sim_config) sector triggered_sim
     = (Some SECT_FLAG_NEW, triggered_sim)"
  by (simp add: get_flag_nor trigger_mem_flags [OF sim_config_ok])

theorem set_get_update_sector_flag_witness:
  "let (ret, s') = wolfBoot_set_update_sector_flag sim_config (sim_hal sim_config) 5 SECT_FLAG_SWAPPING
         triggered_sim
   in fst (wolfBoot_get_update_sector_flag sim_config (sim_hal sim_config) 5 s') = Some SECT_FLAG_SWAPPING
    \<and> fst (wolfBoot_get_update_sector_flag sim_config (sim_hal sim_config) 4 s') = Some SECT_FLAG_NEW"
  using set_get_update_sector_flag [OF sim_config_ok, of triggered_sim 5 4 SECT_FLAG_NEW SECT_FLAG_SWAPPING]
  by (auto simp: triggered_sim_flag sect_flag_defs)







end
