(* ===== verification/Header.thy ===== *)
theory Header
  imports Flash
begin

section \<open>The image header: tags, lookup and version fields (\<open>src/libwolfboot.c\<close>)\<close>

text \<open>
  An image starts with a header of \<open>IMAGE_HEADER_SIZE\<close> bytes: magic, firmware size, then
  fields of the form tag (2 bytes), length (2 bytes), value, with padding bytes
  \<open>0xFF\<close> between them. \<open>wolfBoot_find_header\<close> scans the fields from
  \<open>IMAGE_HEADER_OFFSET\<close> on. Addresses are natural numbers below \<open>UINTPTR_MAX\<close>,
  with 0 for NULL; a memory gives the bytes. The getters read version, type and delta base
  of an image or of the image in a partition (internal flash, little-endian target).
\<close>

subsection \<open>Tags\<close>

definition HDR_VERSION :: nat where "HDR_VERSION = 0x01"
definition HDR_TIMESTAMP :: nat where "HDR_TIMESTAMP = 0x02"
definition HDR_SHA256 :: nat where "HDR_SHA256 = 0x03"
definition HDR_IMG_TYPE :: nat where "HDR_IMG_TYPE = 0x04"
definition HDR_IMG_DELTA_BASE :: nat where "HDR_IMG_DELTA_BASE = 0x05"
definition HDR_IMG_DELTA_SIZE :: nat where "HDR_IMG_DELTA_SIZE = 0x06"
definition HDR_IMG_DELTA_BASE_HASH :: nat where "HDR_IMG_DELTA_BASE_HASH = 0x07"
definition HDR_PUBKEY :: nat where "HDR_PUBKEY = 0x10"
definition HDR_IMG_DELTA_INVERSE :: nat where "HDR_IMG_DELTA_INVERSE = 0x15"
definition HDR_IMG_DELTA_INVERSE_SIZE :: nat where "HDR_IMG_DELTA_INVERSE_SIZE = 0x16"
definition HDR_SIGNATURE :: nat where "HDR_SIGNATURE = 0x20"
definition HDR_PADDING :: byte where "HDR_PADDING = 0xFF"

definition HDR_IMG_TYPE_AUTH_MASK :: nat where "HDR_IMG_TYPE_AUTH_MASK = 0xFF00"
definition HDR_IMG_TYPE_AUTH_ED25519 :: nat where "HDR_IMG_TYPE_AUTH_ED25519 = 0x0100"
definition HDR_IMG_TYPE_DIFF :: nat where "HDR_IMG_TYPE_DIFF = 0x00D0"
definition HDR_IMG_TYPE_PART_MASK :: nat where "HDR_IMG_TYPE_PART_MASK = 0x000F"
definition HDR_IMG_TYPE_WOLFBOOT :: nat where "HDR_IMG_TYPE_WOLFBOOT = 0x0000"
definition HDR_IMG_TYPE_APP :: nat where "HDR_IMG_TYPE_APP = 0x0001"

lemmas hdr_tag_defs = HDR_VERSION_def HDR_TIMESTAMP_def HDR_SHA256_def HDR_IMG_TYPE_def
  HDR_IMG_DELTA_BASE_def HDR_IMG_DELTA_SIZE_def HDR_IMG_DELTA_BASE_HASH_def HDR_PUBKEY_def
  HDR_IMG_DELTA_INVERSE_def HDR_IMG_DELTA_INVERSE_SIZE_def HDR_SIGNATURE_def

subsection \<open>Lookup\<close>

text \<open>
  The loop of \<open>wolfBoot_find_header\<close>: \<open>hs\<close> is \<open>IMAGE_HEADER_SIZE\<close>, \<open>max_addr\<close>
  the end of the header, \<open>p_addr\<close> the position. The result is the length and the pointer
  to the value; a lookup that fails returns length 0 and NULL.
\<close>

function find_header_loop :: "mem \<Rightarrow> nat \<Rightarrow> nat \<Rightarrow> nat \<Rightarrow> nat \<Rightarrow> nat \<times> nat" where
  "find_header_loop m hs type max_addr p_addr =
     (if \<not> p_addr < max_addr then (0, 0)
      else if max_addr - p_addr < 4 then (0, 0)
      else
        (let htype = le16_at m p_addr
         in if htype = 0 then (0, 0)
            else if m p_addr = HDR_PADDING \<or> odd p_addr then
              find_header_loop m hs type max_addr (p_addr + 1)
            else
              (let len = le16_at m (p_addr + 2)
               in if 4 + len > u16 (hs - IMAGE_HEADER_OFFSET) then (0, 0)
                  else if max_addr - p_addr < 4 + len then (0, 0)
                  else if htype = type then (len, p_addr + 4)
                  else find_header_loop m hs type max_addr (p_addr + (4 + len)))))"
  by pat_completeness auto
termination
  by (relation "measure (\<lambda>(m, hs, type, max_addr, p_addr). max_addr - p_addr)") auto

declare find_header_loop.simps [simp del]

definition wolfBoot_find_header :: "cfg \<Rightarrow> mem \<Rightarrow> nat \<Rightarrow> nat \<Rightarrow> nat \<times> nat" where
  "wolfBoot_find_header c m haystack type =
     (if haystack = 0 then (0, 0)
      else if haystack < IMAGE_HEADER_OFFSET then (0, 0)
      else if haystack - IMAGE_HEADER_OFFSET > UINTPTR_MAX - IMAGE_HEADER_SIZE c then (0, 0)
      else
        (let max_addr = haystack - IMAGE_HEADER_OFFSET + IMAGE_HEADER_SIZE c
         in if haystack > max_addr then (0, 0)
            else find_header_loop m (IMAGE_HEADER_SIZE c) type max_addr haystack))"

subsection \<open>Fields of an image\<close>

definition wolfBoot_get_blob_version :: "cfg \<Rightarrow> mem \<Rightarrow> nat \<Rightarrow> nat" where
  "wolfBoot_get_blob_version c m blob =
     (if blob = 0 then 0
      else if le32_at m blob \<noteq> WOLFBOOT_MAGIC then 0
      else
        (let (len, version_field) = wolfBoot_find_header c m (blob + IMAGE_HEADER_OFFSET) HDR_VERSION
         in if len \<noteq> 4 then 0
            else if version_field \<noteq> 0 then le32_at m version_field else 0))"

definition wolfBoot_get_blob_type :: "cfg \<Rightarrow> mem \<Rightarrow> nat \<Rightarrow> nat" where
  "wolfBoot_get_blob_type c m blob =
     (if le32_at m blob \<noteq> WOLFBOOT_MAGIC then 0
      else
        (let (len, type_field) = wolfBoot_find_header c m (blob + IMAGE_HEADER_OFFSET) HDR_IMG_TYPE
         in if len \<noteq> 2 then 0
            else if type_field \<noteq> 0 then le16_at m type_field else 0))"

definition wolfBoot_get_blob_diffbase_version :: "cfg \<Rightarrow> mem \<Rightarrow> nat \<Rightarrow> nat" where
  "wolfBoot_get_blob_diffbase_version c m blob =
     (if le32_at m blob \<noteq> WOLFBOOT_MAGIC then 0
      else
        (let (len, delta_base) =
               wolfBoot_find_header c m (blob + IMAGE_HEADER_OFFSET) HDR_IMG_DELTA_BASE
         in if len \<noteq> 4 then 0
            else if delta_base \<noteq> 0 then le32_at m delta_base else 0))"

definition wolfBoot_get_image_from_part :: "cfg \<Rightarrow> nat \<Rightarrow> nat" where
  "wolfBoot_get_image_from_part c part =
     (if part = PART_BOOT then WOLFBOOT_PARTITION_BOOT_ADDRESS c
      else if part = PART_UPDATE then WOLFBOOT_PARTITION_UPDATE_ADDRESS c
      else 0)"

definition wolfBoot_get_image_version :: "cfg \<Rightarrow> mem \<Rightarrow> nat \<Rightarrow> nat" where
  "wolfBoot_get_image_version c m part =
     wolfBoot_get_blob_version c m (wolfBoot_get_image_from_part c part)"

definition wolfBoot_get_diffbase_version :: "cfg \<Rightarrow> mem \<Rightarrow> nat \<Rightarrow> nat" where
  "wolfBoot_get_diffbase_version c m part =
     wolfBoot_get_blob_diffbase_version c m (wolfBoot_get_image_from_part c part)"

definition wolfBoot_get_image_type :: "cfg \<Rightarrow> mem \<Rightarrow> nat \<Rightarrow> nat" where
  "wolfBoot_get_image_type c m part =
     (let image = wolfBoot_get_image_from_part c part
      in if image \<noteq> 0 then wolfBoot_get_blob_type c m image else 0)"

text \<open>
  The delta fields: the pointers to offset and size of the patch (the offset pointer is
  NULL for a direct patch) and to the hash of the base image with its length. \<open>None\<close> is
  \<open>-1\<close>.
\<close>

definition wolfBoot_get_delta_info ::
  "cfg \<Rightarrow> mem \<Rightarrow> nat \<Rightarrow> bool \<Rightarrow> (nat \<times> nat \<times> nat \<times> nat) option" where
  "wolfBoot_get_delta_info c m part is_inverse =
     (let image = wolfBoot_get_image_from_part c part;
          hdr = image + IMAGE_HEADER_OFFSET
      in if le32_at m image \<noteq> WOLFBOOT_MAGIC then None
         else
           (let (base_hash_size, base_hash) = wolfBoot_find_header c m hdr HDR_IMG_DELTA_BASE_HASH
            in if is_inverse then
                 (let (l1, img_offset) = wolfBoot_find_header c m hdr HDR_IMG_DELTA_INVERSE;
                      (l2, img_size) = wolfBoot_find_header c m hdr HDR_IMG_DELTA_INVERSE_SIZE
                  in if l1 \<noteq> 4 then None else if l2 \<noteq> 4 then None
                     else Some (img_offset, img_size, base_hash, base_hash_size))
               else
                 (let (l2, img_size) = wolfBoot_find_header c m hdr HDR_IMG_DELTA_SIZE
                  in if l2 \<noteq> 4 then None
                     else Some (0, img_size, base_hash, base_hash_size))))"

subsection \<open>The scan stays inside the header\<close>

lemma find_header_loop_sound:
  assumes "find_header_loop m hs type max_addr p = (len, ptr)" "ptr \<noteq> 0"
  shows "p + 4 \<le> ptr \<and> ptr + len \<le> max_addr \<and> le16_at m (ptr - 4) = type
    \<and> le16_at m (ptr - 2) = len \<and> even ptr \<and> type \<noteq> 0 \<and> m (ptr - 4) \<noteq> HDR_PADDING"
  using assms
proof (induction m hs type max_addr p rule: find_header_loop.induct)
  case (1 m hs type max_addr p)
  let ?len = "le16_at m (p + 2)"
  note unf = find_header_loop.simps [of m hs type max_addr p]
  have go: "p < max_addr" "\<not> max_addr - p < 4" "le16_at m p \<noteq> 0"
    using "1.prems" unfolding unf by (auto simp: Let_def split: if_splits)
  show ?case
  proof (cases "m p = HDR_PADDING \<or> odd p")
    case True
    then have "find_header_loop m hs type max_addr (p + 1) = (len, ptr)"
      using "1.prems" go unfolding unf by (simp add: Let_def)
    from "1.IH"(1) [OF _ _ refl _ True this "1.prems"(2)] go show ?thesis
      by simp
  next
    case False
    then have fits: "\<not> 4 + ?len > u16 (hs - IMAGE_HEADER_OFFSET)" "\<not> max_addr - p < 4 + ?len"
      using "1.prems" go unfolding unf by (auto simp: Let_def split: if_splits)
    show ?thesis
    proof (cases "le16_at m p = type")
      case True
      then show ?thesis
        using "1.prems" go False fits unfolding unf by (auto simp: Let_def add.commute)
    next
      case other: False
      then have "find_header_loop m hs type max_addr (p + (4 + ?len)) = (len, ptr)"
        using "1.prems" go False fits unfolding unf by (simp add: Let_def)
      from "1.IH"(2) [OF _ _ refl _ False refl _ _ other this "1.prems"(2)] go fits show ?thesis
        by simp
    qed
  qed
qed

lemma find_header_loop_cong:
  assumes "\<And>x. p \<le> x \<Longrightarrow> x < max_addr \<Longrightarrow> m' x = m x"
  shows "find_header_loop m' hs type max_addr p = find_header_loop m hs type max_addr p"
  using assms
proof (induction m hs type max_addr p rule: find_header_loop.induct)
  case (1 m hs type max_addr p)
  note unf = find_header_loop.simps [of m hs type max_addr p] find_header_loop.simps [of m' hs type max_addr p]
  show ?case
  proof (cases "p < max_addr \<and> \<not> max_addr - p < 4")
    case True
    then have "m' p = m p" "m' (p + 1) = m (p + 1)" "m' (p + 2) = m (p + 2)"
        "m' (p + 2 + 1) = m (p + 2 + 1)"
      using "1.prems" by auto
    then have e: "le16_at m' p = le16_at m p" "le16_at m' (p + 2) = le16_at m (p + 2)" "m' p = m p"
      by (simp_all only: le16_at_eq)
    have "find_header_loop m' hs type max_addr (p + 1) = find_header_loop m hs type max_addr (p + 1)"
      if "le16_at m p \<noteq> 0" "m p = HDR_PADDING \<or> odd p"
      by (rule "1.IH"(1) [OF _ _ refl that]) (use True "1.prems" in auto)
    moreover have "find_header_loop m' hs type max_addr (p + (4 + le16_at m (p + 2)))
        = find_header_loop m hs type max_addr (p + (4 + le16_at m (p + 2)))"
      if "le16_at m p \<noteq> 0" "\<not> (m p = HDR_PADDING \<or> odd p)"
        "\<not> u16 (hs - IMAGE_HEADER_OFFSET) < 4 + le16_at m (p + 2)"
        "\<not> max_addr - p < 4 + le16_at m (p + 2)" "le16_at m p \<noteq> type"
      by (rule "1.IH"(2) [OF _ _ refl that(1,2) refl that(3-5)]) (use True "1.prems" in auto)
    ultimately show ?thesis
      unfolding unf Let_def e by (intro if_cong refl) blast+
  next
    case False
    then show ?thesis
      unfolding unf by auto
  qed
qed

lemma find_header_sound:
  assumes "wolfBoot_find_header c m haystack type = (len, ptr)" "ptr \<noteq> 0"
  shows "haystack + 4 \<le> ptr" "ptr + len \<le> haystack - IMAGE_HEADER_OFFSET + IMAGE_HEADER_SIZE c"
    "le16_at m (ptr - 4) = type" "le16_at m (ptr - 2) = len" "even ptr" "type \<noteq> 0"
    "IMAGE_HEADER_OFFSET \<le> haystack"
  using assms find_header_loop_sound [of m "IMAGE_HEADER_SIZE c" type _ haystack len ptr]
  unfolding wolfBoot_find_header_def by (auto simp: Let_def split: if_splits)

lemma find_header_loop_none:
  "find_header_loop m hs type max_addr p = (len, 0) \<Longrightarrow> len = 0"
proof (induction m hs type max_addr p rule: find_header_loop.induct)
  case (1 m hs type max_addr p)
  note unf = find_header_loop.simps [of m hs type max_addr p]
  let ?len = "le16_at m (p + 2)"
  show ?case
  proof (rule ccontr)
    assume "len \<noteq> 0"
    then have go: "p < max_addr" "\<not> max_addr - p < 4" "le16_at m p \<noteq> 0"
      using "1.prems" unfolding unf by (auto simp: Let_def split: if_splits)
    show False
    proof (cases "m p = HDR_PADDING \<or> odd p")
      case True
      with \<open>len \<noteq> 0\<close> "1.IH"(1) [OF _ _ refl _ True] "1.prems" go show ?thesis
        unfolding unf by (simp add: Let_def)
    next
      case False
      then have fits: "\<not> 4 + ?len > u16 (hs - IMAGE_HEADER_OFFSET)" "\<not> max_addr - p < 4 + ?len"
          "le16_at m p \<noteq> type"
        using "1.prems" go \<open>len \<noteq> 0\<close> unfolding unf by (auto simp: Let_def split: if_splits)
      with \<open>len \<noteq> 0\<close> "1.IH"(2) [OF _ _ refl _ False refl] "1.prems" go False show ?thesis
        unfolding unf by (simp add: Let_def)
    qed
  qed
qed

lemma find_header_none: "wolfBoot_find_header c m haystack type = (len, 0) \<Longrightarrow> len = 0"
  using find_header_loop_none by (auto simp: wolfBoot_find_header_def Let_def split: if_splits)

lemma find_header_cong:
  assumes "\<And>x. haystack \<le> x \<Longrightarrow> x < haystack - IMAGE_HEADER_OFFSET + IMAGE_HEADER_SIZE c \<Longrightarrow> m' x = m x"
  shows "wolfBoot_find_header c m' haystack type = wolfBoot_find_header c m haystack type"
proof -
  have "find_header_loop m' (IMAGE_HEADER_SIZE c) type
        (haystack - IMAGE_HEADER_OFFSET + IMAGE_HEADER_SIZE c) haystack
      = find_header_loop m (IMAGE_HEADER_SIZE c) type
        (haystack - IMAGE_HEADER_OFFSET + IMAGE_HEADER_SIZE c) haystack"
    by (rule find_header_loop_cong) (rule assms)
  then show ?thesis
    by (simp only: wolfBoot_find_header_def Let_def)
qed

subsection \<open>Fields as data: encoding and lookup\<close>

text \<open>
  A header body as a list of items, its bytes, and the lookup of a tag in the list: the
  position of the value of the first field with that tag.
\<close>

datatype hdr_item = Pad | Field nat "byte list"

definition to_le16 :: "nat \<Rightarrow> byte list" where
  "to_le16 n = [of_nat n, of_nat (n div 256)]"

fun item_bytes :: "hdr_item \<Rightarrow> byte list" where
  "item_bytes Pad = [HDR_PADDING]"
| "item_bytes (Field t d) = to_le16 t @ to_le16 (length d) @ d"

definition items_bytes :: "hdr_item list \<Rightarrow> byte list" where
  "items_bytes is = concat (map item_bytes is)"

fun lookup_item :: "nat \<Rightarrow> nat \<Rightarrow> hdr_item list \<Rightarrow> (nat \<times> nat) option" where
  "lookup_item type p [] = None"
| "lookup_item type p (Pad # is) = lookup_item type (p + 1) is"
| "lookup_item type p (Field t d # is) =
     (if t = type then Some (length d, p + 4) else lookup_item type (p + (4 + length d)) is)"

text \<open>What the scan can read back: known tags at even addresses that fit in the header.\<close>

fun items_wf :: "nat \<Rightarrow> nat \<Rightarrow> hdr_item list \<Rightarrow> bool" where
  "items_wf hs p [] \<longleftrightarrow> True"
| "items_wf hs p (Pad # is) \<longleftrightarrow> items_wf hs (p + 1) is"
| "items_wf hs p (Field t d # is) \<longleftrightarrow>
     even p \<and> 0 < t \<and> t < 65536 \<and> t mod 256 \<noteq> 255 \<and> length d < 65536
     \<and> 4 + length d \<le> u16 (hs - IMAGE_HEADER_OFFSET) \<and> items_wf hs (p + (4 + length d)) is"

lemma items_bytes_simps [simp]:
  "items_bytes [] = []" "items_bytes (i # is) = item_bytes i @ items_bytes is"
  "items_bytes (is @ js) = items_bytes is @ items_bytes js"
  by (simp_all add: items_bytes_def)

lemma length_to_le16 [simp]: "length (to_le16 n) = 2"
  by (simp add: to_le16_def)

lemma le16_to_le16: "n < 65536 \<Longrightarrow> le16 (to_le16 n) = n"
  using mod_mult2_eq [of n 256 256] by (simp add: le16_def to_le16_def)

lemma mread_append_iff:
  "mread m p (length (xs @ ys)) = xs @ ys \<longleftrightarrow>
     mread m p (length xs) = xs \<and> mread m (p + length xs) (length ys) = ys"
  by (simp add: mread_add append_eq_append_conv)

lemma lookup_item_room: "lookup_item type p is = Some r \<Longrightarrow> 4 \<le> length (items_bytes is)"
  by (induction type p "is" rule: lookup_item.induct) (auto split: if_splits)

lemma mread_le16: "mread m p 2 = to_le16 n \<Longrightarrow> n < 65536 \<Longrightarrow> le16_at m p = n"
  by (simp add: le16_at_def le16_to_le16)

text \<open>The scan of an encoded body is the lookup in its items.\<close>

lemma find_header_loop_items:
  assumes "mread m p (length (items_bytes is)) = items_bytes is" "items_wf hs p is"
    "p + length (items_bytes is) \<le> max_addr" "lookup_item type p is = Some r"
  shows "find_header_loop m hs type max_addr p = r"
  using assms
proof (induction "is" arbitrary: p)
  case Nil
  then show ?case by simp
next
  case (Cons i "is")
  note unf = find_header_loop.simps [of m hs type max_addr p]
  show ?case
  proof (cases i)
    case Pad
    have b: "m p = HDR_PADDING" and rest: "mread m (p + 1) (length (items_bytes is)) = items_bytes is"
      using Cons.prems(1) Pad by (simp_all add: mread_Suc)
    then have nz: "le16_at m p \<noteq> 0"
      by (simp add: le16_at_eq HDR_PADDING_def)
    have "4 \<le> length (items_bytes is)"
      by (rule lookup_item_room) (use Cons.prems(4) Pad in simp)
    then have room: "p < max_addr" "\<not> max_addr - p < 4"
      using Cons.prems(3) Pad by auto
    have "find_header_loop m hs type max_addr (p + 1) = r"
      by (rule Cons.IH [OF rest]) (use Cons.prems Pad in auto)
    then show ?thesis
      using b nz room by (simp add: unf Let_def)
  next
    case (Field t d)
    have "mread m p (length (to_le16 t @ (to_le16 (length d) @ (d @ items_bytes is))))
        = to_le16 t @ (to_le16 (length d) @ (d @ items_bytes is))"
      using Cons.prems(1) Field by simp
    then have parts: "mread m p 2 = to_le16 t" "mread m (p + 2) 2 = to_le16 (length d)"
      "mread m (p + 4) (length d) = d"
      "mread m (p + (4 + length d)) (length (items_bytes is)) = items_bytes is"
      unfolding mread_append_iff by (simp_all add: add.assoc)
    have wf: "even p" "0 < t" "t < 65536" "t mod 256 \<noteq> 255" "length d < 65536"
      "\<not> u16 (hs - IMAGE_HEADER_OFFSET) < 4 + length d" "items_wf hs (p + (4 + length d)) is"
      using Cons.prems(2) Field by auto
    have tag: "le16_at m p = t" and len: "le16_at m (p + 2) = length d"
      using mread_le16 parts(1,2) wf by auto
    have "m p = of_nat t"
      using parts(1) mread_nth [of 0 2 m p] by (simp add: to_le16_def)
    then have "unat (m p) = t mod 256"
      by simp
    then have npad: "m p \<noteq> HDR_PADDING"
      using wf(4) by (auto simp: HDR_PADDING_def)
    have room: "p < max_addr" "\<not> max_addr - p < 4" "\<not> max_addr - p < 4 + length d"
      using Cons.prems(3) Field by auto
    show ?thesis
    proof (cases "t = type")
      case True
      then show ?thesis
        using Cons.prems(4) Field wf npad room tag len by (simp add: unf Let_def)
    next
      case False
      have "find_header_loop m hs type max_addr (p + (4 + length d)) = r"
        by (rule Cons.IH [OF parts(4) wf(7)]) (use Cons.prems(3,4) Field False in auto)
      then show ?thesis
        using False wf npad room tag len by (simp add: unf Let_def)
    qed
  qed
qed

lemma find_header_items:
  assumes "mread m haystack (length (items_bytes is)) = items_bytes is"
    "items_wf (IMAGE_HEADER_SIZE c) haystack is" "lookup_item type haystack is = Some r"
    "IMAGE_HEADER_OFFSET \<le> haystack" "haystack - IMAGE_HEADER_OFFSET \<le> UINTPTR_MAX - IMAGE_HEADER_SIZE c"
    "IMAGE_HEADER_OFFSET + length (items_bytes is) \<le> IMAGE_HEADER_SIZE c"
  shows "wolfBoot_find_header c m haystack type = r"
proof -
  let ?max = "haystack - IMAGE_HEADER_OFFSET + IMAGE_HEADER_SIZE c"
  have "find_header_loop m (IMAGE_HEADER_SIZE c) type ?max haystack = r"
    by (rule find_header_loop_items [OF assms(1,2) _ assms(3)]) (use assms(4,6) in linarith)
  moreover have "\<not> ?max < haystack" "haystack \<noteq> 0"
    using assms(4,6) by (auto simp: IMAGE_HEADER_OFFSET_def)
  ultimately show ?thesis
    using assms(4,5) by (simp only: wolfBoot_find_header_def Let_def if_False not_less [symmetric] not_not simp_thms)
qed

subsection \<open>Properties\<close>

text \<open>
  C23. A successful lookup stays inside the header: the value starts after the tag and ends
  before the end of the header, its tag and length are the ones stored in front of it, and
  it is at an even address. A failed lookup returns length 0 with NULL.
\<close>

theorem find_header_in_bounds:
  "case wolfBoot_find_header c m haystack type of (len, ptr) \<Rightarrow>
     (ptr = 0 \<and> len = 0)
   \<or> (haystack + 4 \<le> ptr \<and> ptr + len \<le> haystack - IMAGE_HEADER_OFFSET + IMAGE_HEADER_SIZE c
       \<and> le16_at m (ptr - 4) = type \<and> le16_at m (ptr - 2) = len \<and> even ptr \<and> 0 < type)"
proof (cases "wolfBoot_find_header c m haystack type")
  case (Pair len ptr)
  with find_header_sound [OF Pair] find_header_none [of c m haystack type len] show ?thesis
    by (cases "ptr = 0") auto
qed

text \<open>
  C24. The lookup reads nothing outside the header: two memories with the same header bytes
  give the same result.
\<close>

theorem find_header_reads_header_only:
  assumes "mread m haystack (IMAGE_HEADER_SIZE c - IMAGE_HEADER_OFFSET)
      = mread m' haystack (IMAGE_HEADER_SIZE c - IMAGE_HEADER_OFFSET)"
    and "IMAGE_HEADER_OFFSET \<le> haystack" "IMAGE_HEADER_OFFSET \<le> IMAGE_HEADER_SIZE c"
  shows "wolfBoot_find_header c m haystack type = wolfBoot_find_header c m' haystack type"
proof (rule find_header_cong)
  fix x
  assume "haystack \<le> x" "x < haystack - IMAGE_HEADER_OFFSET + IMAGE_HEADER_SIZE c"
  then have "x - haystack < IMAGE_HEADER_SIZE c - IMAGE_HEADER_OFFSET" "haystack + (x - haystack) = x"
    using assms(2,3) by auto
  with assms(1) show "m x = m' x"
    unfolding mread_eq_iff by metis
qed

theorem find_header_reads_header_only_witness:
  "wolfBoot_find_header sim_config (\<lambda>_. 255) 0x80008 HDR_VERSION
   = wolfBoot_find_header sim_config ((\<lambda>_. 255)(0x80100 := 1)) 0x80008 HDR_VERSION"
  by (rule find_header_reads_header_only) (simp_all add: mread_eq_iff IMAGE_HEADER_OFFSET_def)

text \<open>
  C25. Reading back an encoded header: for a header body made of padding and well-formed
  fields (known tags at even addresses), the lookup of a tag returns length and address of
  the value of its first field.
\<close>

theorem header_lookup_roundtrip:
  assumes "mread m haystack (length (items_bytes is)) = items_bytes is"
    and "items_wf (IMAGE_HEADER_SIZE c) haystack is" "lookup_item type haystack is = Some (len, ptr)"
    and "IMAGE_HEADER_OFFSET \<le> haystack"
    and "haystack - IMAGE_HEADER_OFFSET \<le> UINTPTR_MAX - IMAGE_HEADER_SIZE c"
    and "IMAGE_HEADER_OFFSET + length (items_bytes is) \<le> IMAGE_HEADER_SIZE c"
  shows "wolfBoot_find_header c m haystack type = (len, ptr)"
  by (rule find_header_items) (fact assms)+

definition demo_items :: "hdr_item list" where
  "demo_items = [Field HDR_VERSION (to_le32 7), Pad, Pad, Pad, Pad, Field HDR_IMG_TYPE [1, 1]]"

theorem header_lookup_roundtrip_witness:
  "wolfBoot_find_header sim_config (mwrite (\<lambda>_. 255) 0x80008 (items_bytes demo_items)) 0x80008 HDR_IMG_TYPE
     = (2, 0x80018)"
  by (rule header_lookup_roundtrip [of _ _ demo_items])
    (simp_all add: demo_items_def mread_mwrite_same hdr_tag_defs IMAGE_HEADER_OFFSET_def UINTPTR_MAX_def
      u16_def)

end
