(* ===== verification/Image.thy ===== *)
theory Image
  imports Header
begin

section \<open>Opening and verifying an image (\<open>src/image.c\<close>, \<open>include/image.h\<close>)\<close>

text \<open>
  The build modelled hashes with SHA-256 and signs with Ed25519, on internal flash, with
  the default (not \<open>WOLFBOOT_ARMORED\<close>) checks.

  The code under \<open>lib/\<close> and the generated key store are not part of the sources: they are
  the record \<open>crypto\<close>, an argument of every function that uses them. A hash context is the
  list of the bytes fed to it so far. A function that may not return (\<open>wolfBoot_panic\<close>,
  a loop that does not end) yields an option, with \<open>None\<close> for not returning.
\<close>

definition WOLFBOOT_SHA_DIGEST_SIZE :: nat where "WOLFBOOT_SHA_DIGEST_SIZE = 32"
definition WOLFBOOT_SHA_BLOCK_SIZE :: nat where "WOLFBOOT_SHA_BLOCK_SIZE = 256"
definition ED25519_IMAGE_SIGNATURE_SIZE :: nat where "ED25519_IMAGE_SIGNATURE_SIZE = 64"
definition KEYSTORE_PUBKEY_SIZE :: nat where "KEYSTORE_PUBKEY_SIZE = 32"

text \<open>wolfCrypt and the key store.\<close>

record crypto =
  wc_Sha256 :: "byte list \<Rightarrow> byte list"
  keystore_num_pubkeys :: nat
  keystore_get_buffer :: "nat \<Rightarrow> byte list option"
  keystore_get_size :: "nat \<Rightarrow> int"
  keystore_get_mask :: "nat \<Rightarrow> nat"
  wc_ed25519_init_ex :: int
  wc_ed25519_import_public :: "byte list \<Rightarrow> int"
  wc_ed25519_verify_msg :: "byte list \<Rightarrow> byte list \<Rightarrow> byte list \<Rightarrow> int \<times> int"

record wolfBoot_image =
  img_hdr :: nat
  img_trailer :: nat
  sha_hash :: nat
  fw_base :: nat
  fw_size :: nat
  img_part :: nat
  hdr_ok :: bool
  signature_ok :: bool
  sha_ok :: bool

definition image_zero :: wolfBoot_image where
  "image_zero = \<lparr>img_hdr = 0, img_trailer = 0, sha_hash = 0, fw_base = 0, fw_size = 0, img_part = 0,
     hdr_ok = False, signature_ok = False, sha_ok = False\<rparr>"

subsection \<open>Constant-time comparison\<close>

fun ct_diff :: "byte list \<Rightarrow> byte list \<Rightarrow> nat list \<Rightarrow> 32 word \<Rightarrow> 32 word" where
  "ct_diff expected actual [] diff = diff"
| "ct_diff expected actual (i # is) diff =
     ct_diff expected actual is (diff OR ucast (expected ! i XOR actual ! i))"

definition image_CT_compare :: "byte list \<Rightarrow> byte list \<Rightarrow> nat \<Rightarrow> int" where
  "image_CT_compare expected actual len =
     (if ct_diff expected actual [0..<len] 0 \<noteq> 0 then 1 else 0)"

definition wolfBoot_hardened_CT_compare :: "byte list \<Rightarrow> byte list \<Rightarrow> nat \<Rightarrow> int" where
  "wolfBoot_hardened_CT_compare expected actual len =
     (let r1 = image_CT_compare expected actual len;
          r2 = image_CT_compare expected actual len
      in r1 OR r2)"

text \<open>The \<open>WOLFBOOT_ARMORED\<close> version, with its redundant counters, on 32-bit words.\<close>

definition CT_SENTINEL :: "32 word" where "CT_SENTINEL = 0xA5C3F000"

text \<open>The loop state: \<open>(diff, witness, count, i, budget)\<close>.\<close>

function ct_armored_loop :: "byte list \<Rightarrow> byte list \<Rightarrow> 32 word \<Rightarrow>
    32 word \<times> 32 word \<times> 32 word \<times> 32 word \<times> 32 word \<Rightarrow>
    32 word \<times> 32 word \<times> 32 word \<times> 32 word \<times> 32 word" where
  "ct_armored_loop expected actual len (diff, witness, count, i, budget) =
     (if i < len \<and> budget \<noteq> 0 then
        ct_armored_loop expected actual len
          (diff OR ucast (expected ! unat i XOR actual ! unat i), witness + (i + 1), count + 1,
           i + 1, budget - 1)
      else (diff, witness, count, i, budget))"
  by pat_completeness auto
termination
  by (relation "measure (\<lambda>(expected, actual, len, diff, witness, count, i, budget). unat budget)")
    (auto simp: unat_minus_one unat_gt_0)

declare ct_armored_loop.simps [simp del]

definition image_CT_compare_armored :: "byte list \<Rightarrow> byte list \<Rightarrow> 32 word \<Rightarrow> 32 word" where
  "image_CT_compare_armored expected actual len =
     (let (diff, witness, count, i, budget) =
            ct_armored_loop expected actual len (CT_SENTINEL, 0, 0, 0, len);
          expected_witness = (len * (len + 1)) div 2;
          len_is_zero = 1 XOR drop_bit 31 (len OR (0 - len));
          res = diff XOR CT_SENTINEL;
          res = res OR (witness XOR expected_witness);
          res = res OR (count XOR len);
          res = res OR (i XOR len);
          res = res OR len_is_zero;
          res = res OR (diff XOR CT_SENTINEL);
          res = res OR (witness XOR expected_witness);
          res = res OR (count XOR len);
          res = res OR (i XOR len);
          res = res OR len_is_zero
      in res)"

subsection \<open>Hashing an image\<close>

definition wolfBoot_get_header :: "cfg \<Rightarrow> mem \<Rightarrow> wolfBoot_image \<Rightarrow> nat \<Rightarrow> nat \<times> nat" where
  "wolfBoot_get_header c m img type =
     wolfBoot_find_header c m (img_hdr img + IMAGE_HEADER_OFFSET) type"

definition get_sha_block :: "wolfBoot_image \<Rightarrow> nat \<Rightarrow> nat" where
  "get_sha_block img offset = (if offset > fw_size img then 0 else fw_base img + offset)"

definition get_img_hdr :: "wolfBoot_image \<Rightarrow> nat" where
  "get_img_hdr img = img_hdr img"

text \<open>The block loop of \<open>header_sha256\<close>.\<close>

function hash_blocks :: "mem \<Rightarrow> nat \<Rightarrow> nat \<Rightarrow> byte list \<Rightarrow> byte list" where
  "hash_blocks m p end_sha ctx =
     (if p < end_sha then
        (let blksz = (if end_sha - p < WOLFBOOT_SHA_BLOCK_SIZE then end_sha - p
                      else WOLFBOOT_SHA_BLOCK_SIZE)
         in hash_blocks m (p + blksz) end_sha (ctx @ mread m p blksz))
      else ctx)"
  by pat_completeness auto
termination
  by (relation "measure (\<lambda>(m, p, end_sha, ctx). end_sha - p)")
    (auto simp: WOLFBOOT_SHA_BLOCK_SIZE_def)

declare hash_blocks.simps [simp del]

definition header_sha256 :: "cfg \<Rightarrow> mem \<Rightarrow> wolfBoot_image \<Rightarrow> byte list option" where
  "header_sha256 c m img =
     (let p = get_img_hdr img;
          (stored_sha_len, stored_sha) = wolfBoot_get_header c m img HDR_SHA256
      in if stored_sha_len \<noteq> WOLFBOOT_SHA_DIGEST_SIZE then None
         else Some (hash_blocks m p (stored_sha - 2 * 2) []))"

text \<open>
  The firmware loop of \<open>image_sha256\<close>, with \<open>position\<close> a \<open>uint32_t\<close>. For sizes
  close to \<open>2 ^ 32\<close> the position wraps and the loop does not end.
\<close>

partial_function (option) image_hash_loop ::
  "mem \<Rightarrow> wolfBoot_image \<Rightarrow> nat \<Rightarrow> byte list \<Rightarrow> byte list option" where
  "image_hash_loop m img position ctx =
     (let p = get_sha_block img position
      in if p = 0 then Some ctx
         else
           (let blksz = (if u32 (position + WOLFBOOT_SHA_BLOCK_SIZE) > fw_size img
                         then sub32 (fw_size img) position else WOLFBOOT_SHA_BLOCK_SIZE);
                ctx = ctx @ mread m p blksz;
                position = u32 (position + blksz)
            in if position < fw_size img then image_hash_loop m img position ctx else Some ctx))"

text \<open>\<open>None\<close>: does not return; otherwise the return value and the digest.\<close>

definition image_sha256 :: "crypto \<Rightarrow> cfg \<Rightarrow> mem \<Rightarrow> wolfBoot_image \<Rightarrow> (int \<times> byte list) option" where
  "image_sha256 K c m img =
     (case header_sha256 c m img of
        None \<Rightarrow> Some (-1, [])
      | Some ctx \<Rightarrow>
          (case image_hash_loop m img 0 ctx of
             None \<Rightarrow> None
           | Some ctx \<Rightarrow> Some (0, wc_Sha256 K ctx)))"

subsection \<open>Opening\<close>

definition wolfBoot_image_size :: "mem \<Rightarrow> nat \<Rightarrow> nat" where
  "wolfBoot_image_size m addr = le32_at m (addr + 4)"

definition wolfBoot_open_image_address ::
  "cfg \<Rightarrow> mem \<Rightarrow> wolfBoot_image \<Rightarrow> nat \<Rightarrow> int \<times> wolfBoot_image" where
  "wolfBoot_open_image_address c m img addr =
     (let part_size = WOLFBOOT_PARTITION_SIZE c
      in if le32_at m addr \<noteq> WOLFBOOT_MAGIC then (-1, img)
         else
           (let img = img\<lparr>fw_size := wolfBoot_image_size m addr\<rparr>
            in if fw_size img > part_size - IMAGE_HEADER_SIZE c
               then (-1, img\<lparr>fw_size := part_size - IMAGE_HEADER_SIZE c\<rparr>)
               else
                 (let img = (if \<not> hdr_ok img then img\<lparr>img_hdr := addr\<rparr> else img);
                      img = img\<lparr>img_trailer := img_hdr img + part_size\<rparr>;
                      img = img\<lparr>hdr_ok := True\<rparr>;
                      img = img\<lparr>fw_base := img_hdr img + IMAGE_HEADER_SIZE c\<rparr>
                  in (0, img))))"

definition wolfBoot_open_image :: "cfg \<Rightarrow> mem \<Rightarrow> nat \<Rightarrow> int \<times> wolfBoot_image" where
  "wolfBoot_open_image c m p =
     (let img = image_zero\<lparr>img_part := p\<rparr>
      in if p = PART_SWAP then
           (0, img\<lparr>img_hdr := WOLFBOOT_PARTITION_SWAP_ADDRESS c, hdr_ok := True,
                fw_base := WOLFBOOT_PARTITION_SWAP_ADDRESS c, fw_size := WOLFBOOT_SECTOR_SIZE c\<rparr>)
         else if p \<noteq> PART_BOOT \<and> p \<noteq> PART_UPDATE then (-1, img)
         else
           (let img = img\<lparr>img_hdr := (if p = PART_BOOT then WOLFBOOT_PARTITION_BOOT_ADDRESS c
                                     else WOLFBOOT_PARTITION_UPDATE_ADDRESS c)\<rparr>;
                img = img\<lparr>hdr_ok := True\<rparr>;
                (ret, img) = wolfBoot_open_image_address c m img (img_hdr img)
            in (ret, if ret \<noteq> 0 then img\<lparr>hdr_ok := False\<rparr> else img)))"

subsection \<open>Integrity\<close>

definition wolfBoot_verify_integrity ::
  "crypto \<Rightarrow> cfg \<Rightarrow> mem \<Rightarrow> wolfBoot_image \<Rightarrow> (int \<times> wolfBoot_image) option" where
  "wolfBoot_verify_integrity K c m img =
     (let img = img\<lparr>sha_hash := 0\<rparr>;
          img = img\<lparr>sha_ok := False\<rparr>;
          (stored_sha_len, stored_sha) = wolfBoot_get_header c m img HDR_SHA256
      in if stored_sha_len \<noteq> WOLFBOOT_SHA_DIGEST_SIZE then Some (-1, img)
         else
           (case image_sha256 K c m img of
              None \<Rightarrow> None
            | Some (ret, digest) \<Rightarrow>
                if ret \<noteq> 0 then Some (-1, img)
                else
                  (let img = (if image_CT_compare digest
                                   (mread m stored_sha WOLFBOOT_SHA_DIGEST_SIZE)
                                   WOLFBOOT_SHA_DIGEST_SIZE = 0
                              then img\<lparr>sha_hash := stored_sha, sha_ok := True\<rparr> else img)
                   in if \<not> sha_ok img then Some (-1, img) else Some (0, img))))"

subsection \<open>Keys and authenticity\<close>

definition key_sha256 :: "crypto \<Rightarrow> nat \<Rightarrow> byte list" where
  "key_sha256 K key_slot =
     (let key_slot = key_slot mod 256
      in case keystore_get_buffer K key_slot of
           None \<Rightarrow> replicate 32 0
         | Some pubkey \<Rightarrow>
             if keystore_get_size K key_slot < 0 then replicate 32 0
             else wc_Sha256 K (take (nat (keystore_get_size K key_slot)) pubkey))"

fun hint_diff :: "byte list \<Rightarrow> byte list \<Rightarrow> nat list \<Rightarrow> byte \<Rightarrow> byte" where
  "hint_diff expected actual [] diff = diff"
| "hint_diff expected actual (i # is) diff =
     hint_diff expected actual is (diff OR (expected ! i XOR actual ! i))"

definition keyslot_CT_hint_matches :: "byte list \<Rightarrow> byte list \<Rightarrow> bool" where
  "keyslot_CT_hint_matches expected actual \<longleftrightarrow>
     hint_diff expected actual [0..<WOLFBOOT_SHA_DIGEST_SIZE] 0 = 0"

fun keyslot_loop :: "crypto \<Rightarrow> byte list \<Rightarrow> nat list \<Rightarrow> int \<Rightarrow> int" where
  "keyslot_loop K hint [] match_id = match_id"
| "keyslot_loop K hint (i # is) match_id =
     keyslot_loop K hint is
       (if keyslot_CT_hint_matches (key_sha256 K i) hint \<and> match_id < 0 then int i else match_id)"

definition keyslot_id_by_sha :: "crypto \<Rightarrow> byte list \<Rightarrow> int" where
  "keyslot_id_by_sha K hint = keyslot_loop K hint [0..<keystore_num_pubkeys K] (-1)"

definition wolfBoot_verify_signature_ed25519 ::
  "crypto \<Rightarrow> mem \<Rightarrow> nat \<Rightarrow> wolfBoot_image \<Rightarrow> nat \<Rightarrow> wolfBoot_image" where
  "wolfBoot_verify_signature_ed25519 K m key_slot img sig =
     (let key_slot = key_slot mod 256
      in if wc_ed25519_init_ex K < 0 then img
         else
           (case keystore_get_buffer K key_slot of
              None \<Rightarrow> img
            | Some buf \<Rightarrow>
                (let pub = take KEYSTORE_PUBKEY_SIZE buf
                 in if wc_ed25519_import_public K pub < 0 then img
                    else
                      (let (ret, res) = wc_ed25519_verify_msg K pub
                             (mread m sig ED25519_IMAGE_SIGNATURE_SIZE)
                             (mread m (sha_hash img) WOLFBOOT_SHA_DIGEST_SIZE)
                       in if ret = 0 \<and> res = 1 then img\<lparr>signature_ok := True\<rparr> else img))))"

definition wolfBoot_verify_authenticity ::
  "crypto \<Rightarrow> cfg \<Rightarrow> mem \<Rightarrow> wolfBoot_image \<Rightarrow> (int \<times> wolfBoot_image) option" where
  "wolfBoot_verify_authenticity K c m img =
     (let (stored_signature_size, stored_signature) = wolfBoot_get_header c m img HDR_SIGNATURE;
          (pubkey_hint_size, pubkey_hint) = wolfBoot_get_header c m img HDR_PUBKEY
      in if pubkey_hint_size \<noteq> WOLFBOOT_SHA_DIGEST_SIZE then Some (-1, img)
         else
           (let key_slot = keyslot_id_by_sha K (mread m pubkey_hint WOLFBOOT_SHA_DIGEST_SIZE)
            in if key_slot < 0 then Some (-1, img)
               else
                 (let (image_type_size, image_type_buf) = wolfBoot_get_header c m img HDR_IMG_TYPE;
                      image_type = le16_at m image_type_buf
                  in if image_type_size \<noteq> 2 then Some (-1, img)
                     else if image_type AND HDR_IMG_TYPE_AUTH_MASK \<noteq> HDR_IMG_TYPE_AUTH_ED25519
                     then Some (-1, img)
                     else
                       (case (if sha_hash img = 0 \<or> \<not> sha_ok img
                              then wolfBoot_verify_integrity K c m img else Some (0, img)) of
                          None \<Rightarrow> None
                        | Some (ret, img) \<Rightarrow>
                            if ret \<noteq> 0 then Some (-1, img)
                            else if \<not> sha_ok img then None
                            else
                              (let image_part = image_type AND HDR_IMG_TYPE_PART_MASK;
                                   key_mask = keystore_get_mask K (nat key_slot)
                               in if (2 ^ image_part AND key_mask) \<noteq> 2 ^ image_part
                                  then Some (-1, img)
                                  else if (key_mask AND 2 ^ image_part) \<noteq> 2 ^ image_part then None
                                  else if stored_signature_size = 0 \<or> stored_signature = 0
                                  then Some (-1, img)
                                  else if stored_signature_size \<noteq> ED25519_IMAGE_SIGNATURE_SIZE
                                  then Some (-1, img)
                                  else
                                    (let img = wolfBoot_verify_signature_ed25519 K m (nat key_slot)
                                                 img stored_signature
                                     in if signature_ok img then Some (0, img)
                                        else Some (-2, img)))))))"

subsection \<open>The comparisons decide equality\<close>

lemma ucast_byte_eq_0: "ucast (b :: byte) = (0 :: 32 word) \<longleftrightarrow> b = 0"
proof -
  have "unat b < 2 ^ 32"
    by (rule less_trans [OF unat_byte_bound]) simp
  then have "unat (ucast b :: 32 word) = unat b"
    by (simp add: unsigned_ucast_eq take_bit_nat_eq_self)
  then show ?thesis
    by (metis unsigned_eq_0_iff)
qed

lemma xor_eq_0: "x XOR y = 0 \<longleftrightarrow> x = y" for x y :: "'a::len word"
  by (auto simp: bit_eq_iff bit_simps)

lemma ct_diff_eq_0: "ct_diff e a is d = 0 \<longleftrightarrow> d = 0 \<and> (\<forall>i\<in>set is. e ! i = a ! i)"
  by (induction e a "is" d rule: ct_diff.induct) (auto simp: or_eq_0_iff ucast_byte_eq_0 xor_eq_0)

lemma image_CT_compare_eq_0:
  "image_CT_compare e a len = 0 \<longleftrightarrow> (\<forall>i<len. e ! i = a ! i)"
  by (auto simp: image_CT_compare_def ct_diff_eq_0)

lemma image_CT_compare_lists:
  "length e = len \<Longrightarrow> length a = len \<Longrightarrow> image_CT_compare e a len = 0 \<longleftrightarrow> e = a"
  by (auto simp: image_CT_compare_eq_0 list_eq_iff_nth_eq)

lemma hint_diff_eq_0: "hint_diff e a is d = 0 \<longleftrightarrow> d = 0 \<and> (\<forall>i\<in>set is. e ! i = a ! i)"
  by (induction e a "is" d rule: hint_diff.induct) (auto simp: or_eq_0_iff xor_eq_0)

lemma keyslot_CT_hint_matches_iff:
  "length e = WOLFBOOT_SHA_DIGEST_SIZE \<Longrightarrow> length a = WOLFBOOT_SHA_DIGEST_SIZE \<Longrightarrow>
     keyslot_CT_hint_matches e a \<longleftrightarrow> e = a"
  by (auto simp: keyslot_CT_hint_matches_def hint_diff_eq_0 list_eq_iff_nth_eq)

text \<open>
  The armored loop, from position \<open>k\<close> of \<open>n\<close>: the counters reach \<open>n\<close> and the
  accumulator collects the differences.
\<close>

fun tri :: "nat \<Rightarrow> nat" where
  "tri 0 = 0"
| "tri (Suc n) = Suc n + tri n"

lemma tri_closed: "2 * tri n = n * (n + 1)"
  by (induction n) auto

lemma ct_armored_loop_run:
  assumes "n < 65536" "k \<le> n"
  shows "ct_armored_loop e a (of_nat n) (d, of_nat (tri k), of_nat k, of_nat k, of_nat (n - k))
    = (ct_diff e a [k..<n] d, of_nat (tri n), of_nat n, of_nat n, 0)"
  using assms
proof (induction "n - k" arbitrary: k d)
  case 0
  then show ?case
    by (simp add: ct_armored_loop.simps)
next
  case (Suc r)
  then have k: "k < n" and n: "n < 65536" by auto
  have lt: "(of_nat k :: 32 word) < of_nat n"
    using k n by (simp add: word_of_nat_less_iff take_bit_nat_eq_self)
  have nz: "(of_nat (n - k) :: 32 word) \<noteq> 0"
  proof
    assume "(of_nat (n - k) :: 32 word) = 0"
    then have "unat (of_nat (n - k) :: 32 word) = 0"
      by (simp only: unsigned_0)
    then show False
      using k n by (simp only: unat_of_nat) simp
  qed
  have u: "unat (of_nat k :: 32 word) = k"
    using k n by (simp add: unat_of_nat)
  have e: "of_nat (tri k) + of_nat (Suc k) = (of_nat (tri (Suc k)) :: 32 word)"
    "(of_nat k + 1 :: 32 word) = of_nat (Suc k)"
    "(of_nat (n - k) - 1 :: 32 word) = of_nat (n - Suc k)"
    using k by (simp_all add: of_nat_diff)
  have l: "[k..<n] = k # [Suc k..<n]"
    using k by (simp add: upt_conv_Cons)
  show ?case
    unfolding l ct_diff.simps ct_armored_loop.simps [of _ _ _ _ _ _ "of_nat k"]
    using lt nz Suc.hyps(2) k n
    by (simp only: u e if_True simp_thms)
      (rule Suc.hyps(1); simp)
qed

text \<open>The accumulator never touches bits beyond the low byte, so the seed is never masked.\<close>

lemma ct_diff_seed: "ct_diff e a is (d OR x) = d OR ct_diff e a is x"
  by (induction e a "is" x rule: ct_diff.induct) (simp_all add: or.assoc)

lemma ct_diff_low: "ct_diff e a is 0 AND 0xFFFFFF00 = 0"
proof -
  have hi: "bit (0xFFFFFF00 :: 32 word) n \<Longrightarrow> 8 \<le> n" for n
  proof -
    have e: "(0xFFFFFF00 :: 32 word) = NOT (mask 8)"
      by (simp add: mask_eq_exp_minus_1)
    show "bit (0xFFFFFF00 :: 32 word) n \<Longrightarrow> 8 \<le> n"
      unfolding e by (auto simp: bit_simps)
  qed
  have step: "ucast (b :: byte) AND (0xFFFFFF00 :: 32 word) = 0" for b
    by (rule bit_word_eqI) (auto simp only: bit_and_iff bit_0_eq bot_apply dest!: hi; auto simp: bit_simps dest: bit_imp_le_length)
  have "d AND 0xFFFFFF00 = 0 \<Longrightarrow> ct_diff e a is d AND 0xFFFFFF00 = 0" for d
  proof (induction "is" arbitrary: d)
    case (Cons i "is")
    from Cons.prems step [of "e ! i XOR a ! i"] show ?case
      unfolding ct_diff.simps by (intro Cons.IH) (simp only: bit.conj_disj_distrib2 or.right_neutral)
  qed simp
  then show ?thesis by simp
qed

lemma armored_sentinel: "(CT_SENTINEL OR x) XOR CT_SENTINEL = 0 \<longleftrightarrow> x = 0" if "x AND 0xFFFFFF00 = 0" for x
proof -
  have "CT_SENTINEL AND x = CT_SENTINEL AND (x AND 0xFFFFFF00)"
    by (simp add: CT_SENTINEL_def ac_simps)
  with that have "CT_SENTINEL AND x = 0" by simp
  note d = this
  have nb: "\<not> (bit CT_SENTINEL n \<and> bit x n)" for n
    using arg_cong [OF d, of "\<lambda>w. bit w n"] by (simp add: bit_and_iff)
  have "x = 0" if e: "CT_SENTINEL OR x = CT_SENTINEL"
  proof (rule bit_word_eqI)
    fix n
    show "bit x n = bit 0 n"
      using nb [of n] arg_cong [OF e, of "\<lambda>w. bit w n"] by (auto simp: bit_or_iff)
  qed
  then show ?thesis
    by (auto simp: xor_eq_0)
qed

lemma tri_word:
  assumes "n < 65536"
  shows "(of_nat (tri n) :: 32 word) = (of_nat n * (of_nat n + 1)) div 2"
proof (rule unsigned_word_eqI)
  have b: "n * (n + 1) < 2 ^ 32"
    using mult_le_mono [of n 65535 "n + 1" 65536] assms by simp
  have "(of_nat n * (of_nat n + 1) :: 32 word) = of_nat (n * (n + 1))"
    by (simp add: algebra_simps)
  then have "unat (of_nat n * (of_nat n + 1) :: 32 word) = n * (n + 1)"
    using b by (simp only: unat_of_nat) simp
  then have "unat ((of_nat n * (of_nat n + 1)) div 2 :: 32 word) = n * (n + 1) div 2"
    by (simp only: unat_div_distrib) simp
  also have "\<dots> = tri n"
    using tri_closed [of n] by simp
  also have "tri n < 2 ^ 32"
    using tri_closed [of n] b by linarith
  then have "tri n = unat (of_nat (tri n) :: 32 word)"
    by (simp only: unat_of_nat) simp
  finally show "unat (of_nat (tri n) :: 32 word) = unat ((of_nat n * (of_nat n + 1)) div 2 :: 32 word)"
    by simp
qed

lemma drop_bit_top: "bit w 31 \<Longrightarrow> drop_bit 31 w = 1" for w :: "32 word"
proof (rule bit_word_eqI)
  fix n
  assume "bit w 31"
  moreover have "bit w (31 + n) \<Longrightarrow> n = 0"
    using bit_imp_le_length [of w "31 + n"] by simp
  ultimately show "bit (drop_bit 31 w) n = bit 1 n"
    by (auto simp only: bit_drop_bit_eq o_def bit_1_iff add_0_right possible_bit_word)
qed

lemma len_nonzero_mark:
  assumes "0 < n" "n < 65536"
  shows "1 XOR drop_bit 31 (of_nat n OR (0 - of_nat n)) = (0 :: 32 word)"
proof -
  let ?len = "of_nat n :: 32 word"
  have "\<not> bit (n - 1) 31"
    using assms by (simp add: bit_iff_odd)
  then have "\<not> bit (of_nat (n - 1) :: 32 word) 31"
    by (simp only: bit_of_nat_iff) simp
  moreover have "0 - ?len = NOT (of_nat (n - 1))"
    using assms by (simp add: minus_eq_not_minus_1 of_nat_diff)
  ultimately have b: "bit (0 - ?len) 31"
    by (simp only: bit_not_iff) simp
  then have "bit (?len OR (0 - ?len)) 31"
    by (simp only: bit_or_iff simp_thms)
  then show ?thesis
    by (simp only: drop_bit_top xor_self_eq)
qed

lemma image_CT_compare_armored_eq_0:
  assumes "0 < n" "n < 65536"
  shows "image_CT_compare_armored e a (of_nat n) = 0 \<longleftrightarrow> (\<forall>i<n. e ! i = a ! i)"
proof -
  let ?len = "of_nat n :: 32 word"
  have run: "ct_armored_loop e a ?len (CT_SENTINEL, 0, 0, 0, ?len)
      = (CT_SENTINEL OR ct_diff e a [0..<n] 0, of_nat (tri n), ?len, ?len, 0)"
    using ct_armored_loop_run [of n 0 e a CT_SENTINEL] assms ct_diff_seed [of e a "[0..<n]" CT_SENTINEL 0]
    by simp
  show ?thesis
    unfolding image_CT_compare_armored_def run Let_def prod.case tri_word [OF assms(2)]
      len_nonzero_mark [OF assms]
    by (simp only: xor_self_eq or.right_neutral or_eq_0_iff armored_sentinel [OF ct_diff_low] ct_diff_eq_0)
      auto
qed

subsection \<open>What is hashed\<close>

lemma hash_blocks_eq: "p \<le> e \<Longrightarrow> hash_blocks m p e ctx = ctx @ mread m p (e - p)"
proof (induction m p e ctx rule: hash_blocks.induct)
  case (1 m p e ctx)
  show ?case
  proof (cases "p < e")
    case True
    define b where "b = (if e - p < WOLFBOOT_SHA_BLOCK_SIZE then e - p else WOLFBOOT_SHA_BLOCK_SIZE)"
    have b: "b \<le> e - p"
      by (auto simp: b_def)
    have "hash_blocks m p e ctx = hash_blocks m (p + b) e (ctx @ mread m p b)"
      using True by (simp add: hash_blocks.simps [of m p] b_def [symmetric])
    also have "\<dots> = (ctx @ mread m p b) @ mread m (p + b) (e - (p + b))"
      using "1.IH" [OF True b_def] b True by simp
    also have "\<dots> = ctx @ mread m p (e - p)"
    proof -
      have "b + (e - (p + b)) = e - p"
        using b True by simp
      then show ?thesis
        using mread_add [of m p b "e - (p + b)"] by simp
    qed
    finally show ?thesis .
  next
    case False
    with "1.prems" show ?thesis
      by (simp add: hash_blocks.simps)
  qed
qed

lemma image_hash_loop_eq:
  assumes "fw_base img \<noteq> 0" "fw_size img < 2147483648" "position \<le> fw_size img"
  shows "image_hash_loop m img position ctx
    = Some (ctx @ mread m (fw_base img + position) (fw_size img - position))"
  using assms(3)
proof (induction "fw_size img - position" arbitrary: position ctx rule: less_induct)
  case less
  let ?n = "fw_size img"
  define b where "b = (if u32 (position + WOLFBOOT_SHA_BLOCK_SIZE) > ?n
     then sub32 ?n position else WOLFBOOT_SHA_BLOCK_SIZE)"
  have b: "b = (if position + 256 > ?n then ?n - position else 256)"
    using less.prems assms(2) by (simp add: b_def WOLFBOOT_SHA_BLOCK_SIZE_def u32_id sub32_id)
  have pos: "u32 (position + b) = position + b"
    using less.prems assms(2) by (simp add: b u32_id)
  have unf: "image_hash_loop m img position ctx =
      (if position + b < ?n then image_hash_loop m img (position + b) (ctx @ mread m (fw_base img + position) b)
       else Some (ctx @ mread m (fw_base img + position) b))"
    using assms(1) less.prems
    by (subst image_hash_loop.simps) (simp add: get_sha_block_def Let_def b_def [symmetric] pos)
  show ?case
  proof (cases "position + b < ?n")
    case True
    then have "b = 256"
      using b by (auto split: if_splits)
    with True have "image_hash_loop m img (position + b) (ctx @ mread m (fw_base img + position) b)
      = Some ((ctx @ mread m (fw_base img + position) b) @ mread m (fw_base img + (position + b)) (?n - (position + b)))"
      by (intro less.hyps) auto
    then show ?thesis
      using True mread_add [of m "fw_base img + position" b "?n - (position + b)"]
      by (simp add: unf add.assoc)
  next
    case False
    then have "b = ?n - position"
      using b less.prems by (auto split: if_splits)
    then show ?thesis
      using False by (simp add: unf)
  qed
qed

definition hashed_bytes :: "mem \<Rightarrow> wolfBoot_image \<Rightarrow> nat \<Rightarrow> byte list" where
  "hashed_bytes m img stored_sha =
     mread m (img_hdr img) (stored_sha - 4 - img_hdr img) @ mread m (fw_base img) (fw_size img)"

lemma image_sha256_eq:
  assumes "wolfBoot_get_header c m img HDR_SHA256 = (WOLFBOOT_SHA_DIGEST_SIZE, stored_sha)"
    "fw_base img \<noteq> 0" "fw_size img < 2147483648"
  shows "image_sha256 K c m img = Some (0, wc_Sha256 K (hashed_bytes m img stored_sha))"
proof -
  have "stored_sha \<noteq> 0"
    using find_header_none [of c m "img_hdr img + IMAGE_HEADER_OFFSET" HDR_SHA256 WOLFBOOT_SHA_DIGEST_SIZE] assms(1)
    by (auto simp: wolfBoot_get_header_def WOLFBOOT_SHA_DIGEST_SIZE_def)
  then have "img_hdr img + IMAGE_HEADER_OFFSET + 4 \<le> stored_sha"
    using find_header_sound(1) assms(1) by (auto simp: wolfBoot_get_header_def)
  then have "img_hdr img \<le> stored_sha - 4"
    by simp
  then show ?thesis
    using image_hash_loop_eq [OF assms(2,3), of 0 m]
    by (simp add: image_sha256_def header_sha256_def assms(1) hash_blocks_eq get_img_hdr_def hashed_bytes_def)
qed

text \<open>The image is intact: its digest is stored in its header.\<close>

definition image_intact :: "crypto \<Rightarrow> cfg \<Rightarrow> mem \<Rightarrow> wolfBoot_image \<Rightarrow> nat \<Rightarrow> bool" where
  "image_intact K c m img stored \<longleftrightarrow>
     wolfBoot_get_header c m img HDR_SHA256 = (WOLFBOOT_SHA_DIGEST_SIZE, stored)
   \<and> wc_Sha256 K (hashed_bytes m img stored) = mread m stored WOLFBOOT_SHA_DIGEST_SIZE"

lemma verify_integrity_iff:
  assumes "fw_base img \<noteq> 0" "fw_size img < 2147483648" "\<And>x. length (wc_Sha256 K x) = 32"
  shows "\<exists>ret img'. wolfBoot_verify_integrity K c m img = Some (ret, img')
     \<and> (ret = 0 \<or> ret = -1)
     \<and> (ret = 0 \<longleftrightarrow> (\<exists>stored. image_intact K c m img stored))
     \<and> img' = img\<lparr>sha_hash := (if ret = 0 then snd (wolfBoot_get_header c m img HDR_SHA256) else 0),
                 sha_ok := (ret = 0)\<rparr>"
proof -
  let ?img = "img\<lparr>sha_hash := 0, sha_ok := False\<rparr>"
  obtain len stored where h: "wolfBoot_get_header c m img HDR_SHA256 = (len, stored)"
    by fastforce
  then have h': "wolfBoot_get_header c m ?img HDR_SHA256 = (len, stored)"
    by (simp add: wolfBoot_get_header_def)
  show ?thesis
  proof (cases "len = WOLFBOOT_SHA_DIGEST_SIZE")
    case True
    have "image_sha256 K c m ?img = Some (0, wc_Sha256 K (hashed_bytes m ?img stored))"
      by (rule image_sha256_eq) (use h' True assms in auto)
    moreover have "hashed_bytes m ?img stored = hashed_bytes m img stored"
      by (simp add: hashed_bytes_def)
    moreover have "image_CT_compare (wc_Sha256 K (hashed_bytes m img stored))
        (mread m stored WOLFBOOT_SHA_DIGEST_SIZE) WOLFBOOT_SHA_DIGEST_SIZE = 0
      \<longleftrightarrow> wc_Sha256 K (hashed_bytes m img stored) = mread m stored WOLFBOOT_SHA_DIGEST_SIZE"
      by (rule image_CT_compare_lists) (simp_all add: assms(3) WOLFBOOT_SHA_DIGEST_SIZE_def)
    ultimately show ?thesis
      using True h h' by (simp add: wolfBoot_verify_integrity_def image_intact_def Let_def)
  next
    case False
    then show ?thesis
      using h h' by (simp add: wolfBoot_verify_integrity_def image_intact_def Let_def)
  qed
qed

subsection \<open>Opened images\<close>

lemma open_image_ok:
  assumes "cfg_ok c" "wolfBoot_open_image c m p = (0, img)" "p = PART_BOOT \<or> p = PART_UPDATE"
  shows "le32_at m (img_hdr img) = WOLFBOOT_MAGIC"
    "img_hdr img = (if p = PART_BOOT then WOLFBOOT_PARTITION_BOOT_ADDRESS c else WOLFBOOT_PARTITION_UPDATE_ADDRESS c)"
    "fw_size img = le32_at m (img_hdr img + 4)"
    "fw_base img = img_hdr img + IMAGE_HEADER_SIZE c"
    "fw_size img + IMAGE_HEADER_SIZE c \<le> WOLFBOOT_PARTITION_SIZE c"
    "img_part img = p" "hdr_ok img" "\<not> sha_ok img" "\<not> signature_ok img" "sha_hash img = 0"
    "fw_base img \<noteq> 0" "fw_size img < 2147483648"
proof -
  note d = cfg_okD [OF assms(1)]
  have "IMAGE_HEADER_SIZE c \<le> WOLFBOOT_PARTITION_SIZE c" "0 < IMAGE_HEADER_SIZE c"
    using d by auto
  moreover have "p \<noteq> PART_SWAP"
    using assms(3) by auto
  moreover note assms(2,3)
  ultimately show "le32_at m (img_hdr img) = WOLFBOOT_MAGIC"
    "img_hdr img = (if p = PART_BOOT then WOLFBOOT_PARTITION_BOOT_ADDRESS c else WOLFBOOT_PARTITION_UPDATE_ADDRESS c)"
    "fw_size img = le32_at m (img_hdr img + 4)"
    "fw_base img = img_hdr img + IMAGE_HEADER_SIZE c"
    and sz: "fw_size img + IMAGE_HEADER_SIZE c \<le> WOLFBOOT_PARTITION_SIZE c"
    and "img_part img = p" "hdr_ok img" "\<not> sha_ok img" "\<not> signature_ok img" "sha_hash img = 0"
    "fw_base img \<noteq> 0"
    by (auto simp: wolfBoot_open_image_def wolfBoot_open_image_address_def wolfBoot_image_size_def
        image_zero_def Let_def split: if_splits)
  from sz d show "fw_size img < 2147483648"
    by linarith
qed

subsection \<open>Keys\<close>

lemma keyslot_loop_found: "0 \<le> match_id \<Longrightarrow> keyslot_loop K hint is match_id = match_id"
  by (induction K hint "is" match_id rule: keyslot_loop.induct) auto

lemma keyslot_loop_sound:
  "keyslot_loop K hint is match_id = r \<Longrightarrow> 0 \<le> r \<Longrightarrow> match_id < 0 \<Longrightarrow>
     \<exists>i\<in>set is. r = int i \<and> keyslot_CT_hint_matches (key_sha256 K i) hint"
  by (induction K hint "is" match_id rule: keyslot_loop.induct)
    (auto simp: keyslot_loop_found split: if_splits)

lemma keyslot_loop_first:
  "match_id < 0 \<Longrightarrow> keyslot_loop K hint is match_id =
     (case find (\<lambda>i. keyslot_CT_hint_matches (key_sha256 K i) hint) is of
        None \<Rightarrow> match_id | Some i \<Rightarrow> int i)"
  by (induction K hint "is" match_id rule: keyslot_loop.induct) (auto simp: keyslot_loop_found)

lemma keyslot_id_sound:
  assumes "keyslot_id_by_sha K hint = r" "0 \<le> r"
  shows "nat r < keystore_num_pubkeys K \<and> keyslot_CT_hint_matches (key_sha256 K (nat r)) hint"
  using keyslot_loop_sound [of K hint "[0..<keystore_num_pubkeys K]" "-1" r] assms
  by (auto simp: keyslot_id_by_sha_def)

subsection \<open>Authenticity\<close>

definition signed_by :: "crypto \<Rightarrow> nat \<Rightarrow> byte list \<Rightarrow> byte list \<Rightarrow> bool" where
  "signed_by K slot sig digest \<longleftrightarrow>
     (\<exists>buf. keystore_get_buffer K (slot mod 256) = Some buf
        \<and> 0 \<le> wc_ed25519_init_ex K
        \<and> 0 \<le> wc_ed25519_import_public K (take KEYSTORE_PUBKEY_SIZE buf)
        \<and> wc_ed25519_verify_msg K (take KEYSTORE_PUBKEY_SIZE buf) sig digest = (0, 1))"

lemma verify_signature_ok:
  assumes "\<not> signature_ok img"
  shows "signature_ok (wolfBoot_verify_signature_ed25519 K m slot img sig) \<longleftrightarrow>
    signed_by K slot (mread m sig ED25519_IMAGE_SIGNATURE_SIZE)
      (mread m (sha_hash img) WOLFBOOT_SHA_DIGEST_SIZE)"
  using assms
  by (auto simp: wolfBoot_verify_signature_ed25519_def signed_by_def Let_def not_less
      split: option.splits prod.splits if_splits)

lemma verify_signature_keeps:
  "sha_hash (wolfBoot_verify_signature_ed25519 K m slot img sig) = sha_hash img"
  "sha_ok (wolfBoot_verify_signature_ed25519 K m slot img sig) = sha_ok img"
  "hdr_ok (wolfBoot_verify_signature_ed25519 K m slot img sig) = hdr_ok img"
  "fw_base (wolfBoot_verify_signature_ed25519 K m slot img sig) = fw_base img"
  "fw_size (wolfBoot_verify_signature_ed25519 K m slot img sig) = fw_size img"
  "img_hdr (wolfBoot_verify_signature_ed25519 K m slot img sig) = img_hdr img"
  by (simp_all add: wolfBoot_verify_signature_ed25519_def Let_def split: option.splits prod.splits)

text \<open>
  What an authentic image is: intact, with the hash of a key of the key store in its header,
  of the type this build authenticates, for a partition that key may sign, and with a
  signature of its digest that verifies under that key.
\<close>

definition image_authentic :: "crypto \<Rightarrow> cfg \<Rightarrow> mem \<Rightarrow> wolfBoot_image \<Rightarrow> bool" where
  "image_authentic K c m img \<longleftrightarrow>
     (\<exists>stored hint type_buf sig slot.
        image_intact K c m img stored
      \<and> wolfBoot_get_header c m img HDR_PUBKEY = (WOLFBOOT_SHA_DIGEST_SIZE, hint)
      \<and> keyslot_id_by_sha K (mread m hint WOLFBOOT_SHA_DIGEST_SIZE) = int slot
      \<and> wolfBoot_get_header c m img HDR_IMG_TYPE = (2, type_buf)
      \<and> le16_at m type_buf AND HDR_IMG_TYPE_AUTH_MASK = HDR_IMG_TYPE_AUTH_ED25519
      \<and> bit (keystore_get_mask K slot) (le16_at m type_buf AND HDR_IMG_TYPE_PART_MASK)
      \<and> wolfBoot_get_header c m img HDR_SIGNATURE = (ED25519_IMAGE_SIGNATURE_SIZE, sig)
      \<and> signed_by K slot (mread m sig ED25519_IMAGE_SIGNATURE_SIZE)
          (mread m stored WOLFBOOT_SHA_DIGEST_SIZE))"

lemma mask_bit_iff:
  fixes k :: nat
  shows "2 ^ n AND k = 2 ^ n \<longleftrightarrow> bit k n" "k AND 2 ^ n = 2 ^ n \<longleftrightarrow> bit k n"
proof -
  have "2 ^ n AND k = (if bit k n then 2 ^ n else 0)"
    by (rule bit_eqI) (auto simp: bit_simps)
  then show "2 ^ n AND k = 2 ^ n \<longleftrightarrow> bit k n" "k AND 2 ^ n = 2 ^ n \<longleftrightarrow> bit k n"
    by (simp_all add: and.commute)
qed

text \<open>A cached \<open>sha_ok\<close> is trusted: it must come from a verification of this image.\<close>

definition sha_cache_ok :: "crypto \<Rightarrow> cfg \<Rightarrow> mem \<Rightarrow> wolfBoot_image \<Rightarrow> bool" where
  "sha_cache_ok K c m img \<longleftrightarrow> (sha_ok img \<longrightarrow> image_intact K c m img (sha_hash img))"

lemma intact_unique:
  "image_intact K c m img x \<Longrightarrow> image_intact K c m img y \<Longrightarrow> x = y"
  by (simp add: image_intact_def)

lemma intact_nonzero: "image_intact K c m img stored \<Longrightarrow> stored \<noteq> 0"
  using find_header_none [of c m "img_hdr img + IMAGE_HEADER_OFFSET" HDR_SHA256 WOLFBOOT_SHA_DIGEST_SIZE]
  by (auto simp: image_intact_def wolfBoot_get_header_def WOLFBOOT_SHA_DIGEST_SIZE_def)

text \<open>The integrity step of \<open>wolfBoot_verify_authenticity\<close>.\<close>

lemma integrity_step:
  assumes "fw_base img \<noteq> 0" "fw_size img < 2147483648" "\<And>x. length (wc_Sha256 K x) = 32"
    and "sha_cache_ok K c m img"
  obtains ret img' where
    "(if sha_hash img = 0 \<or> \<not> sha_ok img then wolfBoot_verify_integrity K c m img else Some (0, img))
       = Some (ret, img')"
    "ret = 0 \<longleftrightarrow> (\<exists>stored. image_intact K c m img stored)"
    "ret = 0 \<longrightarrow> sha_ok img' \<and> image_intact K c m img (sha_hash img')"
    "signature_ok img' = signature_ok img" "img_hdr img' = img_hdr img" "hdr_ok img' = hdr_ok img"
    "fw_base img' = fw_base img" "fw_size img' = fw_size img"
proof (cases "sha_hash img = 0 \<or> \<not> sha_ok img")
  case True
  from verify_integrity_iff [OF assms(1-3), of c m] obtain ret img' where
    v: "wolfBoot_verify_integrity K c m img = Some (ret, img')"
      "ret = 0 \<longleftrightarrow> (\<exists>stored. image_intact K c m img stored)"
      "img' = img\<lparr>sha_hash := (if ret = 0 then snd (wolfBoot_get_header c m img HDR_SHA256) else 0),
                 sha_ok := (ret = 0)\<rparr>"
    by blast
  show ?thesis
    by (rule that [of ret img']) (use True v in \<open>auto simp: image_intact_def\<close>)
next
  case False
  then have "image_intact K c m img (sha_hash img)"
    using assms(4) by (simp add: sha_cache_ok_def)
  with False show ?thesis
    by (intro that [of 0 img]) auto
qed

lemma get_header_nz: "wolfBoot_get_header c m img t = (l, p) \<Longrightarrow> l \<noteq> 0 \<Longrightarrow> p \<noteq> 0"
  using find_header_none [of c m "img_hdr img + IMAGE_HEADER_OFFSET" t l]
  by (cases "p = 0") (auto simp: wolfBoot_get_header_def)

lemma verify_authenticity_iff:
  assumes "fw_base img \<noteq> 0" "fw_size img < 2147483648" "\<And>x. length (wc_Sha256 K x) = 32"
    and "sha_cache_ok K c m img" "\<not> signature_ok img"
  shows "\<exists>ret img'. wolfBoot_verify_authenticity K c m img = Some (ret, img')
    \<and> ret \<le> 0 \<and> (ret = 0 \<longleftrightarrow> image_authentic K c m img)
    \<and> (ret = 0 \<longrightarrow> sha_ok img' \<and> signature_ok img' \<and> image_intact K c m img (sha_hash img'))
    \<and> img_hdr img' = img_hdr img \<and> hdr_ok img' = hdr_ok img \<and> fw_base img' = fw_base img
    \<and> fw_size img' = fw_size img"
proof -
  obtain l1 sig where h1: "wolfBoot_get_header c m img HDR_SIGNATURE = (l1, sig)" by fastforce
  obtain l2 hint where h2: "wolfBoot_get_header c m img HDR_PUBKEY = (l2, hint)" by fastforce
  obtain l3 ty where h3: "wolfBoot_get_header c m img HDR_IMG_TYPE = (l3, ty)" by fastforce
  obtain ret img' where i:
    "(if sha_hash img = 0 \<or> \<not> sha_ok img then wolfBoot_verify_integrity K c m img else Some (0, img))
       = Some (ret, img')"
    "ret = 0 \<longleftrightarrow> (\<exists>stored. image_intact K c m img stored)"
    "ret = 0 \<longrightarrow> sha_ok img' \<and> image_intact K c m img (sha_hash img')"
    "signature_ok img' = signature_ok img" "img_hdr img' = img_hdr img" "hdr_ok img' = hdr_ok img"
    "fw_base img' = fw_base img" "fw_size img' = fw_size img"
    by (rule integrity_step [OF assms(1-4)]) blast
  let ?slot = "keyslot_id_by_sha K (mread m hint WOLFBOOT_SHA_DIGEST_SIZE)"
  let ?img'' = "wolfBoot_verify_signature_ed25519 K m (nat ?slot) img' sig"
  have sig: "signature_ok ?img'' \<longleftrightarrow> signed_by K (nat ?slot) (mread m sig ED25519_IMAGE_SIGNATURE_SIZE)
      (mread m (sha_hash img') WOLFBOOT_SHA_DIGEST_SIZE)"
    by (rule verify_signature_ok) (simp add: i assms(5))
  note defs = wolfBoot_verify_authenticity_def h1 h2 h3 i(1) Let_def
  show ?thesis
  proof (cases "l2 = WOLFBOOT_SHA_DIGEST_SIZE \<and> 0 \<le> ?slot \<and> l3 = 2
      \<and> le16_at m ty AND HDR_IMG_TYPE_AUTH_MASK = HDR_IMG_TYPE_AUTH_ED25519")
    case False
    then have "wolfBoot_verify_authenticity K c m img = Some (-1, img)"
      by (auto simp: defs)
    moreover have "\<not> image_authentic K c m img"
      using False by (auto simp: image_authentic_def h1 h2 h3)
    ultimately show ?thesis
      by simp
  next
    case pre: True
    show ?thesis
    proof (cases "ret = 0 \<and> bit (keystore_get_mask K (nat ?slot)) (le16_at m ty AND HDR_IMG_TYPE_PART_MASK)
        \<and> l1 = ED25519_IMAGE_SIGNATURE_SIZE")
      case False
      then have "wolfBoot_verify_authenticity K c m img = Some (-1, img')"
        using pre i(3) by (auto simp: defs mask_bit_iff)
      moreover have "\<not> image_authentic K c m img"
        using False i(2) by (auto simp: image_authentic_def h1 h2 h3)
      ultimately show ?thesis
        using i by auto
    next
      case True
      then have "sig \<noteq> 0"
        using get_header_nz [OF h1] by (simp add: ED25519_IMAGE_SIGNATURE_SIZE_def)
      then have "wolfBoot_verify_authenticity K c m img =
          Some (if signature_ok ?img'' then 0 else -2, ?img'')"
        using True pre i(3) by (simp add: defs mask_bit_iff ED25519_IMAGE_SIGNATURE_SIZE_def)
      moreover have "signature_ok ?img'' \<longleftrightarrow> image_authentic K c m img"
      proof
        assume "signature_ok ?img''"
        with True pre i(3) sig show "image_authentic K c m img"
          unfolding image_authentic_def h1 h2 h3
          by - (rule exI [of _ "sha_hash img'"], rule exI [of _ hint], rule exI [of _ ty],
              rule exI [of _ sig], rule exI [of _ "nat ?slot"], auto)
      next
        assume "image_authentic K c m img"
        then show "signature_ok ?img''"
          unfolding image_authentic_def h1 h2 h3 sig
          using i(3) True intact_unique by fastforce
      qed
      ultimately show ?thesis
        using i True by (auto simp: verify_signature_keeps)
    qed
  qed
qed

subsection \<open>Properties\<close>

text \<open>
  A small signed image for the witnesses: a hash that is constant, one key, a 16-byte
  firmware at the BOOT address of the simulator.
\<close>

definition demo_digest :: "byte list" where
  "demo_digest = replicate 32 0xAB"

definition demo_sig :: "byte list" where
  "demo_sig = replicate 64 9"

definition demo_crypto :: crypto where
  "demo_crypto = \<lparr>wc_Sha256 = (\<lambda>_. demo_digest), keystore_num_pubkeys = 1,
     keystore_get_buffer = (\<lambda>_. Some (replicate 32 7)), keystore_get_size = (\<lambda>_. 32),
     keystore_get_mask = (\<lambda>_. 2), wc_ed25519_init_ex = 0, wc_ed25519_import_public = (\<lambda>_. 0),
     wc_ed25519_verify_msg = (\<lambda>pub sig msg. (0, if sig = demo_sig \<and> msg = demo_digest then 1 else 0))\<rparr>"

definition demo_image_items :: "hdr_item list" where
  "demo_image_items = [Field HDR_IMG_TYPE [1, 1], Field HDR_PUBKEY demo_digest,
     Field HDR_SHA256 demo_digest, Field HDR_SIGNATURE demo_sig]"

definition demo_header_bytes :: "byte list" where
  "demo_header_bytes = to_le32 WOLFBOOT_MAGIC @ to_le32 16 @ items_bytes demo_image_items"

definition demo_mem :: "nat \<Rightarrow> mem" where
  "demo_mem a = mwrite (\<lambda>_. 255) a demo_header_bytes"

lemma demo_lengths [simp]:
  "length demo_digest = 32" "length demo_sig = 64" "length (items_bytes demo_image_items) = 146"
  "length demo_header_bytes = 154"
  by (simp_all add: demo_digest_def demo_sig_def demo_image_items_def demo_header_bytes_def)

lemma demo_read:
  "k + n \<le> 154 \<Longrightarrow> mread (demo_mem a) (a + k) n = take n (drop k demo_header_bytes)"
  unfolding demo_mem_def by (rule mread_mwrite_sub) simp

lemma demo_find:
  assumes "even a" "a < 2 ^ 32" "lookup_item t (a + 8) demo_image_items = Some r"
  shows "wolfBoot_find_header sim_config (demo_mem a) (a + 8) t = r"
proof (rule find_header_items [OF _ _ assms(3)])
  show "mread (demo_mem a) (a + 8) (length (items_bytes demo_image_items)) = items_bytes demo_image_items"
    using demo_read [of 8 146 a] by (simp add: demo_header_bytes_def)
  show "items_wf (IMAGE_HEADER_SIZE sim_config) (a + 8) demo_image_items"
    using assms(1)
    by (simp add: demo_image_items_def hdr_tag_defs u16_def IMAGE_HEADER_OFFSET_def)
  show "a + 8 - IMAGE_HEADER_OFFSET \<le> UINTPTR_MAX - IMAGE_HEADER_SIZE sim_config"
    using assms(2) by (simp add: IMAGE_HEADER_OFFSET_def UINTPTR_MAX_def)
qed (simp_all add: IMAGE_HEADER_OFFSET_def)

lemma demo_magic: "le32_at (demo_mem a) a = WOLFBOOT_MAGIC" "le32_at (demo_mem a) (a + 4) = 16"
  using demo_read [of 0 4 a] demo_read [of 4 4 a]
  by (simp_all add: le32_at_def demo_header_bytes_def le32_to_le32 u32_def WOLFBOOT_MAGIC_def)

lemma demo_open:
  "wolfBoot_open_image sim_config (demo_mem 0x80000) PART_BOOT =
     (0, \<lparr>img_hdr = 0x80000, img_trailer = 0xC0000, sha_hash = 0, fw_base = 0x80100, fw_size = 16,
          img_part = PART_BOOT, hdr_ok = True, signature_ok = False, sha_ok = False\<rparr>)"
  using demo_magic [of "0x80000"]
  by (simp add: wolfBoot_open_image_def wolfBoot_open_image_address_def wolfBoot_image_size_def
      image_zero_def Let_def)

lemma demo_get_header:
  assumes "img_hdr img = 0x80000"
  shows "wolfBoot_get_header sim_config (demo_mem 0x80000) img HDR_IMG_TYPE = (2, 0x8000C)"
    "wolfBoot_get_header sim_config (demo_mem 0x80000) img HDR_PUBKEY = (32, 0x80012)"
    "wolfBoot_get_header sim_config (demo_mem 0x80000) img HDR_SHA256 = (32, 0x80036)"
    "wolfBoot_get_header sim_config (demo_mem 0x80000) img HDR_SIGNATURE = (64, 0x8005A)"
proof -
  have "wolfBoot_get_header sim_config (demo_mem 0x80000) img t = r"
    if "lookup_item t 0x80008 demo_image_items = Some r" for t r
    using demo_find [of "0x80000" t r] that assms
    by (simp add: wolfBoot_get_header_def IMAGE_HEADER_OFFSET_def)
  note g = this
  show "wolfBoot_get_header sim_config (demo_mem 0x80000) img HDR_IMG_TYPE = (2, 0x8000C)"
    "wolfBoot_get_header sim_config (demo_mem 0x80000) img HDR_PUBKEY = (32, 0x80012)"
    "wolfBoot_get_header sim_config (demo_mem 0x80000) img HDR_SHA256 = (32, 0x80036)"
    "wolfBoot_get_header sim_config (demo_mem 0x80000) img HDR_SIGNATURE = (64, 0x8005A)"
    by (rule g; simp add: demo_image_items_def hdr_tag_defs)+
qed

lemma demo_values:
  "mread (demo_mem 0x80000) 0x80012 32 = demo_digest" "mread (demo_mem 0x80000) 0x80036 32 = demo_digest"
  "mread (demo_mem 0x80000) 0x8005A 64 = demo_sig" "le16_at (demo_mem 0x80000) 0x8000C = 257"
  using demo_read [of "0x12" 32 "0x80000"] demo_read [of "0x36" 32 "0x80000"]
    demo_read [of "0x5A" 64 "0x80000"] demo_read [of "0xC" 2 "0x80000"]
  by (simp_all add: demo_header_bytes_def demo_image_items_def to_le16_def le16_at_def le16_def)

lemma demo_crypto_sha [simp]: "wc_Sha256 demo_crypto x = demo_digest"
  by (simp add: demo_crypto_def)

lemma demo_intact:
  "img_hdr img = 0x80000 \<Longrightarrow> image_intact demo_crypto sim_config (demo_mem 0x80000) img 0x80036"
  by (simp add: image_intact_def demo_get_header demo_values WOLFBOOT_SHA_DIGEST_SIZE_def)

lemma demo_key_sha: "key_sha256 demo_crypto n = demo_digest"
  by (simp add: key_sha256_def demo_crypto_def)

lemma demo_keyslot: "keyslot_id_by_sha demo_crypto demo_digest = 0"
proof -
  have "keystore_num_pubkeys demo_crypto = Suc 0"
    by (simp add: demo_crypto_def)
  then show ?thesis
    by (simp add: keyslot_id_by_sha_def demo_key_sha keyslot_CT_hint_matches_iff
        WOLFBOOT_SHA_DIGEST_SIZE_def)
qed

lemma demo_authentic:
  assumes "img_hdr img = 0x80000"
  shows "image_authentic demo_crypto sim_config (demo_mem 0x80000) img"
proof -
  have "signed_by demo_crypto 0 demo_sig demo_digest"
    by (simp add: signed_by_def demo_crypto_def)
  moreover have "bit (2 :: nat) 1"
    by (simp add: bit_iff_odd)
  ultimately show ?thesis
    unfolding image_authentic_def
    by (intro exI [of _ "0x80036"] exI [of _ "0x80012"] exI [of _ "0x8000C"] exI [of _ "0x8005A"]
        exI [of _ "0 :: nat"])
      (simp add: demo_intact [OF assms] demo_get_header [OF assms] demo_values demo_keyslot
        WOLFBOOT_SHA_DIGEST_SIZE_def ED25519_IMAGE_SIGNATURE_SIZE_def HDR_IMG_TYPE_AUTH_MASK_def
        HDR_IMG_TYPE_AUTH_ED25519_def HDR_IMG_TYPE_PART_MASK_def, simp add: demo_crypto_def)
qed

text \<open>
  C27. The constant-time comparisons decide equality: the plain one, the doubled one and the
  armored one, whose counters and sentinel never hide a difference nor report a false one.
\<close>

theorem ct_compare_equal:
  assumes "length expected = n" "length actual = n" "0 < n" "n < 65536"
  shows "(image_CT_compare expected actual n = 0 \<longleftrightarrow> expected = actual)
    \<and> (wolfBoot_hardened_CT_compare expected actual n = 0 \<longleftrightarrow> expected = actual)
    \<and> (image_CT_compare_armored expected actual (of_nat n) = 0 \<longleftrightarrow> expected = actual)"
  using image_CT_compare_lists [OF assms(1,2)] image_CT_compare_armored_eq_0 [OF assms(3,4), of expected actual]
    assms(1,2)
  by (auto simp: wolfBoot_hardened_CT_compare_def Let_def list_eq_iff_nth_eq)

theorem ct_compare_equal_witness:
  "image_CT_compare [1, 2, 3] [1, 2, 3] 3 = 0 \<and> image_CT_compare [1, 2, 3] [1, 2, 4] 3 \<noteq> 0
   \<and> image_CT_compare_armored [1, 2, 3] [1, 2, 4] (of_nat 3) \<noteq> 0"
  using ct_compare_equal [of "[1, 2, 3]" 3 "[1, 2, 3]"] ct_compare_equal [of "[1, 2, 3]" 3 "[1, 2, 4]"]
  by simp

text \<open>
  C26. An image that opens is inside its partition: header and firmware fit, the pointers are
  those of the partition, the magic is right and nothing is marked as verified.
\<close>

theorem open_image_in_partition:
  assumes "cfg_ok c" "p = PART_BOOT \<or> p = PART_UPDATE" "wolfBoot_open_image c m p = (0, img)"
  shows "img_hdr img = wolfBoot_get_image_from_part c p
    \<and> le32_at m (img_hdr img) = WOLFBOOT_MAGIC
    \<and> fw_base img = img_hdr img + IMAGE_HEADER_SIZE c \<and> fw_size img = wolfBoot_image_size m (img_hdr img)
    \<and> fw_base img + fw_size img \<le> img_hdr img + WOLFBOOT_PARTITION_SIZE c
    \<and> hdr_ok img \<and> \<not> sha_ok img \<and> \<not> signature_ok img"
  using open_image_ok [OF assms(1,3,2)] assms(2)
  by (auto simp: wolfBoot_get_image_from_part_def wolfBoot_image_size_def)

theorem open_image_in_partition_witness:
  "fw_base (snd (wolfBoot_open_image sim_config (demo_mem 0x80000) PART_BOOT)) = 0x80100
   \<and> fw_size (snd (wolfBoot_open_image sim_config (demo_mem 0x80000) PART_BOOT)) = 16"
  using open_image_in_partition [OF sim_config_ok _ demo_open] demo_magic(2) [of "0x80000"]
  by (simp add: demo_open wolfBoot_get_image_from_part_def wolfBoot_image_size_def)

text \<open>
  C17. Integrity: for an opened image the check always returns, and it returns 0 exactly if
  the header holds a digest field of 32 bytes equal to the hash of the header up to that
  field followed by the firmware. Only then is the digest recorded.
\<close>

theorem verify_integrity_correct:
  assumes "cfg_ok c" "p = PART_BOOT \<or> p = PART_UPDATE" "wolfBoot_open_image c m p = (0, img)"
    and "\<forall>x. length (wc_Sha256 K x) = 32"
  shows "\<exists>ret img'. wolfBoot_verify_integrity K c m img = Some (ret, img')
    \<and> (ret = 0 \<or> ret = -1)
    \<and> (ret = 0 \<longleftrightarrow> (\<exists>stored. wolfBoot_get_header c m img HDR_SHA256 = (32, stored)
         \<and> wc_Sha256 K (mread m (img_hdr img) (stored - 4 - img_hdr img) @ mread m (fw_base img) (fw_size img))
             = mread m stored 32))
    \<and> (sha_ok img' \<longleftrightarrow> ret = 0)
    \<and> (ret = 0 \<longrightarrow> sha_hash img' = snd (wolfBoot_get_header c m img HDR_SHA256))"
  using verify_integrity_iff [OF open_image_ok(11,12) [OF assms(1,3,2)], of K c m] assms(4)
  by (fastforce simp: image_intact_def hashed_bytes_def WOLFBOOT_SHA_DIGEST_SIZE_def)

theorem verify_integrity_correct_witness:
  "\<exists>img'. wolfBoot_verify_integrity demo_crypto sim_config (demo_mem 0x80000)
     (snd (wolfBoot_open_image sim_config (demo_mem 0x80000) PART_BOOT)) = Some (0, img')"
  using verify_integrity_correct [OF sim_config_ok _ demo_open, of demo_crypto]
  by (auto simp: demo_open demo_get_header demo_values)

text \<open>
  C16. Authenticity: for an opened image the check always returns, and it returns 0 exactly
  if the image is authentic: intact, with the hash of a key of the key store, of the type
  this build authenticates, for a partition that key may sign, and with a signature of
  the digest that verifies under that key. Only then is the image marked as signed.
\<close>

theorem verify_authenticity_correct:
  assumes "cfg_ok c" "p = PART_BOOT \<or> p = PART_UPDATE" "wolfBoot_open_image c m p = (0, img)"
    and "\<forall>x. length (wc_Sha256 K x) = 32"
  shows "\<exists>ret img'. wolfBoot_verify_authenticity K c m img = Some (ret, img')
    \<and> (ret = 0 \<longleftrightarrow> image_authentic K c m img)
    \<and> (ret = 0 \<longrightarrow> sha_ok img' \<and> signature_ok img')"
proof -
  note o = open_image_ok [OF assms(1,3,2)]
  have "sha_cache_ok K c m img"
    using o(8) by (simp add: sha_cache_ok_def)
  from verify_authenticity_iff [OF o(11,12) _ this o(9)] assms(4) show ?thesis
    by blast
qed

theorem verify_authenticity_correct_witness:
  "\<exists>img'. wolfBoot_verify_authenticity demo_crypto sim_config (demo_mem 0x80000)
     (snd (wolfBoot_open_image sim_config (demo_mem 0x80000) PART_BOOT)) = Some (0, img') \<and> signature_ok img'"
  using verify_authenticity_correct [OF sim_config_ok _ demo_open, of demo_crypto]
  by (auto simp: demo_open demo_authentic)

end
