(* ===== verification/Update.thy ===== *)
theory Update
  imports Trailer Image
begin

section \<open>The interruptible swap and the boot decision (\<open>src/update_flash.c\<close>)\<close>

text \<open>
  \<open>wolfBoot_update\<close> swaps the BOOT and UPDATE partitions sector by sector through the SWAP
  sector. The sector flags in the UPDATE trailer record how far each sector has got, so that
  a swap cut by a power failure goes on at the next boot. \<open>wolfBoot_start\<close> resumes what
  was interrupted, decides on updates and fallbacks, verifies the BOOT image and starts it.

  The build modelled has internal flash only, a backup (\<open>DISABLE_BACKUP\<close> not set), no
  delta updates, no encryption, no self-update and no failure log. An operation that may not
  return yields an option with \<open>None\<close> for \<open>wolfBoot_panic\<close> or a loop that does not
  end.
\<close>

subsection \<open>Copying a sector\<close>

definition wb_flash_erase :: "'s hal \<Rightarrow> wolfBoot_image \<Rightarrow> nat \<Rightarrow> nat \<Rightarrow> 's \<Rightarrow> int \<times> 's" where
  "wb_flash_erase H img off siz s = hal_flash_erase H (img_hdr img + off) siz s"

definition wb_flash_write :: "'s hal \<Rightarrow> wolfBoot_image \<Rightarrow> nat \<Rightarrow> byte list \<Rightarrow> 's \<Rightarrow> int \<times> 's" where
  "wb_flash_write H img off data s = hal_flash_write H (img_hdr img + off) data s"

text \<open>
  The write loop of \<open>wolfBoot_copy_sector\<close> over the positions that remain; the result is
  negative if a write failed.
\<close>

fun copy_chunks :: "cfg \<Rightarrow> 's hal \<Rightarrow> wolfBoot_image \<Rightarrow> wolfBoot_image \<Rightarrow> nat \<Rightarrow> nat \<Rightarrow>
    nat list \<Rightarrow> 's \<Rightarrow> int \<times> 's" where
  "copy_chunks c H src dst src_off dst_off [] s =
     (int (length (chunk_offsets c) * FLASHBUFFER_SIZE c), s)"
| "copy_chunks c H src dst src_off dst_off (pos # ps) s =
     (if u32 (src_off + pos) < u32 (fw_size src + IMAGE_HEADER_SIZE c + FLASHBUFFER_SIZE c) then
        (let orig = mread (flash_mem H s) (img_hdr src + src_off + pos) (FLASHBUFFER_SIZE c);
             (ret, s) = wb_flash_write H dst (dst_off + pos) orig s
         in if ret < 0 then (-1, s) else copy_chunks c H src dst src_off dst_off ps s)
      else copy_chunks c H src dst src_off dst_off ps s)"

text \<open>
  The test \<open>src == dst\<close> at the start of the function compares the two pointers; every
  caller passes two different images.
\<close>

definition wolfBoot_copy_sector ::
  "cfg \<Rightarrow> 's hal \<Rightarrow> wolfBoot_image \<Rightarrow> wolfBoot_image \<Rightarrow> nat \<Rightarrow> 's \<Rightarrow> int \<times> 's" where
  "wolfBoot_copy_sector c H src dst sector s =
     (let off = u32 (sector * WOLFBOOT_SECTOR_SIZE c);
          src_off = (if img_part src = PART_SWAP then 0 else off);
          dst_off = (if img_part dst = PART_SWAP then 0 else off);
          (ret, s) = wb_flash_erase H dst dst_off (WOLFBOOT_SECTOR_SIZE c) s
      in if ret < 0 then (-1, s)
         else copy_chunks c H src dst src_off dst_off (chunk_offsets c) s)"

subsection \<open>The final erase\<close>

definition wolfBoot_swap_and_final_erase :: "cfg \<Rightarrow> 's hal \<Rightarrow> bool \<Rightarrow> 's \<Rightarrow> int \<times> 's" where
  "wolfBoot_swap_and_final_erase c H resume s =
     (let eraseLen = WOLFBOOT_SECTOR_SIZE c * (if NVM_FLASH_WRITEONCE c then 2 else 1);
          tmpBootPos = WOLFBOOT_PARTITION_SIZE c - eraseLen - WOLFBOOT_SECTOR_SIZE c;
          boot = snd (wolfBoot_open_image c (flash_mem H s) PART_BOOT);
          update = snd (wolfBoot_open_image c (flash_mem H s) PART_UPDATE);
          swap = snd (wolfBoot_open_image c (flash_mem H s) PART_SWAP);
          (st, s) = wolfBoot_get_partition_state c H PART_UPDATE s;
          updateState = (case st of None \<Rightarrow> IMG_STATE_NEW | Some v \<Rightarrow> v);
          swapDone = (le32_at (flash_mem H s) (img_hdr boot + tmpBootPos) = WOLFBOOT_MAGIC_TRAIL)
      in if resume \<and> \<not> swapDone \<and> updateState \<noteq> IMG_STATE_FINAL_FLAGS then (-1, s)
         else
           (let s = hal_flash_unlock H s;
                s = (if updateState \<noteq> IMG_STATE_FINAL_FLAGS then
                       (let s = snd (wolfBoot_copy_sector c H boot swap
                                       (tmpBootPos div WOLFBOOT_SECTOR_SIZE c) s)
                        in snd (wolfBoot_set_partition_state c H PART_UPDATE IMG_STATE_FINAL_FLAGS s))
                     else s);
                s = snd (wb_flash_erase H boot (WOLFBOOT_PARTITION_SIZE c - eraseLen) eraseLen s);
                s = (if tmpBootPos < u32 (fw_size boot + IMAGE_HEADER_SIZE c)
                     then snd (wolfBoot_copy_sector c H swap boot
                                 (tmpBootPos div WOLFBOOT_SECTOR_SIZE c) s)
                     else snd (wb_flash_erase H boot tmpBootPos (WOLFBOOT_SECTOR_SIZE c) s));
                s = snd (wolfBoot_set_partition_state c H PART_BOOT IMG_STATE_TESTING s);
                s = snd (wb_flash_erase H update (WOLFBOOT_PARTITION_SIZE c - eraseLen) eraseLen s);
                s = hal_flash_lock H s
            in (0, s)))"

subsection \<open>The swap\<close>

definition wolfBoot_get_total_size :: "cfg \<Rightarrow> wolfBoot_image \<Rightarrow> wolfBoot_image \<Rightarrow> nat" where
  "wolfBoot_get_total_size c boot update =
     (let total_size = u32 (fw_size boot + IMAGE_HEADER_SIZE c)
      in if u32 (fw_size update + IMAGE_HEADER_SIZE c) > total_size
         then u32 (fw_size update + IMAGE_HEADER_SIZE c) else total_size)"

definition MAX_UPDATE_SIZE :: "cfg \<Rightarrow> nat" where
  "MAX_UPDATE_SIZE c =
     WOLFBOOT_PARTITION_SIZE c - IMAGE_HEADER_SIZE c
       - (if NVM_FLASH_WRITEONCE c then 2 * WOLFBOOT_SECTOR_SIZE c else WOLFBOOT_SECTOR_SIZE c)"

text \<open>The flag is recorded only for sectors below the last one, which holds the flags.\<close>

definition record_flag :: "cfg \<Rightarrow> 's hal \<Rightarrow> nat \<Rightarrow> byte \<Rightarrow> 's \<Rightarrow> 's" where
  "record_flag c H sector flag s =
     (if u32 ((sector + 1) * WOLFBOOT_SECTOR_SIZE c) < WOLFBOOT_PARTITION_SIZE c
      then snd (wolfBoot_set_update_sector_flag c H sector flag s) else s)"

text \<open>The three cases of the \<open>switch\<close>, each falling through to the next.\<close>

definition case_BACKUP ::
  "cfg \<Rightarrow> 's hal \<Rightarrow> wolfBoot_image \<Rightarrow> wolfBoot_image \<Rightarrow> nat \<Rightarrow> 's \<Rightarrow> int \<times> 's" where
  "case_BACKUP c H boot swap sector s =
     (let (copy_ret, s) = wolfBoot_copy_sector c H swap boot sector s
      in if copy_ret < 0 then (copy_ret, s)
         else (copy_ret, record_flag c H sector SECT_FLAG_UPDATED s))"

definition case_SWAPPING ::
  "cfg \<Rightarrow> 's hal \<Rightarrow> wolfBoot_image \<Rightarrow> wolfBoot_image \<Rightarrow> wolfBoot_image \<Rightarrow> nat \<Rightarrow> 's \<Rightarrow> int \<times> 's" where
  "case_SWAPPING c H boot update swap sector s =
     (let (copy_ret, s) = wolfBoot_copy_sector c H boot update sector s
      in if copy_ret < 0 then (copy_ret, s)
         else case_BACKUP c H boot swap sector (record_flag c H sector SECT_FLAG_BACKUP s))"

definition case_NEW ::
  "cfg \<Rightarrow> 's hal \<Rightarrow> wolfBoot_image \<Rightarrow> wolfBoot_image \<Rightarrow> wolfBoot_image \<Rightarrow> nat \<Rightarrow> 's \<Rightarrow> int \<times> 's" where
  "case_NEW c H boot update swap sector s =
     (let (copy_ret, s) = wolfBoot_copy_sector c H update swap sector s
      in if copy_ret < 0 then (copy_ret, s)
         else case_SWAPPING c H boot update swap sector (record_flag c H sector SECT_FLAG_SWAPPING s))"

definition swap_sector ::
  "cfg \<Rightarrow> 's hal \<Rightarrow> wolfBoot_image \<Rightarrow> wolfBoot_image \<Rightarrow> wolfBoot_image \<Rightarrow> nat \<Rightarrow> 's \<Rightarrow> int \<times> 's" where
  "swap_sector c H boot update swap sector s =
     (let (fl, s) = wolfBoot_get_update_sector_flag c H sector s;
          flag = (case fl of None \<Rightarrow> SECT_FLAG_NEW | Some v \<Rightarrow> v)
      in if flag = SECT_FLAG_NEW then case_NEW c H boot update swap sector s
         else if flag = SECT_FLAG_SWAPPING then case_SWAPPING c H boot update swap sector s
         else if flag = SECT_FLAG_BACKUP then case_BACKUP c H boot swap sector s
         else (0, s))"

text \<open>
  The swap loop from a given sector. After the first sector the headers are where they
  belong: the images are opened again, with their sizes exchanged. The result holds the
  images and the number of the first sector that was not swapped, or \<open>-1\<close> if a copy
  failed.
\<close>

partial_function (option) swap_loop ::
  "cfg \<Rightarrow> 's hal \<Rightarrow> wolfBoot_image \<Rightarrow> wolfBoot_image \<Rightarrow> wolfBoot_image \<Rightarrow> nat \<Rightarrow> nat \<Rightarrow> 's \<Rightarrow>
     (int \<times> wolfBoot_image \<times> wolfBoot_image \<times> nat \<times> 's) option" where
  "swap_loop c H boot update swap total_size sector s =
     (if u32 (sector * WOLFBOOT_SECTOR_SIZE c) < total_size then
        (let (copy_ret, s) = swap_sector c H boot update swap sector s
         in if copy_ret < 0 then Some (-1, boot, update, sector, hal_flash_lock H s)
            else
              (let sector = u32 (sector + 1)
               in if sector = 1 then
                    (let boot = snd (wolfBoot_open_image c (flash_mem H s) PART_BOOT);
                         update = snd (wolfBoot_open_image c (flash_mem H s) PART_UPDATE);
                         fw_sz = fw_size boot;
                         boot = boot\<lparr>fw_size := fw_size update\<rparr>;
                         update = update\<lparr>fw_size := fw_sz\<rparr>
                     in swap_loop c H boot update swap (wolfBoot_get_total_size c boot update) sector s)
                  else swap_loop c H boot update swap total_size sector s))
      else Some (0, boot, update, sector, s))"

text \<open>The loop that erases the rest of both partitions, one sector at a time.\<close>

partial_function (option) erase_rest ::
  "cfg \<Rightarrow> 's hal \<Rightarrow> wolfBoot_image \<Rightarrow> wolfBoot_image \<Rightarrow> nat \<Rightarrow> 's \<Rightarrow> 's option" where
  "erase_rest c H boot update sector s =
     (if u32 (sector * WOLFBOOT_SECTOR_SIZE c)
           < WOLFBOOT_PARTITION_SIZE c
             - WOLFBOOT_SECTOR_SIZE c * (if NVM_FLASH_WRITEONCE c then 2 else 1) then
        (let off = u32 (sector * WOLFBOOT_SECTOR_SIZE c);
             s = snd (wb_flash_erase H boot off (WOLFBOOT_SECTOR_SIZE c) s);
             s = snd (wb_flash_erase H update off (WOLFBOOT_SECTOR_SIZE c) s)
         in erase_rest c H boot update (u32 (sector + 1)) s)
      else Some s)"

definition wolfBoot_current_firmware_version :: "cfg \<Rightarrow> mem \<Rightarrow> nat" where
  "wolfBoot_current_firmware_version c m = wolfBoot_get_image_version c m PART_BOOT"

definition wolfBoot_update_firmware_version :: "cfg \<Rightarrow> mem \<Rightarrow> nat" where
  "wolfBoot_update_firmware_version c m = wolfBoot_get_image_version c m PART_UPDATE"

text \<open>
  The checks on a fresh update: \<open>None\<close> if they do not return, \<open>Some False\<close> if the
  update is refused.
\<close>

definition check_new_update ::
  "crypto \<Rightarrow> cfg \<Rightarrow> mem \<Rightarrow> wolfBoot_image \<Rightarrow> int \<Rightarrow> nat \<Rightarrow> nat \<Rightarrow> nat \<Rightarrow> bool option" where
  "check_new_update K c m update fallback_allowed update_type cur_ver upd_ver =
     (if update_type AND HDR_IMG_TYPE_PART_MASK \<noteq> HDR_IMG_TYPE_APP
         \<or> update_type AND HDR_IMG_TYPE_AUTH_MASK \<noteq> HDR_IMG_TYPE_AUTH_ED25519 then Some False
      else if fw_size update > MAX_UPDATE_SIZE c - 1 then Some False
      else if \<not> hdr_ok update then Some False
      else
        (case wolfBoot_verify_integrity K c m update of
           None \<Rightarrow> None
         | Some (ret, update) \<Rightarrow>
             if ret < 0 then Some False
             else
               (case wolfBoot_verify_authenticity K c m update of
                  None \<Rightarrow> None
                | Some (ret, update) \<Rightarrow>
                    if ret < 0 then Some False
                    else if \<not> (hdr_ok update \<and> sha_ok update \<and> signature_ok update) then None
                    else if \<not> ALLOW_DOWNGRADE c \<and> fallback_allowed = 0 \<and> cur_ver \<ge> upd_ver
                    then Some False
                    else Some True)))"

definition wolfBoot_update :: "crypto \<Rightarrow> cfg \<Rightarrow> 's hal \<Rightarrow> int \<Rightarrow> 's \<Rightarrow> (int \<times> 's) option" where
  "wolfBoot_update K c H fallback_allowed s =
     (let (update_open, update) = wolfBoot_open_image c (flash_mem H s) PART_UPDATE
      in if update_open < 0 then Some (-1, s)
         else
           (let boot = snd (wolfBoot_open_image c (flash_mem H s) PART_BOOT);
                swap = snd (wolfBoot_open_image c (flash_mem H s) PART_SWAP);
                total_size = wolfBoot_get_total_size c boot update
            in if total_size \<le> IMAGE_HEADER_SIZE c then Some (-1, s)
               else
                 (let update_type = wolfBoot_get_image_type c (flash_mem H s) PART_UPDATE;
                      cur_ver = wolfBoot_current_firmware_version c (flash_mem H s);
                      upd_ver = wolfBoot_update_firmware_version c (flash_mem H s);
                      (bs, s) = wolfBoot_get_partition_state c H PART_BOOT s;
                      rollback_needed = (bs = Some IMG_STATE_TESTING \<and> fallback_allowed \<noteq> 0
                                         \<and> cur_ver \<ge> upd_ver);
                      (fl, s) = wolfBoot_get_update_sector_flag c H 0 s;
                      flag = (case fl of None \<Rightarrow> SECT_FLAG_NEW | Some v \<Rightarrow> v)
                  in case (if flag = SECT_FLAG_NEW
                           then check_new_update K c (flash_mem H s) update fallback_allowed
                                  update_type cur_ver upd_ver
                           else Some True) of
                       None \<Rightarrow> None
                     | Some False \<Rightarrow> Some (-1, s)
                     | Some True \<Rightarrow>
                         (case swap_loop c H boot update swap total_size 0 (hal_flash_unlock H s) of
                            None \<Rightarrow> None
                          | Some (ret, boot, update, sector, s) \<Rightarrow>
                              if ret < 0 then Some (-1, s)
                              else
                                (case erase_rest c H boot update sector s of
                                   None \<Rightarrow> None
                                 | Some s \<Rightarrow>
                                     (let (ret, s) = wolfBoot_swap_and_final_erase c H False
                                                       (hal_flash_lock H s)
                                      in if ret \<noteq> 0 then Some (ret, s)
                                         else if rollback_needed then
                                           (let s = hal_flash_unlock H s;
                                                s = snd (wolfBoot_set_partition_state c H PART_BOOT
                                                           IMG_STATE_SUCCESS s);
                                                s = hal_flash_lock H s
                                            in Some (0, s))
                                         else Some (0, s)))))))"

subsection \<open>The boot decision\<close>

text \<open>
  Opening and verifying the BOOT image: \<open>None\<close> if it does not return, else the result
  (negative on failure) and the image.
\<close>

definition verify_boot :: "crypto \<Rightarrow> cfg \<Rightarrow> mem \<Rightarrow> (int \<times> wolfBoot_image) option" where
  "verify_boot K c m =
     (let (bootRet, boot) = wolfBoot_open_image c m PART_BOOT
      in if bootRet < 0 then Some (bootRet, boot)
         else
           (case wolfBoot_verify_integrity K c m boot of
              None \<Rightarrow> None
            | Some (bootRet, boot) \<Rightarrow>
                if bootRet < 0 then Some (bootRet, boot)
                else wolfBoot_verify_authenticity K c m boot))"

text \<open>The default \<open>hal_flash_protect\<close> of \<open>hal/hal.c\<close> does nothing and returns 0.\<close>

definition hal_flash_protect :: int where
  "hal_flash_protect = 0"

text \<open>
  \<open>wolfBoot_start\<close>: the address it jumps to and the device at that moment, or
  \<open>None\<close> if it does not start anything.
\<close>

definition wolfBoot_start :: "crypto \<Rightarrow> cfg \<Rightarrow> 's hal \<Rightarrow> 's \<Rightarrow> (nat \<times> 's) option" where
  "wolfBoot_start K c H s =
     (let s = (if NVM_FLASH_WRITEONCE c then hal_flash_unlock H s else s);
          (bootState, s) = wolfBoot_get_partition_state c H PART_BOOT s;
          (updateState, s) = wolfBoot_get_partition_state c H PART_UPDATE s;
          s = (if NVM_FLASH_WRITEONCE c then hal_flash_lock H s else s);
          (resumedFinalErase, s) = wolfBoot_swap_and_final_erase c H True s
      in case
           (if resumedFinalErase \<noteq> 0 \<or> bootState = Some IMG_STATE_TESTING then
              (if bootState = Some IMG_STATE_TESTING then
                 (let s = (if updateState = None then
                             hal_flash_lock H (snd (wolfBoot_set_partition_state c H PART_UPDATE
                               IMG_STATE_UPDATING (hal_flash_unlock H s)))
                           else s)
                  in map_option snd (wolfBoot_update K c H 1 s))
               else if updateState = Some IMG_STATE_UPDATING then
                 map_option snd (wolfBoot_update K c H 0 s)
               else Some s)
            else Some s) of
           None \<Rightarrow> None
         | Some s \<Rightarrow>
             (case verify_boot K c (flash_mem H s) of
                None \<Rightarrow> None
              | Some (bootRet, boot) \<Rightarrow>
                  (case
                     (if bootRet < 0 then
                        (case wolfBoot_update K c H 1 s of
                           None \<Rightarrow> None
                         | Some (ret, s) \<Rightarrow>
                             if ret < 0 then None
                             else
                               (case verify_boot K c (flash_mem H s) of
                                  None \<Rightarrow> None
                                | Some (ret, boot) \<Rightarrow> if ret < 0 then None else Some (boot, s)))
                      else Some (boot, s)) of
                     None \<Rightarrow> None
                   | Some (boot, s) \<Rightarrow>
                       if \<not> (hdr_ok boot \<and> sha_ok boot \<and> signature_ok boot) then None
                       else if hal_flash_protect < 0 then None
                       else Some (fw_base boot, s))))"

subsection \<open>What is booted is authentic\<close>

lemma open_image_ret: "wolfBoot_open_image c m p = (r, img) \<Longrightarrow> r = 0 \<or> r = -1"
  by (auto simp: wolfBoot_open_image_def wolfBoot_open_image_address_def Let_def split: if_splits)

text \<open>Integrity and authenticity only look at where the image is.\<close>

lemma get_header_cong: "img_hdr img' = img_hdr img \<Longrightarrow>
    wolfBoot_get_header c m img' t = wolfBoot_get_header c m img t"
  by (simp add: wolfBoot_get_header_def)

lemma intact_cong:
  "img_hdr img' = img_hdr img \<Longrightarrow> fw_base img' = fw_base img \<Longrightarrow> fw_size img' = fw_size img \<Longrightarrow>
     image_intact K c m img' stored = image_intact K c m img stored"
  by (simp only: image_intact_def hashed_bytes_def get_header_cong [of img' img])

lemma authentic_cong:
  "img_hdr img' = img_hdr img \<Longrightarrow> fw_base img' = fw_base img \<Longrightarrow> fw_size img' = fw_size img \<Longrightarrow>
     image_authentic K c m img' = image_authentic K c m img"
  by (simp only: image_authentic_def intact_cong [of img' img] get_header_cong [of img' img])

text \<open>
  Integrity followed by authenticity on an opened image: it always returns, and succeeds
  exactly for authentic images.
\<close>

lemma integrity_then_authenticity:
  assumes "fw_base img \<noteq> 0" "fw_size img < 2147483648" "\<And>x. length (wc_Sha256 K x) = 32"
    and "\<not> signature_ok img"
  shows "\<exists>r1 img1. wolfBoot_verify_integrity K c m img = Some (r1, img1)
    \<and> (r1 = 0 \<or> r1 = -1) \<and> hdr_ok img1 = hdr_ok img
    \<and> (r1 = -1 \<longrightarrow> \<not> image_authentic K c m img)
    \<and> (r1 = 0 \<longrightarrow> (\<exists>r2 img2. wolfBoot_verify_authenticity K c m img1 = Some (r2, img2)
         \<and> (r2 = 0 \<or> r2 < 0) \<and> (r2 = 0 \<longleftrightarrow> image_authentic K c m img)
         \<and> (r2 = 0 \<longrightarrow> sha_ok img2 \<and> signature_ok img2)
         \<and> hdr_ok img2 = hdr_ok img \<and> fw_base img2 = fw_base img \<and> fw_size img2 = fw_size img
         \<and> img_hdr img2 = img_hdr img))"
proof -
  obtain r1 img1 where v: "wolfBoot_verify_integrity K c m img = Some (r1, img1)"
    "r1 = 0 \<or> r1 = -1" "r1 = 0 \<longleftrightarrow> (\<exists>stored. image_intact K c m img stored)"
    "img1 = img\<lparr>sha_hash := (if r1 = 0 then snd (wolfBoot_get_header c m img HDR_SHA256) else 0),
                 sha_ok := (r1 = 0)\<rparr>"
    using verify_integrity_iff [OF assms(1-3), of c m] by blast
  have na: "r1 = -1 \<longrightarrow> \<not> image_authentic K c m img"
    using v(3) by (auto simp: image_authentic_def)
  have same: "img_hdr img1 = img_hdr img" "fw_base img1 = fw_base img" "fw_size img1 = fw_size img"
    "hdr_ok img1 = hdr_ok img" "signature_ok img1 = signature_ok img"
    by (simp_all add: v(4))
  have cache: "sha_cache_ok K c m img1" if r: "r1 = 0"
  proof -
    obtain stored where "image_intact K c m img stored"
      using r v(3) by blast
    then have "image_intact K c m img1 stored" "sha_hash img1 = stored"
      using r intact_cong [OF same(1-3), of K c m stored] by (simp, simp add: v(4) image_intact_def)
    then show ?thesis
      by (simp add: sha_cache_ok_def)
  qed
  have "\<exists>r2 img2. wolfBoot_verify_authenticity K c m img1 = Some (r2, img2)
         \<and> (r2 = 0 \<or> r2 < 0) \<and> (r2 = 0 \<longleftrightarrow> image_authentic K c m img)
         \<and> (r2 = 0 \<longrightarrow> sha_ok img2 \<and> signature_ok img2)
         \<and> hdr_ok img2 = hdr_ok img \<and> fw_base img2 = fw_base img \<and> fw_size img2 = fw_size img
         \<and> img_hdr img2 = img_hdr img" if r: "r1 = 0"
  proof -
    obtain r2 img2 where a: "wolfBoot_verify_authenticity K c m img1 = Some (r2, img2)"
      "r2 \<le> 0" "r2 = 0 \<longleftrightarrow> image_authentic K c m img1"
      "r2 = 0 \<longrightarrow> sha_ok img2 \<and> signature_ok img2 \<and> image_intact K c m img1 (sha_hash img2)"
      "img_hdr img2 = img_hdr img1" "hdr_ok img2 = hdr_ok img1" "fw_base img2 = fw_base img1"
      "fw_size img2 = fw_size img1"
      using verify_authenticity_iff [of img1 K c m] assms same cache [OF r] by auto
    show ?thesis
      using a authentic_cong [OF same(1-3), of K c m] unfolding same
      by (intro exI [of _ r2] exI [of _ img2]) linarith
  qed
  with v(1,2) na same(4) show ?thesis
    by blast
qed


text \<open>The BOOT image is there and authentic.\<close>

definition boot_authentic :: "crypto \<Rightarrow> cfg \<Rightarrow> mem \<Rightarrow> bool" where
  "boot_authentic K c m \<longleftrightarrow>
     (\<exists>img. wolfBoot_open_image c m PART_BOOT = (0, img) \<and> image_authentic K c m img)"

lemma verify_boot_iff:
  assumes "cfg_ok c" "\<And>x. length (wc_Sha256 K x) = 32"
  shows "\<exists>r img. verify_boot K c m = Some (r, img) \<and> (r = 0 \<or> r < 0)
    \<and> (r = 0 \<longleftrightarrow> boot_authentic K c m)
    \<and> (r = 0 \<longrightarrow> hdr_ok img \<and> sha_ok img \<and> signature_ok img
         \<and> fw_base img = WOLFBOOT_PARTITION_BOOT_ADDRESS c + IMAGE_HEADER_SIZE c)"
proof -
  obtain r0 img where o: "wolfBoot_open_image c m PART_BOOT = (r0, img)"
    by fastforce
  from open_image_ret [OF o] show ?thesis
  proof
    assume "r0 = -1"
    then show ?thesis
      using o by (simp add: verify_boot_def boot_authentic_def)
  next
    assume r0: "r0 = 0"
    note ok = open_image_ok [OF assms(1) o [unfolded r0]]
    have b: "boot_authentic K c m = image_authentic K c m img"
      using o r0 by (simp add: boot_authentic_def)
    obtain r1 img1 where v: "wolfBoot_verify_integrity K c m img = Some (r1, img1)"
      "r1 = 0 \<or> r1 = -1" "r1 = -1 \<longrightarrow> \<not> image_authentic K c m img"
      "r1 = 0 \<longrightarrow> (\<exists>r2 img2. wolfBoot_verify_authenticity K c m img1 = Some (r2, img2)
         \<and> (r2 = 0 \<or> r2 < 0) \<and> (r2 = 0 \<longleftrightarrow> image_authentic K c m img)
         \<and> (r2 = 0 \<longrightarrow> sha_ok img2 \<and> signature_ok img2)
         \<and> hdr_ok img2 = hdr_ok img \<and> fw_base img2 = fw_base img \<and> fw_size img2 = fw_size img
         \<and> img_hdr img2 = img_hdr img)"
      using integrity_then_authenticity [OF ok(11) ok(12) assms(2) ok(9), of c m] by blast
    show ?thesis
    proof (cases "r1 = 0")
      case True
      then obtain r2 img2 where a: "wolfBoot_verify_authenticity K c m img1 = Some (r2, img2)"
        "r2 = 0 \<or> r2 < 0" "r2 = 0 \<longleftrightarrow> image_authentic K c m img"
        "r2 = 0 \<longrightarrow> sha_ok img2 \<and> signature_ok img2"
        "hdr_ok img2 = hdr_ok img" "fw_base img2 = fw_base img"
        using v(4) by blast
      have "verify_boot K c m = Some (r2, img2)"
        using o r0 v(1) True a(1) by (simp add: verify_boot_def)
      then show ?thesis
        using a b ok by simp
    next
      case False
      then have "verify_boot K c m = Some (-1, img1)"
        using o r0 v(1,2) by (simp add: verify_boot_def)
      then show ?thesis
        using False v(2,3) b by simp
    qed
  qed
qed

lemma start_boots_authentic_lemma:
  assumes "cfg_ok c" "\<And>x. length (wc_Sha256 K x) = 32"
    and "wolfBoot_start K c H s = Some (entry, s')"
  shows "boot_authentic K c (flash_mem H s')
    \<and> entry = WOLFBOOT_PARTITION_BOOT_ADDRESS c + IMAGE_HEADER_SIZE c"
proof -
  have key: "boot_authentic K c m \<and> fw_base img = WOLFBOOT_PARTITION_BOOT_ADDRESS c + IMAGE_HEADER_SIZE c"
    if "verify_boot K c m = Some (r, img)" "\<not> r < 0" for m r img
    using verify_boot_iff [OF assms(1,2), of m] that by auto
  from assms(3) show ?thesis
    unfolding wolfBoot_start_def Let_def
    by (auto split: prod.splits option.splits if_splits dest!: key)
qed

end
