(* ===== verification/Swap.thy ===== *)
theory Swap
  imports Update
begin

text \<open>
  The three-way sector swap of \<open>src/update_flash.c\<close>: what \<open>wolfBoot_copy_sector\<close> leaves in
  the flash, the invariant that ties the flag of every sector to the contents of the three
  partitions, and its preservation by every step of the swap, also by one cut short by a
  power failure.
\<close>

subsection \<open>Copying a sector, on any flash\<close>

text \<open>
  The bytes that \<open>wolfBoot_copy_sector\<close> leaves in the destination: the source bytes of
  every chunk that starts before the end of the image (and one buffer more), erased bytes
  after that.
\<close>

definition sector_copy :: "cfg \<Rightarrow> mem \<Rightarrow> nat \<Rightarrow> nat \<Rightarrow> nat \<Rightarrow> byte list" where
  "sector_copy c m a off f =
     map (\<lambda>x. if off + x div FLASHBUFFER_SIZE c * FLASHBUFFER_SIZE c
                  < f + IMAGE_HEADER_SIZE c + FLASHBUFFER_SIZE c then m (a + x) else 255)
       [0..<WOLFBOOT_SECTOR_SIZE c]"

lemma length_sector_copy [simp]: "length (sector_copy c m a off f) = WOLFBOOT_SECTOR_SIZE c"
  by (simp add: sector_copy_def)

lemma chunk_offsets_eq:
  assumes "cfg_ok c"
  shows "chunk_offsets c = map (\<lambda>i. i * FLASHBUFFER_SIZE c) [0..<WOLFBOOT_SECTOR_SIZE c div FLASHBUFFER_SIZE c]"
    "WOLFBOOT_SECTOR_SIZE c div FLASHBUFFER_SIZE c * FLASHBUFFER_SIZE c = WOLFBOOT_SECTOR_SIZE c"
proof -
  let ?ss = "WOLFBOOT_SECTOR_SIZE c" and ?fb = "FLASHBUFFER_SIZE c"
  have d: "0 < ?fb" "?fb dvd ?ss"
    using cfg_okD [OF assms] by auto
  then show "?ss div ?fb * ?fb = ?ss"
    by simp
  have "(?ss + ?fb - 1) div ?fb = ?ss div ?fb"
  proof -
    obtain k where k: "?ss = ?fb * k"
      using d(2) by (auto elim: dvdE)
    have "(?fb * k + ?fb - 1) div ?fb = k"
      using d(1) by (intro div_nat_eqI) auto
    with k d show ?thesis
      by simp
  qed
  then show "chunk_offsets c = map (\<lambda>i. i * ?fb) [0..<?ss div ?fb]"
    by (simp add: chunk_offsets_def)
qed

text \<open>The memory after the first \<open>k\<close> chunks.\<close>

definition copy_state :: "cfg \<Rightarrow> mem \<Rightarrow> nat \<Rightarrow> byte list \<Rightarrow> nat \<Rightarrow> mem" where
  "copy_state c m d L k =
     mwrite (mfill m d (WOLFBOOT_SECTOR_SIZE c) 255) d (take (k * FLASHBUFFER_SIZE c) L)"

lemma copy_state_0: "copy_state c m d L 0 = mfill m d (WOLFBOOT_SECTOR_SIZE c) 255"
  by (simp add: copy_state_def)

lemma copy_state_end:
  assumes "length L = WOLFBOOT_SECTOR_SIZE c" "k * FLASHBUFFER_SIZE c = WOLFBOOT_SECTOR_SIZE c"
  shows "copy_state c m d L k = mwrite m d L"
  using assms by (auto simp: copy_state_def fun_eq_iff mem_simps)

lemma copy_state_frame:
  assumes "length L = WOLFBOOT_SECTOR_SIZE c"
  shows "same_outside d (WOLFBOOT_SECTOR_SIZE c) m (copy_state c m d L k)"
  using assms by (auto simp: copy_state_def same_outside_def mem_simps)

lemma copy_state_Suc:
  assumes "length L = WOLFBOOT_SECTOR_SIZE c" "Suc k * FLASHBUFFER_SIZE c \<le> WOLFBOOT_SECTOR_SIZE c"
  shows "copy_state c m d L (Suc k) =
    mwrite (copy_state c m d L k) (d + k * FLASHBUFFER_SIZE c)
      (take (FLASHBUFFER_SIZE c) (drop (k * FLASHBUFFER_SIZE c) L))"
  using assms by (auto simp: copy_state_def fun_eq_iff mem_simps)

lemma copy_state_erased:
  assumes "j < FLASHBUFFER_SIZE c" "length L = WOLFBOOT_SECTOR_SIZE c"
    "Suc k * FLASHBUFFER_SIZE c \<le> WOLFBOOT_SECTOR_SIZE c"
  shows "copy_state c m d L k (d + k * FLASHBUFFER_SIZE c + j) = 255"
  using assms by (auto simp: copy_state_def mem_simps)

lemma chunk_div: "j < b \<Longrightarrow> (k * b + j) div b = k" for j :: nat
  by (intro div_nat_eqI) auto

lemma sector_copy_chunk:
  assumes "Suc k * FLASHBUFFER_SIZE c \<le> WOLFBOOT_SECTOR_SIZE c"
  shows "take (FLASHBUFFER_SIZE c) (drop (k * FLASHBUFFER_SIZE c) (sector_copy c m a off f)) =
    (if off + k * FLASHBUFFER_SIZE c < f + IMAGE_HEADER_SIZE c + FLASHBUFFER_SIZE c
     then mread m (a + k * FLASHBUFFER_SIZE c) (FLASHBUFFER_SIZE c)
     else replicate (FLASHBUFFER_SIZE c) 255)"
  using assms
  by (intro nth_equalityI) (auto simp: sector_copy_def chunk_div add.assoc)

lemma copy_state_skip:
  assumes "length L = WOLFBOOT_SECTOR_SIZE c" "Suc k * FLASHBUFFER_SIZE c \<le> WOLFBOOT_SECTOR_SIZE c"
    "take (FLASHBUFFER_SIZE c) (drop (k * FLASHBUFFER_SIZE c) L) = replicate (FLASHBUFFER_SIZE c) 255"
  shows "copy_state c m d L (Suc k) = copy_state c m d L k"
proof (rule ext)
  fix x
  show "copy_state c m d L (Suc k) x = copy_state c m d L k x"
    using copy_state_erased [of "x - (d + k * FLASHBUFFER_SIZE c)" c L k m d] assms(1,2)
    unfolding copy_state_Suc [OF assms(1,2)] assms(3)
    by (auto simp: mem_simps)
qed

text \<open>No wrap-around in the test of the copy loop.\<close>

lemma copy_guard:
  assumes "cfg_ok c" "off < 2147483648" "k * FLASHBUFFER_SIZE c < WOLFBOOT_SECTOR_SIZE c"
    "f < 2147483648"
  shows "u32 (off + k * FLASHBUFFER_SIZE c) < u32 (f + IMAGE_HEADER_SIZE c + FLASHBUFFER_SIZE c)
    \<longleftrightarrow> off + k * FLASHBUFFER_SIZE c < f + IMAGE_HEADER_SIZE c + FLASHBUFFER_SIZE c"
proof -
  note d = cfg_okD [OF assms(1)]
  have "FLASHBUFFER_SIZE c \<le> WOLFBOOT_SECTOR_SIZE c" "WOLFBOOT_SECTOR_SIZE c \<le> 536870912"
    using d(2,4,6,12) dvd_imp_le [OF d(2)] by auto
  with assms d have "off + k * FLASHBUFFER_SIZE c < 2 ^ 32"
    "f + IMAGE_HEADER_SIZE c + FLASHBUFFER_SIZE c < 2 ^ 32"
    by auto
  then show ?thesis
    by (simp only: u32_id)
qed

context flash_dev
begin

lemma frozen_copy_chunks: "frozen (\<lambda>s. snd (copy_chunks c H src dst so do ps s))"
proof (induction ps)
  case Nil
  then show ?case
    by (simp add: frozen_def)
next
  case (Cons p ps)
  show ?case
    unfolding frozen_def
  proof (intro allI impI)
    fix s
    assume s: "dead s"
    define w where "w = wb_flash_write H dst (do + p) (mread (flash_mem H s) (img_hdr src + so + p) (FLASHBUFFER_SIZE c)) s"
    have "dead (snd w) \<and> flash_mem H (snd w) = flash_mem H s"
      using frozen_write s by (simp add: w_def wb_flash_write_def frozen_def)
    with s Cons show "dead (snd (copy_chunks c H src dst so do (p # ps) s))
        \<and> flash_mem H (snd (copy_chunks c H src dst so do (p # ps) s)) = flash_mem H s"
      by (simp add: w_def [symmetric] frozen_def split_def)
  qed
qed

lemma frozen_copy_sector: "frozen (\<lambda>s. snd (wolfBoot_copy_sector c H src dst sector s))"
proof -
  have "snd (wolfBoot_copy_sector c H src dst sector s) =
    (let off = u32 (sector * WOLFBOOT_SECTOR_SIZE c);
          src_off = (if img_part src = PART_SWAP then 0 else off);
          dst_off = (if img_part dst = PART_SWAP then 0 else off);
          r = wb_flash_erase H dst dst_off (WOLFBOOT_SECTOR_SIZE c) s
     in if fst r < 0 then snd r else snd (copy_chunks c H src dst src_off dst_off (chunk_offsets c) (snd r)))" for s
    by (simp add: wolfBoot_copy_sector_def split_def Let_def)
  then show ?thesis
    using frozen_erase frozen_copy_chunks
    by (simp add: frozen_def wb_flash_erase_def Let_def)
qed

lemma copy_chunks_outcome:
  assumes "cfg_ok c" "so < 2147483648" "fw_size src < 2147483648"
    and "a = img_hdr src + so" "d = img_hdr dst + do"
    and "a + WOLFBOOT_SECTOR_SIZE c \<le> d \<or> d + WOLFBOOT_SECTOR_SIZE c \<le> a"
    and "L = sector_copy c m a so (fw_size src)"
  shows "k \<le> WOLFBOOT_SECTOR_SIZE c div FLASHBUFFER_SIZE c \<Longrightarrow> alive s \<Longrightarrow> unlocked s \<Longrightarrow>
    flash_mem H s = copy_state c m d L k \<Longrightarrow>
    R = copy_chunks c H src dst so do
          (map (\<lambda>i. i * FLASHBUFFER_SIZE c) [k..<WOLFBOOT_SECTOR_SIZE c div FLASHBUFFER_SIZE c]) s \<Longrightarrow>
    outcome (mwrite m d L) (same_outside d (WOLFBOOT_SECTOR_SIZE c) m) (snd R)
      \<and> (alive (snd R) \<longrightarrow> 0 \<le> fst R)"
proof (induction "WOLFBOOT_SECTOR_SIZE c div FLASHBUFFER_SIZE c - k" arbitrary: k s R)
  case 0
  let ?K = "WOLFBOOT_SECTOR_SIZE c div FLASHBUFFER_SIZE c"
  have "k = ?K"
    using 0 by simp
  then have "flash_mem H s = mwrite m d L"
    using "0.prems"(4) copy_state_end [of L c ?K m d] chunk_offsets_eq(2) [OF assms(1)]
    by (simp add: assms(7))
  then show ?case
    using 0 \<open>k = ?K\<close> by (auto intro!: outcome_refl)
next
  case (Suc n)
  let ?fb = "FLASHBUFFER_SIZE c" and ?ss = "WOLFBOOT_SECTOR_SIZE c"
  let ?K = "?ss div ?fb"
  let ?off = "\<lambda>i. i * ?fb"
  note fb = chunk_offsets_eq(2) [OF assms(1)]
  have k: "k < ?K"
    using Suc.hyps(2) by simp
  have fit: "Suc k * ?fb \<le> ?ss"
    using mult_le_mono1 [of "Suc k" ?K ?fb] k fb by simp
  have fbpos: "0 < ?fb"
    by (rule cfg_okD [OF assms(1)])
  have len: "length L = ?ss"
    by (simp add: assms(7))
  have guard: "u32 (so + k * ?fb) < u32 (fw_size src + IMAGE_HEADER_SIZE c + ?fb)
      \<longleftrightarrow> so + k * ?fb < fw_size src + IMAGE_HEADER_SIZE c + ?fb"
    by (rule copy_guard [OF assms(1,2) _ assms(3)]) (use fit fbpos in simp)
  have upt: "map ?off [k..<?K] = k * ?fb # map ?off [Suc k..<?K]"
    using k by (simp add: upt_conv_Cons)
  note IH = Suc.hyps(1) [of "Suc k"]
  show ?case
  proof (cases "so + k * ?fb < fw_size src + IMAGE_HEADER_SIZE c + ?fb")
    case True
    let ?data = "mread (flash_mem H s) (img_hdr src + so + k * ?fb) ?fb"
    define W where "W = hal_flash_write H (img_hdr dst + (do + k * ?fb)) ?data s"
    have data: "?data = take ?fb (drop (k * ?fb) L)"
    proof -
      have "?data = mread m (a + k * ?fb) ?fb"
        unfolding Suc.prems(4) assms(4) [symmetric]
        by (rule same_outside_mread [OF copy_state_frame [OF len]]) (use assms(6) fit in auto)
      then show ?thesis
        using True by (simp add: assms(7) sector_copy_chunk [OF fit])
    qed
    have addr: "img_hdr dst + (do + k * ?fb) = d + k * ?fb"
      by (simp add: assms(5))
    have er: "flash_mem H s (d + k * ?fb + i) = 255" if "i < length ?data" for i
      unfolding Suc.prems(4) using that by (intro copy_state_erased [OF _ len fit]) simp
    have nxt: "mwrite (flash_mem H s) (d + k * ?fb) ?data = copy_state c m d L (Suc k)"
      unfolding data using copy_state_Suc [OF len fit] by (simp add: Suc.prems(4))
    have "outcome (mwrite (flash_mem H s) (d + k * ?fb) ?data)
        (\<lambda>m'. \<exists>j\<le>length ?data. m' = mwrite (flash_mem H s) (d + k * ?fb) (take j ?data)) (snd W)"
      unfolding W_def addr by (rule write_erased_outcome [OF Suc.prems(2,3)]) (rule er)
    then have W: "outcome (copy_state c m d L (Suc k)) (same_outside d ?ss m) (snd W)"
      unfolding nxt
    proof (rule outcome_mono)
      fix m'
      assume "\<exists>j\<le>length ?data. m' = mwrite (flash_mem H s) (d + k * ?fb) (take j ?data)"
      then show "same_outside d ?ss m m'"
        using copy_state_frame [OF len, of d m k] fit
        by (auto simp: Suc.prems(4) same_outside_def mem_simps)
    qed
    have run: "R = (if fst W < 0 then (-1, snd W)
        else copy_chunks c H src dst so do (map ?off [Suc k..<?K]) (snd W))"
      unfolding Suc.prems(5) upt copy_chunks.simps
      using True guard by (simp add: wb_flash_write_def W_def Let_def split_def)
    show ?thesis
    proof (cases "dead (snd W)")
      case True
      then have "dead (snd R) \<and> flash_mem H (snd R) = flash_mem H (snd W)"
        unfolding run using frozen_copy_chunks by (auto simp: frozen_def)
      then show ?thesis
        using outcome_dead [OF W True] alive_not_dead by (auto simp: outcome_def)
    next
      case False
      then have a: "alive (snd W)" "unlocked (snd W)" "flash_mem H (snd W) = copy_state c m d L (Suc k)"
        using W by (auto simp: outcome_def)
      have "fst W = 0"
        using write_erased_ret [OF Suc.prems(2,3), of ?data "d + k * ?fb"] er a(1)
        by (simp add: W_def addr)
      then show ?thesis
        using run a k Suc.hyps(2) by (intro IH) auto
    qed
  next
    case False
    have "copy_state c m d L (Suc k) = copy_state c m d L k"
      using False sector_copy_chunk [OF fit, of m a so "fw_size src"]
      by (intro copy_state_skip [OF len fit]) (simp add: assms(7))
    moreover have "R = copy_chunks c H src dst so do (map ?off [Suc k..<?K]) s"
      unfolding Suc.prems(5) upt copy_chunks.simps using False guard by simp
    ultimately show ?thesis
      using Suc.prems k Suc.hyps(2) by (intro IH) auto
  qed
qed

lemma copy_sector_outcome:
  assumes "cfg_ok c" "sector * WOLFBOOT_SECTOR_SIZE c < 2147483648" "fw_size src < 2147483648"
    and "alive s" "unlocked s"
    and so: "so = (if img_part src = PART_SWAP then 0 else sector * WOLFBOOT_SECTOR_SIZE c)"
    and do: "do = (if img_part dst = PART_SWAP then 0 else sector * WOLFBOOT_SECTOR_SIZE c)"
    and "a = img_hdr src + so" "d = img_hdr dst + do"
    and "a + WOLFBOOT_SECTOR_SIZE c \<le> d \<or> d + WOLFBOOT_SECTOR_SIZE c \<le> a"
    and R: "R = wolfBoot_copy_sector c H src dst sector s"
  shows "outcome (mwrite (flash_mem H s) d (sector_copy c (flash_mem H s) a so (fw_size src)))
      (same_outside d (WOLFBOOT_SECTOR_SIZE c) (flash_mem H s)) (snd R)
    \<and> (alive (snd R) \<longrightarrow> 0 \<le> fst R)"
proof -
  let ?ss = "WOLFBOOT_SECTOR_SIZE c" and ?m = "flash_mem H s"
  let ?L = "sector_copy c ?m a so (fw_size src)"
  have u: "u32 (sector * ?ss) = sector * ?ss"
    using assms(2) by (simp add: u32_id)
  have so31: "so < 2147483648"
    using assms(2) so by simp
  define E where "E = hal_flash_erase H d ?ss s"
  have run: "R = (if fst E < 0 then (-1, snd E)
      else copy_chunks c H src dst so do
        (map (\<lambda>i. i * FLASHBUFFER_SIZE c) [0..<?ss div FLASHBUFFER_SIZE c]) (snd E))"
    unfolding R E_def wolfBoot_copy_sector_def Let_def u so [symmetric] do [symmetric] wb_flash_erase_def
      assms(9) [symmetric] chunk_offsets_eq(1) [OF assms(1)]
    by (simp add: split_def)
  have E: "outcome (mfill ?m d ?ss 255) (same_outside d ?ss ?m) (snd E)"
    unfolding E_def by (rule erase_outcome [OF assms(4,5)])
  show ?thesis
  proof (cases "dead (snd E)")
    case True
    then have "dead (snd R) \<and> flash_mem H (snd R) = flash_mem H (snd E)"
      unfolding run using frozen_copy_chunks by (auto simp: frozen_def)
    then show ?thesis
      using outcome_dead [OF E True] alive_not_dead by (auto simp: outcome_def)
  next
    case False
    then have a: "alive (snd E)" "unlocked (snd E)" "flash_mem H (snd E) = copy_state c ?m d ?L 0"
      using E by (auto simp: outcome_def copy_state_0)
    have "fst E = 0"
      using erase_ret [OF assms(4,5)] a(1) by (simp add: E_def)
    with run show ?thesis
      by (intro copy_chunks_outcome [OF assms(1) so31 assms(3) assms(8,9,10) refl _ a]) simp_all
  qed
qed

end

subsection \<open>Regions of the swap\<close>

text \<open>
  The sectors that the swap touches: those of BOOT and UPDATE below the last one, which
  holds flags, and the SWAP sector.
\<close>

datatype region = RBoot nat | RUpd nat | RSwap

fun reg_addr :: "cfg \<Rightarrow> region \<Rightarrow> nat" where
  "reg_addr c (RBoot i) = WOLFBOOT_PARTITION_BOOT_ADDRESS c + i * WOLFBOOT_SECTOR_SIZE c"
| "reg_addr c (RUpd i) = WOLFBOOT_PARTITION_UPDATE_ADDRESS c + i * WOLFBOOT_SECTOR_SIZE c"
| "reg_addr c RSwap = WOLFBOOT_PARTITION_SWAP_ADDRESS c"

fun reg_valid :: "cfg \<Rightarrow> region \<Rightarrow> bool" where
  "reg_valid c (RBoot i) \<longleftrightarrow> i + 1 < n_sectors c"
| "reg_valid c (RUpd i) \<longleftrightarrow> i + 1 < n_sectors c"
| "reg_valid c RSwap \<longleftrightarrow> True"

definition sec :: "cfg \<Rightarrow> mem \<Rightarrow> region \<Rightarrow> byte list" where
  "sec c m r = mread m (reg_addr c r) (WOLFBOOT_SECTOR_SIZE c)"

lemma length_sec [simp]: "length (sec c m r) = WOLFBOOT_SECTOR_SIZE c"
  by (simp add: sec_def)

lemma n_sectors_size:
  assumes "cfg_ok c"
  shows "n_sectors c * WOLFBOOT_SECTOR_SIZE c = WOLFBOOT_PARTITION_SIZE c" "4 \<le> n_sectors c"
proof -
  note d = cfg_okD [OF assms]
  show e: "n_sectors c * WOLFBOOT_SECTOR_SIZE c = WOLFBOOT_PARTITION_SIZE c"
    using d(3) by (simp add: n_sectors_def)
  have "4 * WOLFBOOT_SECTOR_SIZE c \<le> n_sectors c * WOLFBOOT_SECTOR_SIZE c"
    using d(4) e by simp
  then show "4 \<le> n_sectors c"
    using d(6) by simp
qed

lemma sector_in_partition:
  assumes "cfg_ok c" "i + 1 < n_sectors c"
  shows "i * WOLFBOOT_SECTOR_SIZE c + 2 * WOLFBOOT_SECTOR_SIZE c \<le> WOLFBOOT_PARTITION_SIZE c"
proof -
  have "(i + 2) * WOLFBOOT_SECTOR_SIZE c \<le> n_sectors c * WOLFBOOT_SECTOR_SIZE c"
    using assms(2) by (intro mult_le_mono1) simp
  then show ?thesis
    using n_sectors_size [OF assms(1)] by (simp add: add_mult_distrib)
qed

lemma sectors_apart: "i \<noteq> j \<Longrightarrow> i * n + n \<le> j * n \<or> j * n + n \<le> i * n" for n :: nat
  by (metis add.commute linorder_neqE_nat mult_Suc mult_le_mono1 Suc_leI)

lemma reg_disjoint:
  assumes "cfg_ok c" "reg_valid c r" "reg_valid c r'" "r \<noteq> r'"
  shows "reg_addr c r + WOLFBOOT_SECTOR_SIZE c \<le> reg_addr c r'
    \<or> reg_addr c r' + WOLFBOOT_SECTOR_SIZE c \<le> reg_addr c r"
proof -
  note p = cfg_ok_disjoint [OF assms(1)] sector_in_partition [OF assms(1)]
  show ?thesis
    using assms(2-4) p sectors_apart [of _ _ "WOLFBOOT_SECTOR_SIZE c"]
    by (cases r; cases r') (force+)
qed

subsection \<open>Contents of the regions\<close>

lemma nvm_addrErase_update_cases:
  "nvm_addrErase c PART_UPDATE = WOLFBOOT_PARTITION_BOOT_ADDRESS c + WOLFBOOT_PARTITION_SIZE c - WOLFBOOT_SECTOR_SIZE c
   \<or> nvm_addrErase c PART_UPDATE = WOLFBOOT_PARTITION_UPDATE_ADDRESS c + WOLFBOOT_PARTITION_SIZE c - WOLFBOOT_SECTOR_SIZE c"
  by (auto simp: nvm_addrErase_def)

lemma reg_flags_disjoint:
  assumes "cfg_ok c" "reg_valid c r"
  shows "reg_addr c r + WOLFBOOT_SECTOR_SIZE c \<le> nvm_addrErase c PART_UPDATE
    \<or> nvm_addrErase c PART_UPDATE + WOLFBOOT_SECTOR_SIZE c \<le> reg_addr c r"
proof -
  note p = cfg_ok_disjoint [OF assms(1)] sector_in_partition [OF assms(1)] cfg_okD(4) [OF assms(1)]
  show ?thesis
    using assms(2) p nvm_addrErase_update_cases [of c] by (cases r) (force+)
qed

lemma mread_same_outside:
  "same_outside a n m m' \<Longrightarrow> a + n \<le> b \<or> b + k \<le> a \<Longrightarrow> mread m' b k = mread m b k"
  by (rule nth_equalityI) (auto simp: mread_def same_outside_def)

lemma sec_other:
  assumes "cfg_ok c" "reg_valid c r" "reg_valid c r'" "r \<noteq> r'"
    and "same_outside (reg_addr c r) (WOLFBOOT_SECTOR_SIZE c) m m'"
  shows "sec c m' r' = sec c m r'"
  unfolding sec_def using mread_same_outside [OF assms(5)] reg_disjoint [OF assms(1-4)] by blast

lemma sec_write [simp]: "length L = WOLFBOOT_SECTOR_SIZE c \<Longrightarrow> sec c (mwrite m (reg_addr c r) L) r = L"
  by (simp add: sec_def mread_mwrite_same)

text \<open>The magic, state and flags of UPDATE are in its flags sector.\<close>

definition flags_same :: "cfg \<Rightarrow> mem \<Rightarrow> mem \<Rightarrow> bool" where
  "flags_same c m m' \<longleftrightarrow>
     (\<forall>x. nvm_addrErase c PART_UPDATE \<le> x \<and> x < nvm_addrErase c PART_UPDATE + WOLFBOOT_SECTOR_SIZE c
          \<longrightarrow> m' x = m x)"

lemma flags_same_reg:
  assumes "cfg_ok c" "reg_valid c r" "same_outside (reg_addr c r) (WOLFBOOT_SECTOR_SIZE c) m m'"
  shows "flags_same c m m'"
  using assms(3) reg_flags_disjoint [OF assms(1,2)] by (auto simp: flags_same_def same_outside_def)

lemma flags_in_sector:
  assumes "cfg_ok c" "i < n_sectors c"
  shows "nvm_addrErase c PART_UPDATE \<le> trailer_addr c PART_UPDATE (2 + i div 2)"
    "nvm_addrErase c PART_UPDATE \<le> trailer_addr c PART_UPDATE 1"
    "trailer_addr c PART_UPDATE 0 + 4 \<le> nvm_addrErase c PART_UPDATE + WOLFBOOT_SECTOR_SIZE c"
proof -
  note d = cfg_okD [OF assms(1)]
  show "nvm_addrErase c PART_UPDATE \<le> trailer_addr c PART_UPDATE (2 + i div 2)"
    by (rule last_sector_has_flags [OF assms(1)]) (use assms(2) d(5) in \<open>simp add: n_sectors_def\<close>)
  show "nvm_addrErase c PART_UPDATE \<le> trailer_addr c PART_UPDATE 1"
    by (rule last_sector_has_flags [OF assms(1)]) (use d(6) in simp)
  show "trailer_addr c PART_UPDATE 0 + 4 \<le> nvm_addrErase c PART_UPDATE + WOLFBOOT_SECTOR_SIZE c"
    by (rule last_sector_has_flags [OF assms(1)])
qed

lemma flags_sameD:
  assumes "cfg_ok c" "flags_same c m m'"
  shows "part_state c PART_UPDATE m' = part_state c PART_UPDATE m"
    "has_magic c PART_UPDATE m' = has_magic c PART_UPDATE m"
    "i < n_sectors c \<Longrightarrow> sector_flag c i m' = sector_flag c i m"
proof -
  have n: "0 < n_sectors c"
    using n_sectors_size(2) [OF assms(1)] by simp
  note fl = flags_in_sector [OF assms(1)]
  show p: "part_state c PART_UPDATE m' = part_state c PART_UPDATE m"
    by (rule part_state_cong [OF assms(1)])
      (use assms(2) fl(2,3) [OF n] in \<open>auto simp: flags_same_def\<close>)
  show "has_magic c PART_UPDATE m' = has_magic c PART_UPDATE m"
    using p by (auto simp: part_state_def split: if_splits)
  show "sector_flag c i m' = sector_flag c i m" if "i < n_sectors c"
    by (rule sector_flag_cong [OF assms(1) that])
      (use assms(2) fl [OF that] in \<open>auto simp: flags_same_def\<close>)
qed

lemma sec_set_flag:
  assumes "cfg_ok c" "i < n_sectors c" "reg_valid c r"
  shows "sec c (set_flag_mem c i v m) r = sec c m r"
proof -
  have "trailer_addr c PART_UPDATE (2 + i div 2) + (6 + i div 2) = trailer_addr c PART_UPDATE 0 + 4"
    using trailer_addr_flag [OF assms(1,2)] by linarith
  then have "trailer_addr c PART_UPDATE (2 + i div 2) + (6 + i div 2) \<le> reg_addr c r
      \<or> reg_addr c r + WOLFBOOT_SECTOR_SIZE c \<le> trailer_addr c PART_UPDATE (2 + i div 2)"
    using flags_in_sector [OF assms(1,2)] reg_flags_disjoint [OF assms(1,3)] by linarith
  then show ?thesis
    unfolding sec_def
    by (rule mread_same_outside [OF set_flag_frame [OF assms(1) assms(2) [unfolded n_sectors_def]]])
qed

subsection \<open>The invariant of the swap\<close>

text \<open>
  What a copy keeps of a sector that starts \<open>off\<close> bytes into an image of size \<open>f\<close>.
\<close>

definition clip :: "cfg \<Rightarrow> nat \<Rightarrow> nat \<Rightarrow> byte list \<Rightarrow> byte list" where
  "clip c off f L =
     map (\<lambda>x. if off + x div FLASHBUFFER_SIZE c * FLASHBUFFER_SIZE c
                  < f + IMAGE_HEADER_SIZE c + FLASHBUFFER_SIZE c then L ! x else 255)
       [0..<WOLFBOOT_SECTOR_SIZE c]"

lemma sector_copy_clip: "sector_copy c m (reg_addr c r) off f = clip c off f (sec c m r)"
  by (simp add: sector_copy_def clip_def sec_def mread_def)

lemma length_clip [simp]: "length (clip c off f L) = WOLFBOOT_SECTOR_SIZE c"
  by (simp add: clip_def)

lemma clip_nth:
  assumes "off + x < f + IMAGE_HEADER_SIZE c" "x < WOLFBOOT_SECTOR_SIZE c"
  shows "clip c off f L ! x = L ! x"
proof -
  have "x div FLASHBUFFER_SIZE c * FLASHBUFFER_SIZE c \<le> x"
    by simp
  then have "off + x div FLASHBUFFER_SIZE c * FLASHBUFFER_SIZE c < f + IMAGE_HEADER_SIZE c + FLASHBUFFER_SIZE c"
    using assms(1) by linarith
  then show ?thesis
    using assms(2) by (simp add: clip_def)
qed

lemma clip_all: "length L = WOLFBOOT_SECTOR_SIZE c \<Longrightarrow> clip c 0 (WOLFBOOT_SECTOR_SIZE c) L = L"
  by (rule nth_equalityI) (auto simp: clip_nth)

text \<open>
  The size that an image header announces, as \<open>wolfBoot_open_image\<close> reads it.
\<close>

definition hsize :: "cfg \<Rightarrow> byte list \<Rightarrow> nat" where
  "hsize c L =
     (if le32 (take 4 L) \<noteq> WOLFBOOT_MAGIC then 0
      else if le32 (take 4 (drop 4 L)) > WOLFBOOT_PARTITION_SIZE c - IMAGE_HEADER_SIZE c
      then WOLFBOOT_PARTITION_SIZE c - IMAGE_HEADER_SIZE c
      else le32 (take 4 (drop 4 L)))"

text \<open>
  The swap starts with the sectors \<open>b0\<close> in BOOT and \<open>u0\<close> in UPDATE. Sector \<open>i\<close> is to end
  with \<open>new_boot i\<close> in BOOT and \<open>new_upd i\<close> in UPDATE.
\<close>

definition new_boot :: "cfg \<Rightarrow> (nat \<Rightarrow> byte list) \<Rightarrow> nat \<Rightarrow> byte list" where
  "new_boot c u0 i = clip c (i * WOLFBOOT_SECTOR_SIZE c) (hsize c (u0 0)) (u0 i)"

definition new_upd :: "cfg \<Rightarrow> (nat \<Rightarrow> byte list) \<Rightarrow> nat \<Rightarrow> byte list" where
  "new_upd c b0 i = clip c (i * WOLFBOOT_SECTOR_SIZE c) (hsize c (b0 0)) (b0 i)"

text \<open>The flag of a sector says where its two contents are.\<close>

definition phase ::
  "cfg \<Rightarrow> (nat \<Rightarrow> byte list) \<Rightarrow> (nat \<Rightarrow> byte list) \<Rightarrow> mem \<Rightarrow> nat \<Rightarrow> byte \<Rightarrow> bool" where
  "phase c b0 u0 m i f \<longleftrightarrow>
     (f = SECT_FLAG_NEW \<and> sec c m (RBoot i) = b0 i \<and> sec c m (RUpd i) = u0 i)
   \<or> (f = SECT_FLAG_SWAPPING \<and> sec c m RSwap = new_boot c u0 i \<and> sec c m (RBoot i) = b0 i)
   \<or> (f = SECT_FLAG_BACKUP \<and> sec c m RSwap = new_boot c u0 i \<and> sec c m (RUpd i) = new_upd c b0 i)
   \<or> (f = SECT_FLAG_UPDATED \<and> sec c m (RBoot i) = new_boot c u0 i \<and> sec c m (RUpd i) = new_upd c b0 i)"

text \<open>The swap of \<open>N\<close> sectors has reached sector \<open>k\<close>, which has flag \<open>f\<close>.\<close>

definition swap_inv ::
  "cfg \<Rightarrow> (nat \<Rightarrow> byte list) \<Rightarrow> (nat \<Rightarrow> byte list) \<Rightarrow> nat \<Rightarrow> byte \<Rightarrow> nat \<Rightarrow> byte \<Rightarrow> mem \<Rightarrow> bool" where
  "swap_inv c b0 u0 N st k f m \<longleftrightarrow>
     part_state c PART_UPDATE m = Some st
   \<and> (\<forall>i<N. let g = (if i < k then SECT_FLAG_UPDATED else if i = k then f else SECT_FLAG_NEW)
            in sector_flag c i m = Some g \<and> phase c b0 u0 m i g)"

lemma swap_inv_magic: "swap_inv c b0 u0 N st k f m \<Longrightarrow> has_magic c PART_UPDATE m"
  by (auto simp: swap_inv_def part_state_def split: if_splits)

lemma swap_inv_at:
  assumes "swap_inv c b0 u0 N st k f m" "k < N"
  shows "sector_flag c k m = Some f" "phase c b0 u0 m k f"
  using assms by (auto simp: swap_inv_def Let_def)

lemma swap_inv_next: "swap_inv c b0 u0 N st k SECT_FLAG_UPDATED m \<Longrightarrow> swap_inv c b0 u0 N st (Suc k) SECT_FLAG_NEW m"
  unfolding swap_inv_def Let_def by (auto simp: less_Suc_eq)

text \<open>Changing one region of sector \<open>k\<close>, or the SWAP sector, keeps the other sectors.\<close>

lemma phase_other:
  assumes "cfg_ok c" "reg_valid c r" "i + 1 < n_sectors c"
    and "same_outside (reg_addr c r) (WOLFBOOT_SECTOR_SIZE c) m m'"
    and "r \<noteq> RBoot i" "r \<noteq> RUpd i" "g = SECT_FLAG_NEW \<or> g = SECT_FLAG_UPDATED"
    and "phase c b0 u0 m i g"
  shows "phase c b0 u0 m' i g"
proof -
  have "sec c m' (RBoot i) = sec c m (RBoot i)" "sec c m' (RUpd i) = sec c m (RUpd i)"
    using sec_other [OF assms(1,2) _ _ assms(4)] assms(3,5,6) by auto
  then show ?thesis
    using assms(7,8) by (auto simp: phase_def sect_flag_defs)
qed

lemma swap_inv_region:
  assumes "cfg_ok c" "reg_valid c r" "N < n_sectors c" "k < N"
    and "same_outside (reg_addr c r) (WOLFBOOT_SECTOR_SIZE c) m m'"
    and "r = RBoot k \<or> r = RUpd k \<or> r = RSwap"
    and "swap_inv c b0 u0 N st k f m" "phase c b0 u0 m' k f"
  shows "swap_inv c b0 u0 N st k f m'"
proof -
  note fs = flags_sameD [OF assms(1) flags_same_reg [OF assms(1,2,5)]]
  have "phase c b0 u0 m' i g" if "i < N" "i \<noteq> k" "phase c b0 u0 m i g" "g = SECT_FLAG_NEW \<or> g = SECT_FLAG_UPDATED" for i g
    by (rule phase_other [OF assms(1,2) _ assms(5)]) (use that assms(3,6) in auto)
  moreover have "sector_flag c i m' = sector_flag c i m" if "i < N" for i
    using fs(3) that assms(3) by simp
  ultimately show ?thesis
    using assms(7,8) unfolding swap_inv_def Let_def fs(1)
    by (intro conjI allI impI; case_tac "i = k") auto
qed

lemma swap_inv_flag:
  assumes "cfg_ok c" "N < n_sectors c" "k < N" "swap_inv c b0 u0 N st k f m"
    and "g = f AND v AND 0x0F" "phase c b0 u0 m k g"
  shows "swap_inv c b0 u0 N st k g (set_flag_mem c k v m)"
proof -
  note mg = swap_inv_magic [OF assms(4)]
  have kn: "k < n_sectors c"
    using assms by simp
  have f: "nibble_of k (m (trailer_addr c PART_UPDATE (2 + k div 2))) = f"
    using swap_inv_at(1) [OF assms(4,3)] mg by (simp add: sector_flag_def)
  have s: "sec c (set_flag_mem c k v m) r = sec c m r" if "reg_valid c r" for r
    by (rule sec_set_flag [OF assms(1) kn that])
  have ph: "phase c b0 u0 (set_flag_mem c k v m) i h = phase c b0 u0 m i h" if "i < N" for i h
    using assms(2) that by (simp add: phase_def s)
  have "sector_flag c k (set_flag_mem c k v m) = Some g"
    using sector_flag_set_flag [OF assms(1) kn magic_ready_if(1) [OF mg]] f assms(5) by simp
  moreover have "sector_flag c i (set_flag_mem c k v m) = sector_flag c i m" if "i < N" "i \<noteq> k" for i
    by (rule sector_flag_set_other [OF assms(1) kn _ _ mg]) (use that assms(2) in auto)
  moreover have "part_state c PART_UPDATE (set_flag_mem c k v m) = part_state c PART_UPDATE m"
    by (rule part_state_set_flag [OF assms(1) kn mg])
  ultimately show ?thesis
    using assms(4,6) unfolding swap_inv_def Let_def
    by (intro conjI allI impI; case_tac "i = k") (auto simp: ph)
qed

subsection \<open>The steps of the swap\<close>

text \<open>The image handles of the three partitions, for the sector \<open>k\<close>.\<close>

fun reg_img :: "cfg \<Rightarrow> wolfBoot_image \<Rightarrow> nat \<Rightarrow> region \<Rightarrow> bool" where
  "reg_img c img k (RBoot i) \<longleftrightarrow>
     i = k \<and> img_part img = PART_BOOT \<and> img_hdr img = WOLFBOOT_PARTITION_BOOT_ADDRESS c"
| "reg_img c img k (RUpd i) \<longleftrightarrow>
     i = k \<and> img_part img = PART_UPDATE \<and> img_hdr img = WOLFBOOT_PARTITION_UPDATE_ADDRESS c"
| "reg_img c img k RSwap \<longleftrightarrow>
     img_part img = PART_SWAP \<and> img_hdr img = WOLFBOOT_PARTITION_SWAP_ADDRESS c"

fun reg_off :: "cfg \<Rightarrow> region \<Rightarrow> nat" where
  "reg_off c (RBoot i) = i * WOLFBOOT_SECTOR_SIZE c"
| "reg_off c (RUpd i) = i * WOLFBOOT_SECTOR_SIZE c"
| "reg_off c RSwap = 0"

lemma reg_img_addr:
  assumes "reg_img c img k r"
  shows "reg_off c r = (if img_part img = PART_SWAP then 0 else k * WOLFBOOT_SECTOR_SIZE c)"
    "reg_addr c r = img_hdr img + reg_off c r"
  using assms by (cases r; simp)+

lemma sector_off_bound:
  assumes "cfg_ok c" "k < n_sectors c"
  shows "k * WOLFBOOT_SECTOR_SIZE c < 2147483648" "k < 65536"
proof -
  note d = cfg_okD [OF assms(1)]
  have "k * WOLFBOOT_SECTOR_SIZE c < n_sectors c * WOLFBOOT_SECTOR_SIZE c"
    using assms(2) d(6) by (intro mult_less_mono1) auto
  then show *: "k * WOLFBOOT_SECTOR_SIZE c < 2147483648"
    using n_sectors_size(1) [OF assms(1)] d(12-14) by linarith
  show "k < 65536"
  proof (rule ccontr)
    assume "\<not> k < 65536"
    then have "65536 \<le> n_sectors c" "32784 \<le> WOLFBOOT_SECTOR_SIZE c"
      using assms(2) d(5) by (auto simp: n_sectors_def)
    from mult_le_mono [OF this] show False
      using n_sectors_size(1) [OF assms(1)] d(12) by simp
  qed
qed

context flash_dev
begin

lemma copy_region:
  assumes "cfg_ok c" "k < n_sectors c" "fw_size src < 2147483648" "alive s" "unlocked s"
    and "reg_img c src k r" "reg_img c dst k r'" "reg_valid c r" "reg_valid c r'" "r \<noteq> r'"
  shows "outcome (mwrite (flash_mem H s) (reg_addr c r')
        (clip c (reg_off c r) (fw_size src) (sec c (flash_mem H s) r)))
      (same_outside (reg_addr c r') (WOLFBOOT_SECTOR_SIZE c) (flash_mem H s))
      (snd (wolfBoot_copy_sector c H src dst k s))
    \<and> (alive (snd (wolfBoot_copy_sector c H src dst k s))
        \<longrightarrow> 0 \<le> fst (wolfBoot_copy_sector c H src dst k s))"
  unfolding sector_copy_clip [symmetric]
  by (rule copy_sector_outcome [OF assms(1) sector_off_bound(1) [OF assms(1,2)] assms(3-5)
        reg_img_addr(1) [OF assms(6)] reg_img_addr(1) [OF assms(7)]
        reg_img_addr(2) [OF assms(6)] reg_img_addr(2) [OF assms(7)]
        reg_disjoint [OF assms(1,8,9,10)] refl])

text \<open>
  The device survived and its memory satisfies \<open>Q\<close>, or it lost power with a memory that
  satisfies \<open>P\<close>.
\<close>

definition results :: "(mem \<Rightarrow> bool) \<Rightarrow> (mem \<Rightarrow> bool) \<Rightarrow> 's \<Rightarrow> bool" where
  "results Q P s \<longleftrightarrow> (alive s \<and> unlocked s \<and> Q (flash_mem H s)) \<or> (dead s \<and> P (flash_mem H s))"

lemma results_outcome:
  "outcome m P s \<Longrightarrow> Q m \<Longrightarrow> (\<And>m'. P m' \<Longrightarrow> P' m') \<Longrightarrow> results Q P' s"
  by (auto simp: outcome_def results_def)

lemma results_bind:
  assumes "results Q P s" "frozen g"
    and "\<And>s. alive s \<Longrightarrow> unlocked s \<Longrightarrow> Q (flash_mem H s) \<Longrightarrow> results Q' P (g s)"
  shows "results Q' P (g s)"
  using assms by (auto simp: results_def frozen_def)

text \<open>The same for an operation that returns a negative value only if it lost power.\<close>

definition resultsr :: "(mem \<Rightarrow> bool) \<Rightarrow> (mem \<Rightarrow> bool) \<Rightarrow> int \<times> 's \<Rightarrow> bool" where
  "resultsr Q P r \<longleftrightarrow> results Q P (snd r) \<and> (alive (snd r) \<longrightarrow> 0 \<le> fst r)"

lemma resultsr_bind:
  assumes "resultsr Q P r" "frozen (\<lambda>s. snd (g s))"
    and "alive (snd r) \<Longrightarrow> unlocked (snd r) \<Longrightarrow> Q (flash_mem H (snd r)) \<Longrightarrow> 0 \<le> fst r \<Longrightarrow>
           resultsr Q' P (g (snd r))"
  shows "resultsr Q' P (if fst r < 0 then r else g (snd r))"
proof (cases "dead (snd r)")
  case True
  then show ?thesis
    using assms(1,2) alive_not_dead unfolding resultsr_def results_def frozen_def by auto
next
  case False
  then have "alive (snd r)" "unlocked (snd r)" "Q (flash_mem H (snd r))" "0 \<le> fst r"
    using assms(1) by (auto simp: resultsr_def results_def)
  with assms(3) show ?thesis
    by simp
qed

lemma results_mono: "results Q P s \<Longrightarrow> (\<And>m. Q m \<Longrightarrow> Q' m) \<Longrightarrow> (\<And>m. P m \<Longrightarrow> P' m) \<Longrightarrow> results Q' P' s"
  by (auto simp: results_def)

end

lemma length_new [simp]:
  "length (new_boot c u0 i) = WOLFBOOT_SECTOR_SIZE c" "length (new_upd c b0 i) = WOLFBOOT_SECTOR_SIZE c"
  by (simp_all add: new_boot_def new_upd_def)

text \<open>
  The handles the loop works with at sector \<open>k\<close>: the sizes matter only while the phase of
  the sector still needs them.
\<close>

definition handles ::
  "cfg \<Rightarrow> wolfBoot_image \<Rightarrow> wolfBoot_image \<Rightarrow> wolfBoot_image \<Rightarrow> nat \<Rightarrow> bool" where
  "handles c boot update swap k \<longleftrightarrow>
     reg_img c boot k (RBoot k) \<and> reg_img c update k (RUpd k) \<and> reg_img c swap k RSwap
   \<and> fw_size swap = WOLFBOOT_SECTOR_SIZE c
   \<and> fw_size boot < 2147483648 \<and> fw_size update < 2147483648"

text \<open>Some sector has been reached, in some phase.\<close>

definition swap_safe :: "cfg \<Rightarrow> (nat \<Rightarrow> byte list) \<Rightarrow> (nat \<Rightarrow> byte list) \<Rightarrow> nat \<Rightarrow> byte \<Rightarrow> mem \<Rightarrow> bool" where
  "swap_safe c b0 u0 N st m \<longleftrightarrow> (\<exists>k f. k \<le> N \<and> swap_inv c b0 u0 N st k f m)"

lemma swap_safeI: "swap_inv c b0 u0 N st k f m \<Longrightarrow> k \<le> N \<Longrightarrow> swap_safe c b0 u0 N st m"
  unfolding swap_safe_def by blast

lemma magic_torn_has_magic:
  assumes "has_magic c part m" "magic_torn c part m m'"
  shows "m' = m"
proof -
  let ?w = "to_le32 WOLFBOOT_MAGIC_TRAIL"
  obtain k where k: "k \<le> 4" "m' = mprog m (trailer_addr c part 0) (take k ?w)"
    using assms(2) by (auto simp: magic_torn_def)
  have w: "mread m (trailer_addr c part 0) 4 = ?w"
    using assms(1) by (simp add: has_magic_def magic_trail_bytes)
  have "mread m (trailer_addr c part 0) (length (take k ?w)) = take k (mread m (trailer_addr c part 0) 4)"
    using k(1) by (intro nth_equalityI) (auto simp: mread_def)
  with k(2) w show ?thesis
    by (simp add: mprog_id)
qed

context flash_hal
begin

lemma frozen_record:
  assumes "\<not> NVM_FLASH_WRITEONCE c" "cfg_ok c" "k < n_sectors c"
  shows "frozen (record_flag c H k v)"
  unfolding record_flag_def
  by (intro frozen_if frozen_id frozen_set_flag [OF assms(1) sector_off_bound(2) [OF assms(2,3)]])

lemma record_results:
  assumes "\<not> NVM_FLASH_WRITEONCE c" "cfg_ok c" "N < n_sectors c" "k < N" "alive s" "unlocked s"
    and "swap_inv c b0 u0 N st k f (flash_mem H s)"
    and "g = f AND v AND 0x0F" "phase c b0 u0 (flash_mem H s) k g"
  shows "results (\<lambda>m. swap_inv c b0 u0 N st k g m \<and> (\<forall>r. reg_valid c r \<longrightarrow> sec c m r = sec c (flash_mem H s) r))
     (swap_safe c b0 u0 N st) (record_flag c H k v s)"
proof -
  let ?m = "flash_mem H s"
  have kn: "k < n_sectors c" "k + 1 < n_sectors c"
    using assms(3,4) by auto
  have "u32 ((k + 1) * WOLFBOOT_SECTOR_SIZE c) = (k + 1) * WOLFBOOT_SECTOR_SIZE c"
    using sector_off_bound(1) [OF assms(2) kn(2)] by (intro u32_id) simp
  moreover have "(k + 1) * WOLFBOOT_SECTOR_SIZE c < WOLFBOOT_PARTITION_SIZE c"
    using sector_in_partition [OF assms(2) kn(2)] cfg_okD(6) [OF assms(2)] by simp
  ultimately have eq: "record_flag c H k v s = snd (wolfBoot_set_update_sector_flag c H k v s)"
    by (simp add: record_flag_def)
  have inv: "swap_inv c b0 u0 N st k g (set_flag_mem c k v ?m)"
    by (rule swap_inv_flag [OF assms(2,3,4,7,8,9)])
  have torn: "swap_safe c b0 u0 N st m" if "magic_torn c PART_UPDATE ?m m" for m
    using magic_torn_has_magic [OF swap_inv_magic [OF assms(7)] that] swap_safeI [OF assms(7)] assms(4)
    by simp
  have safe: "swap_safe c b0 u0 N st (set_flag_mem c k v ?m)"
    using swap_safeI [OF inv] assms(4) by simp
  show ?thesis
    unfolding eq
    by (rule results_outcome [OF set_flag_outcome [OF assms(1) sector_off_bound(2) [OF assms(2) kn(1)] assms(5,6)]])
      (use inv torn safe sec_set_flag [OF assms(2) kn(1)] in auto)
qed

text \<open>Sector \<open>k\<close> is in phase \<open>f\<close>; the handles give the sizes this phase needs.\<close>

lemma frozen_case_BACKUP:
  assumes "\<not> NVM_FLASH_WRITEONCE c" "cfg_ok c" "k < n_sectors c"
  shows "frozen (\<lambda>s. snd (case_BACKUP c H boot swap k s))"
proof -
  have "snd (case_BACKUP c H boot swap k s) =
      (if fst (wolfBoot_copy_sector c H swap boot k s) < 0 then snd (wolfBoot_copy_sector c H swap boot k s)
       else record_flag c H k SECT_FLAG_UPDATED (snd (wolfBoot_copy_sector c H swap boot k s)))" for s
    by (simp add: case_BACKUP_def split_def Let_def)
  then show ?thesis
    using frozen_copy_sector frozen_record [OF assms] by (simp add: frozen_def)
qed

lemma frozen_case_SWAPPING:
  assumes "\<not> NVM_FLASH_WRITEONCE c" "cfg_ok c" "k < n_sectors c"
  shows "frozen (\<lambda>s. snd (case_SWAPPING c H boot update swap k s))"
proof -
  have "snd (case_SWAPPING c H boot update swap k s) =
      (if fst (wolfBoot_copy_sector c H boot update k s) < 0 then snd (wolfBoot_copy_sector c H boot update k s)
       else snd (case_BACKUP c H boot swap k
              (record_flag c H k SECT_FLAG_BACKUP (snd (wolfBoot_copy_sector c H boot update k s)))))" for s
    by (simp add: case_SWAPPING_def split_def Let_def)
  then show ?thesis
    using frozen_copy_sector frozen_record [OF assms] frozen_case_BACKUP [OF assms]
    by (simp add: frozen_def)
qed

lemma frozen_case_NEW:
  assumes "\<not> NVM_FLASH_WRITEONCE c" "cfg_ok c" "k < n_sectors c"
  shows "frozen (\<lambda>s. snd (case_NEW c H boot update swap k s))"
proof -
  have "snd (case_NEW c H boot update swap k s) =
      (if fst (wolfBoot_copy_sector c H update swap k s) < 0 then snd (wolfBoot_copy_sector c H update swap k s)
       else snd (case_SWAPPING c H boot update swap k
              (record_flag c H k SECT_FLAG_SWAPPING (snd (wolfBoot_copy_sector c H update swap k s)))))" for s
    by (simp add: case_NEW_def split_def Let_def)
  then show ?thesis
    using frozen_copy_sector frozen_record [OF assms] frozen_case_SWAPPING [OF assms]
    by (simp add: frozen_def)
qed

lemma copy_results:
  assumes "cfg_ok c" "N < n_sectors c" "k < N" "fw_size src < 2147483648" "alive s" "unlocked s"
    and "reg_img c src k r" "reg_img c dst k r'" "reg_valid c r" "reg_valid c r'" "r \<noteq> r'"
    and "r' = RBoot k \<or> r' = RUpd k \<or> r' = RSwap"
    and inv: "swap_inv c b0 u0 N st k f (flash_mem H s)"
    and keep: "\<And>m'. same_outside (reg_addr c r') (WOLFBOOT_SECTOR_SIZE c) (flash_mem H s) m' \<Longrightarrow>
                phase c b0 u0 m' k f"
  shows "resultsr (\<lambda>m. swap_inv c b0 u0 N st k f m
      \<and> sec c m r' = clip c (reg_off c r) (fw_size src) (sec c (flash_mem H s) r)
      \<and> (\<forall>r. reg_valid c r \<longrightarrow> r \<noteq> r' \<longrightarrow> sec c m r = sec c (flash_mem H s) r))
     (swap_safe c b0 u0 N st) (wolfBoot_copy_sector c H src dst k s)"
proof -
  let ?m = "flash_mem H s" and ?d = "reg_addr c r'"
  let ?L = "clip c (reg_off c r) (fw_size src) (sec c ?m r)"
  have kn: "k < n_sectors c"
    using assms(2,3) by simp
  have so: "same_outside ?d (WOLFBOOT_SECTOR_SIZE c) ?m (mwrite ?m ?d ?L)"
    by (simp add: same_outside_def mem_simps)
  have step: "swap_inv c b0 u0 N st k f m'" if "same_outside ?d (WOLFBOOT_SECTOR_SIZE c) ?m m'" for m'
    by (rule swap_inv_region [OF assms(1,10,2,3) that assms(12) inv keep [OF that]])
  have safe: "swap_safe c b0 u0 N st m'" if "same_outside ?d (WOLFBOOT_SECTOR_SIZE c) ?m m'" for m'
    using swap_safeI [OF step [OF that]] assms(3) by simp
  note o = copy_region [OF assms(1) kn assms(4-11)]
  have "results (\<lambda>m. swap_inv c b0 u0 N st k f m \<and> sec c m r' = ?L
      \<and> (\<forall>r. reg_valid c r \<longrightarrow> r \<noteq> r' \<longrightarrow> sec c m r = sec c ?m r))
     (swap_safe c b0 u0 N st) (snd (wolfBoot_copy_sector c H src dst k s))"
    by (rule results_outcome [OF conjunct1 [OF o]])
      (use step [OF so] safe sec_other [OF assms(1,10) _ _ so] in auto)
  with o show ?thesis
    by (simp add: resultsr_def)
qed

lemma copy_record:
  assumes nvm: "\<not> NVM_FLASH_WRITEONCE c" and ok: "cfg_ok c" "N < n_sectors c" "k < N"
    and "fw_size src < 2147483648" "alive s" "unlocked s"
    and rg: "reg_img c src k r" "reg_img c dst k r'" "reg_valid c r" "reg_valid c r'" "r \<noteq> r'"
      "r' = RBoot k \<or> r' = RUpd k \<or> r' = RSwap"
    and inv: "swap_inv c b0 u0 N st k f (flash_mem H s)"
    and keep: "\<And>m'. (\<forall>r. reg_valid c r \<longrightarrow> r \<noteq> r' \<longrightarrow> sec c m' r = sec c (flash_mem H s) r) \<Longrightarrow>
                phase c b0 u0 m' k f"
    and new: "\<And>m'. (\<forall>r. reg_valid c r \<longrightarrow> r \<noteq> r' \<longrightarrow> sec c m' r = sec c (flash_mem H s) r) \<Longrightarrow>
                sec c m' r' = clip c (reg_off c r) (fw_size src) (sec c (flash_mem H s) r) \<Longrightarrow>
                phase c b0 u0 m' k g"
    and g: "g = f AND v AND 0x0F"
    and R: "R = wolfBoot_copy_sector c H src dst k s"
    and h: "frozen (\<lambda>s. snd (h s))"
    and cont: "\<And>s. alive s \<Longrightarrow> unlocked s \<Longrightarrow> swap_inv c b0 u0 N st k g (flash_mem H s) \<Longrightarrow> 0 \<le> fst R \<Longrightarrow>
                 resultsr Q (swap_safe c b0 u0 N st) (h s)"
  shows "resultsr Q (swap_safe c b0 u0 N st)
     (if fst R < 0 then R else h (record_flag c H k v (snd R)))"
proof -
  let ?m = "flash_mem H s"
  have kn: "k < n_sectors c"
    using ok by simp
  have keep': "phase c b0 u0 m' k f"
    if "same_outside (reg_addr c r') (WOLFBOOT_SECTOR_SIZE c) ?m m'" for m'
    by (rule keep) (use sec_other [OF ok(1) rg(4) _ _ that] in blast)
  note fr = frozen_record [OF nvm ok(1) kn, of v]
  show ?thesis
  proof (rule resultsr_bind [OF copy_results [OF ok assms(5-7) rg inv keep', folded R]
        frozen_comp [OF fr h]])
    let ?m1 = "flash_mem H (snd R)"
    assume a: "alive (snd R)" "unlocked (snd R)" "0 \<le> fst R"
      and q: "swap_inv c b0 u0 N st k f ?m1
        \<and> sec c ?m1 r' = clip c (reg_off c r) (fw_size src) (sec c ?m r)
        \<and> (\<forall>r. reg_valid c r \<longrightarrow> r \<noteq> r' \<longrightarrow> sec c ?m1 r = sec c ?m r)"
    then have "phase c b0 u0 ?m1 k g"
      using new [of ?m1] by blast
    note rec = record_results [OF nvm ok a(1,2) conjunct1 [OF q] g this]
    let ?s = "record_flag c H k v (snd R)"
    show "resultsr Q (swap_safe c b0 u0 N st) (h ?s)"
    proof (cases "dead ?s")
      case True
      then show ?thesis
        using rec h alive_not_dead unfolding resultsr_def results_def frozen_def by auto
    next
      case False
      then show ?thesis
        using rec cont [of ?s] a(3) by (auto simp: results_def)
    qed
  qed
qed

lemma case_BACKUP_results:
  assumes "\<not> NVM_FLASH_WRITEONCE c" "cfg_ok c" "N < n_sectors c" "k < N" "alive s" "unlocked s"
    and h: "handles c boot update swap k"
    and inv: "swap_inv c b0 u0 N st k SECT_FLAG_BACKUP (flash_mem H s)"
  shows "resultsr (swap_inv c b0 u0 N st k SECT_FLAG_UPDATED) (swap_safe c b0 u0 N st)
     (case_BACKUP c H boot swap k s)"
proof -
  let ?m = "flash_mem H s" and ?R = "wolfBoot_copy_sector c H swap boot k s"
  have ph: "sec c ?m RSwap = new_boot c u0 k" "sec c ?m (RUpd k) = new_upd c b0 k"
    using swap_inv_at(2) [OF inv assms(4)] by (auto simp: phase_def sect_flag_defs)
  have eq: "case_BACKUP c H boot swap k s =
      (if fst ?R < 0 then ?R else (\<lambda>s. (fst ?R, s)) (record_flag c H k SECT_FLAG_UPDATED (snd ?R)))"
    by (simp add: case_BACKUP_def split_def Let_def)
  show ?thesis
    unfolding eq
    by (rule copy_record [where r = RSwap and r' = "RBoot k" and g = SECT_FLAG_UPDATED,
            OF assms(1-4) _ assms(5,6) _ _ _ _ _ _ inv _ _ _ refl])
      (use h assms(3,4) ph cfg_okD(14) [OF assms(2)] in \<open>auto simp: handles_def phase_def clip_all
         frozen_id resultsr_def results_def SECT_FLAG_UPDATED_def\<close>)
qed

lemma case_SWAPPING_results:
  assumes "\<not> NVM_FLASH_WRITEONCE c" "cfg_ok c" "N < n_sectors c" "k < N" "alive s" "unlocked s"
    and h: "handles c boot update swap k" "fw_size boot = hsize c (b0 0)"
    and inv: "swap_inv c b0 u0 N st k SECT_FLAG_SWAPPING (flash_mem H s)"
  shows "resultsr (swap_inv c b0 u0 N st k SECT_FLAG_UPDATED) (swap_safe c b0 u0 N st)
     (case_SWAPPING c H boot update swap k s)"
proof -
  let ?m = "flash_mem H s" and ?R = "wolfBoot_copy_sector c H boot update k s"
  have kn: "k < n_sectors c"
    using assms(3,4) by simp
  have ph: "sec c ?m RSwap = new_boot c u0 k" "sec c ?m (RBoot k) = b0 k"
    using swap_inv_at(2) [OF inv assms(4)] by (auto simp: phase_def sect_flag_defs)
  have eq: "case_SWAPPING c H boot update swap k s =
      (if fst ?R < 0 then ?R else case_BACKUP c H boot swap k (record_flag c H k SECT_FLAG_BACKUP (snd ?R)))"
    by (simp add: case_SWAPPING_def split_def Let_def)
  show ?thesis
    unfolding eq
    by (rule copy_record [where r = "RBoot k" and r' = "RUpd k" and g = SECT_FLAG_BACKUP,
            OF assms(1-4) _ assms(5,6) _ _ _ _ _ _ inv _ _ _ refl frozen_case_BACKUP [OF assms(1,2) kn]
            case_BACKUP_results [OF assms(1-4) _ _ h(1)]])
      (use h assms(3,4) ph in \<open>auto simp: handles_def phase_def new_upd_def
         SECT_FLAG_BACKUP_def SECT_FLAG_SWAPPING_def\<close>)
qed

lemma case_NEW_results:
  assumes "\<not> NVM_FLASH_WRITEONCE c" "cfg_ok c" "N < n_sectors c" "k < N" "alive s" "unlocked s"
    and h: "handles c boot update swap k" "fw_size boot = hsize c (b0 0)" "fw_size update = hsize c (u0 0)"
    and inv: "swap_inv c b0 u0 N st k SECT_FLAG_NEW (flash_mem H s)"
  shows "resultsr (swap_inv c b0 u0 N st k SECT_FLAG_UPDATED) (swap_safe c b0 u0 N st)
     (case_NEW c H boot update swap k s)"
proof -
  let ?m = "flash_mem H s" and ?R = "wolfBoot_copy_sector c H update swap k s"
  have kn: "k < n_sectors c"
    using assms(3,4) by simp
  have ph: "sec c ?m (RUpd k) = u0 k" "sec c ?m (RBoot k) = b0 k"
    using swap_inv_at(2) [OF inv assms(4)] by (auto simp: phase_def sect_flag_defs)
  have eq: "case_NEW c H boot update swap k s =
      (if fst ?R < 0 then ?R
       else case_SWAPPING c H boot update swap k (record_flag c H k SECT_FLAG_SWAPPING (snd ?R)))"
    by (simp add: case_NEW_def split_def Let_def)
  show ?thesis
    unfolding eq
    by (rule copy_record [where r = "RUpd k" and r' = RSwap and g = SECT_FLAG_SWAPPING,
            OF assms(1-4) _ assms(5,6) _ _ _ _ _ _ inv _ _ _ refl frozen_case_SWAPPING [OF assms(1,2) kn]
            case_SWAPPING_results [where ?b0.0 = b0, OF assms(1-4) _ _ h(1,2)]])
      (use h assms(3,4) ph in \<open>auto simp: handles_def phase_def new_boot_def
         SECT_FLAG_NEW_def SECT_FLAG_SWAPPING_def\<close>)
qed

end

subsection \<open>The loop\<close>

context flash_hal
begin

lemma frozen_swap_sector:
  assumes "\<not> NVM_FLASH_WRITEONCE c" "cfg_ok c" "k < n_sectors c"
  shows "frozen (\<lambda>s. snd (swap_sector c H boot update swap k s))"
  using frozen_case_NEW [OF assms] frozen_case_SWAPPING [OF assms] frozen_case_BACKUP [OF assms]
  by (simp add: swap_sector_def get_flag_nor [OF assms(1) sector_off_bound(2) [OF assms(2,3)]]
      frozen_def Let_def)

text \<open>One sector, from whatever phase it is in.\<close>

lemma swap_sector_results:
  assumes "\<not> NVM_FLASH_WRITEONCE c" "cfg_ok c" "N < n_sectors c" "k < N" "alive s" "unlocked s"
    and h: "handles c boot update swap k"
      "f = SECT_FLAG_NEW \<or> f = SECT_FLAG_SWAPPING \<Longrightarrow> fw_size boot = hsize c (b0 0)"
      "f = SECT_FLAG_NEW \<Longrightarrow> fw_size update = hsize c (u0 0)"
    and inv: "swap_inv c b0 u0 N st k f (flash_mem H s)"
  shows "resultsr (swap_inv c b0 u0 N st k SECT_FLAG_UPDATED) (swap_safe c b0 u0 N st)
     (swap_sector c H boot update swap k s)"
proof -
  note at = swap_inv_at [OF inv assms(4)]
  have kn: "k < n_sectors c"
    using assms(3,4) by simp
  have eq: "swap_sector c H boot update swap k s =
      (if f = SECT_FLAG_NEW then case_NEW c H boot update swap k s
       else if f = SECT_FLAG_SWAPPING then case_SWAPPING c H boot update swap k s
       else if f = SECT_FLAG_BACKUP then case_BACKUP c H boot swap k s else (0, s))"
    using at(1) by (simp add: swap_sector_def get_flag_nor [OF assms(1) sector_off_bound(2) [OF assms(2) kn]]
        Let_def)
  from at(2) consider "f = SECT_FLAG_NEW" | "f = SECT_FLAG_SWAPPING" | "f = SECT_FLAG_BACKUP"
    | "f = SECT_FLAG_UPDATED"
    by (auto simp: phase_def)
  then show ?thesis
  proof cases
    case 1
    with eq show ?thesis
      using case_NEW_results [OF assms(1-6) h(1)] h(2,3) inv by simp
  next
    case 2
    with eq show ?thesis
      using case_SWAPPING_results [OF assms(1-6) h(1)] h(2) inv by (simp add: sect_flag_defs)
  next
    case 3
    with eq show ?thesis
      using case_BACKUP_results [OF assms(1-6) h(1)] inv by (simp add: sect_flag_defs)
  next
    case 4
    with eq show ?thesis
      using inv assms(5,6) by (simp add: sect_flag_defs resultsr_def results_def)
  qed
qed

lemma swap_sector_done:
  assumes "\<not> NVM_FLASH_WRITEONCE c" "cfg_ok c" "N < n_sectors c" "i < N" "i < k"
    and "swap_inv c b0 u0 N st k f (flash_mem H s)"
  shows "swap_sector c H boot update swap i s = (0, s)"
proof -
  have "sector_flag c i (flash_mem H s) = Some SECT_FLAG_UPDATED"
    using assms(4-6) by (auto simp: swap_inv_def Let_def)
  then show ?thesis
    using assms(3,4) sector_off_bound(2) [OF assms(2), of i]
    by (simp add: swap_sector_def get_flag_nor [OF assms(1)] sect_flag_defs)
qed

end

text \<open>The handles that opening the partitions gives.\<close>

lemma open_image_sizes:
  assumes "cfg_ok c"
  shows "fw_size (snd (wolfBoot_open_image c m PART_BOOT)) = hsize c (sec c m (RBoot 0))"
    "fw_size (snd (wolfBoot_open_image c m PART_UPDATE)) = hsize c (sec c m (RUpd 0))"
proof -
  have *: "take 4 (sec c m r) = mread m (reg_addr c r) 4"
    "take 4 (drop 4 (sec c m r)) = mread m (reg_addr c r + 4) 4" for r
    using cfg_okD(6) [OF assms] by (auto intro!: nth_equalityI simp: sec_def mread_def add.assoc)
  show "fw_size (snd (wolfBoot_open_image c m PART_BOOT)) = hsize c (sec c m (RBoot 0))"
    "fw_size (snd (wolfBoot_open_image c m PART_UPDATE)) = hsize c (sec c m (RUpd 0))"
    by (auto simp: wolfBoot_open_image_def wolfBoot_open_image_address_def hsize_def * Let_def
        wolfBoot_image_size_def image_zero_def simp flip: le32_at_def)
qed

lemma hsize_bound:
  assumes "cfg_ok c"
  shows "hsize c L + IMAGE_HEADER_SIZE c \<le> WOLFBOOT_PARTITION_SIZE c" "hsize c L < 2147483648"
  using cfg_okD [OF assms] by (auto simp: hsize_def)

lemma open_handles:
  assumes "cfg_ok c"
  shows "handles c (snd (wolfBoot_open_image c m PART_BOOT)) (snd (wolfBoot_open_image c m PART_UPDATE))
    (snd (wolfBoot_open_image c m' PART_SWAP)) k"
proof -
  have "img_part (snd (wolfBoot_open_image c m p)) = p
      \<and> img_hdr (snd (wolfBoot_open_image c m p)) = (if p = PART_BOOT then WOLFBOOT_PARTITION_BOOT_ADDRESS c
          else if p = PART_UPDATE then WOLFBOOT_PARTITION_UPDATE_ADDRESS c
          else WOLFBOOT_PARTITION_SWAP_ADDRESS c)"
    if "p = PART_BOOT \<or> p = PART_UPDATE \<or> p = PART_SWAP" for p m
    using that by (auto simp: wolfBoot_open_image_def wolfBoot_open_image_address_def Let_def)
  then show ?thesis
    using hsize_bound [OF assms] open_image_sizes [OF assms, of m]
    by (simp add: handles_def) (simp add: wolfBoot_open_image_def)
qed

lemma handles_sizes:
  "handles c boot update swap k \<Longrightarrow> f < 2147483648 \<Longrightarrow> g < 2147483648 \<Longrightarrow>
     handles c (boot\<lparr>fw_size := f\<rparr>) (update\<lparr>fw_size := g\<rparr>) swap k"
  "handles c boot update swap k \<Longrightarrow> handles c boot update swap k'"
  by (auto simp: handles_def)

lemma total_size_handles:
  assumes "cfg_ok c" "fw_size boot + IMAGE_HEADER_SIZE c \<le> WOLFBOOT_PARTITION_SIZE c"
    and "fw_size update + IMAGE_HEADER_SIZE c \<le> WOLFBOOT_PARTITION_SIZE c"
  shows "wolfBoot_get_total_size c boot update = max (fw_size boot) (fw_size update) + IMAGE_HEADER_SIZE c"
    "wolfBoot_get_total_size c boot update \<le> WOLFBOOT_PARTITION_SIZE c"
proof -
  have "u32 (fw_size boot + IMAGE_HEADER_SIZE c) = fw_size boot + IMAGE_HEADER_SIZE c"
    "u32 (fw_size update + IMAGE_HEADER_SIZE c) = fw_size update + IMAGE_HEADER_SIZE c"
    using assms(2,3) cfg_okD(12) [OF assms(1)] by (auto intro!: u32_id)
  then show "wolfBoot_get_total_size c boot update = max (fw_size boot) (fw_size update) + IMAGE_HEADER_SIZE c"
    "wolfBoot_get_total_size c boot update \<le> WOLFBOOT_PARTITION_SIZE c"
    using assms(2,3) by (auto simp: wolfBoot_get_total_size_def Let_def max_def)
qed

text \<open>One round of the loop, and the handles after the first sector.\<close>

definition reopen_boot :: "cfg \<Rightarrow> mem \<Rightarrow> wolfBoot_image" where
  "reopen_boot c m = (snd (wolfBoot_open_image c m PART_BOOT))
     \<lparr>fw_size := fw_size (snd (wolfBoot_open_image c m PART_UPDATE))\<rparr>"

definition reopen_update :: "cfg \<Rightarrow> mem \<Rightarrow> wolfBoot_image" where
  "reopen_update c m = (snd (wolfBoot_open_image c m PART_UPDATE))
     \<lparr>fw_size := fw_size (snd (wolfBoot_open_image c m PART_BOOT))\<rparr>"

lemma reopen_facts:
  assumes "cfg_ok c"
  shows "fw_size (reopen_boot c m) = hsize c (sec c m (RUpd 0))"
    "fw_size (reopen_update c m) = hsize c (sec c m (RBoot 0))"
    "handles c (reopen_boot c m) (reopen_update c m) (snd (wolfBoot_open_image c m' PART_SWAP)) k"
    "wolfBoot_get_total_size c (reopen_boot c m) (reopen_update c m) \<le> WOLFBOOT_PARTITION_SIZE c"
proof -
  note o = open_image_sizes [OF assms, of m] and b = hsize_bound [OF assms]
  show sz: "fw_size (reopen_boot c m) = hsize c (sec c m (RUpd 0))"
    "fw_size (reopen_update c m) = hsize c (sec c m (RBoot 0))"
    using o by (simp_all add: reopen_boot_def reopen_update_def)
  show "handles c (reopen_boot c m) (reopen_update c m) (snd (wolfBoot_open_image c m' PART_SWAP)) k"
    unfolding reopen_boot_def reopen_update_def
    by (rule handles_sizes(1) [OF open_handles [OF assms]]) (simp_all add: o b)
  show "wolfBoot_get_total_size c (reopen_boot c m) (reopen_update c m) \<le> WOLFBOOT_PARTITION_SIZE c"
    by (rule total_size_handles [OF assms]) (simp_all add: sz b)
qed

lemma swap_loop_stop:
  "\<not> u32 (i * WOLFBOOT_SECTOR_SIZE c) < tot \<Longrightarrow>
     swap_loop c H boot update swap tot i s = Some (0, boot, update, i, s)"
  by (subst swap_loop.simps) simp

lemma swap_loop_fail:
  "u32 (i * WOLFBOOT_SECTOR_SIZE c) < tot \<Longrightarrow> fst R < 0 \<Longrightarrow> R = swap_sector c H boot update swap i s \<Longrightarrow>
     swap_loop c H boot update swap tot i s = Some (-1, boot, update, i, hal_flash_lock H (snd R))"
  by (subst swap_loop.simps) (simp add: split_def Let_def)

lemma swap_loop_step:
  assumes "u32 (i * WOLFBOOT_SECTOR_SIZE c) < tot" "\<not> fst R < 0"
    and "R = swap_sector c H boot update swap i s" "i < 65536"
  shows "swap_loop c H boot update swap tot i s =
    (if i = 0 then
       swap_loop c H (reopen_boot c (flash_mem H (snd R))) (reopen_update c (flash_mem H (snd R))) swap
         (wolfBoot_get_total_size c (reopen_boot c (flash_mem H (snd R))) (reopen_update c (flash_mem H (snd R))))
         (Suc 0) (snd R)
     else swap_loop c H boot update swap tot (Suc i) (snd R))"
proof -
  have "u32 (Suc i) = Suc i"
    using assms(4) by (simp add: u32_id)
  then show ?thesis
    using assms(1-3) by (subst swap_loop.simps) (simp add: split_def Let_def reopen_boot_def reopen_update_def)
qed

text \<open>
  The loop returns on any device, as long as the sizes are those of images that fit in
  their partitions: it advances by one sector in every round.
\<close>

lemma swap_loop_returns:
  assumes "cfg_ok c" "i \<le> n_sectors c" "tot \<le> WOLFBOOT_PARTITION_SIZE c"
    and "\<And>i s boot update. i < n_sectors c \<Longrightarrow> J s \<Longrightarrow> J (snd (swap_sector c H boot update swap i s))"
    and "\<And>s. J s \<Longrightarrow> J (hal_flash_lock H s)" "J s"
  shows "\<exists>ret b u k s'. swap_loop c H boot update swap tot i s = Some (ret, b, u, k, s') \<and> J s' \<and> k \<le> n_sectors c"
  using assms(2,3,6)
proof (induction "n_sectors c - i" arbitrary: i boot update tot s rule: less_induct)
  case less
  note ns = n_sectors_size [OF assms(1)] and d = cfg_okD [OF assms(1)]
  show ?case
  proof (cases "u32 (i * WOLFBOOT_SECTOR_SIZE c) < tot")
    case False
    with less.prems(1,3) show ?thesis
      by (subst swap_loop.simps) simp
  next
    case True
    have "i \<noteq> n_sectors c"
      using True less.prems(2) ns(1) d(12) by (auto simp: u32_id)
    then have i: "i < n_sectors c"
      using less.prems(1) by simp
    let ?R = "swap_sector c H boot update swap i s"
    have J1: "J (snd ?R)"
      by (rule assms(4) [OF i less.prems(3)])
    show ?thesis
    proof (cases "fst ?R < 0")
      case fail: True
      show ?thesis
        unfolding swap_loop_fail [OF True fail refl] using assms(5) [OF J1] i by simp
    next
      case False
      show ?thesis
        unfolding swap_loop_step [OF True False refl sector_off_bound(2) [OF assms(1) i]]
        using less.hyps [of "Suc i"] less.prems(2) reopen_facts(4) [OF assms(1)] i J1 by auto
    qed
  qed
qed

subsection \<open>The whole loop\<close>

lemma hsize_cong:
  assumes "\<And>x. x < 8 \<Longrightarrow> L' ! x = L ! x" "8 \<le> length L" "8 \<le> length L'"
  shows "hsize c L' = hsize c L"
proof -
  have "take 4 L' = take 4 L" "take 4 (drop 4 L') = take 4 (drop 4 L)"
    using assms by (auto intro!: nth_equalityI)
  then show ?thesis
    by (simp add: hsize_def)
qed

lemma hsize_clip:
  assumes "cfg_ok c" "length L = WOLFBOOT_SECTOR_SIZE c"
  shows "hsize c (clip c 0 f L) = hsize c L"
  using cfg_okD [OF assms(1)] assms(2)
  by (intro hsize_cong) (auto intro!: clip_nth simp: IMAGE_HEADER_OFFSET_def)

text \<open>The number of sectors that images of the two sizes take.\<close>

definition swap_count :: "cfg \<Rightarrow> nat \<Rightarrow> nat \<Rightarrow> nat" where
  "swap_count c fb fu = (max fb fu + IMAGE_HEADER_SIZE c + WOLFBOOT_SECTOR_SIZE c - 1) div WOLFBOOT_SECTOR_SIZE c"

lemma swap_count_iff:
  assumes "cfg_ok c"
  shows "i * WOLFBOOT_SECTOR_SIZE c < max fb fu + IMAGE_HEADER_SIZE c \<longleftrightarrow> i < swap_count c fb fu"
proof -
  let ?T = "max fb fu + IMAGE_HEADER_SIZE c" and ?ss = "WOLFBOOT_SECTOR_SIZE c"
  have "0 < ?ss"
    using cfg_okD(6) [OF assms] by simp
  then have "i < (?T + ?ss - 1) div ?ss \<longleftrightarrow> Suc i * ?ss \<le> ?T + ?ss - 1"
    by (simp only: Suc_le_eq [symmetric] less_eq_div_iff_mult_less_eq)
  then show ?thesis
    using \<open>0 < ?ss\<close> by (auto simp: swap_count_def)
qed

context flash_hal
begin

lemma swap_loop_dead:
  assumes "\<not> NVM_FLASH_WRITEONCE c" "cfg_ok c" "i \<le> n_sectors c" "tot \<le> WOLFBOOT_PARTITION_SIZE c" "dead s"
  shows "\<exists>ret b u k s'. swap_loop c H boot update swap tot i s = Some (ret, b, u, k, s')
    \<and> (dead s' \<and> flash_mem H s' = flash_mem H s) \<and> k \<le> n_sectors c"
  by (rule swap_loop_returns [OF assms(2-4), where J = "\<lambda>s'. dead s' \<and> flash_mem H s' = flash_mem H s"])
    (use frozen_swap_sector [OF assms(1,2)] frozen_lock assms(5) in \<open>auto simp: frozen_def\<close>)

text \<open>
  How the loop ends: with all sectors swapped, or at a power failure that left the flash in
  a state from which the swap can go on.
\<close>

definition loop_ok where
  "loop_ok c b0 u0 N st swap X \<longleftrightarrow>
     (\<exists>ret b u k s'. X = Some (ret, b, u, k, s')
        \<and> results (swap_inv c b0 u0 N st N SECT_FLAG_NEW) (swap_safe c b0 u0 N st) s'
        \<and> k \<le> n_sectors c \<and> (alive s' \<longrightarrow> ret = (0::int) \<and> handles c b u swap 0 \<and> k = N))"

lemma loop_ok_dead:
  assumes "\<not> NVM_FLASH_WRITEONCE c" "cfg_ok c" "i \<le> n_sectors c" "tot \<le> WOLFBOOT_PARTITION_SIZE c"
    and "dead s" "swap_safe c b0 u0 N st (flash_mem H s)"
  shows "loop_ok c b0 u0 N st swap (swap_loop c H boot update swap tot i s)"
  using swap_loop_dead [OF assms(1-5), of boot update swap] assms(6) alive_not_dead
  unfolding loop_ok_def results_def by metis

lemma loop_ok_round:
  assumes nvm: "\<not> NVM_FLASH_WRITEONCE c" and ok: "cfg_ok c" "i < n_sectors c"
    and lt: "u32 (i * WOLFBOOT_SECTOR_SIZE c) < tot" "tot \<le> WOLFBOOT_PARTITION_SIZE c"
    and R: "R = swap_sector c H boot update swap i s" "resultsr Q (swap_safe c b0 u0 N st) R"
    and m: "m = flash_mem H (snd R)"
    and cont: "alive (snd R) \<Longrightarrow> unlocked (snd R) \<Longrightarrow> Q m \<Longrightarrow>
      loop_ok c b0 u0 N st swap
        (if i = 0 then swap_loop c H (reopen_boot c m) (reopen_update c m) swap
           (wolfBoot_get_total_size c (reopen_boot c m) (reopen_update c m)) (Suc 0) (snd R)
         else swap_loop c H boot update swap tot (Suc i) (snd R))"
  shows "loop_ok c b0 u0 N st swap (swap_loop c H boot update swap tot i s)"
proof (cases "fst R < 0")
  case True
  then have "dead (snd R)" "swap_safe c b0 u0 N st (flash_mem H (snd R))"
    using R(2) by (auto simp: resultsr_def results_def)
  then show ?thesis
    using frozen_lock alive_not_dead
    unfolding swap_loop_fail [OF lt(1) True R(1)] using ok(2) by (auto simp: loop_ok_def results_def frozen_def)
next
  case False
  note step = swap_loop_step [OF lt(1) False R(1) sector_off_bound(2) [OF ok], folded m]
  show ?thesis
  proof (cases "dead (snd R)")
    case True
    then have "swap_safe c b0 u0 N st (flash_mem H (snd R))"
      using R(2) alive_not_dead by (auto simp: resultsr_def results_def)
    then show ?thesis
      unfolding step using loop_ok_dead [OF nvm ok(1) _ _ True] ok(2) lt(2) reopen_facts(4) [OF ok(1)] by simp
  next
    case False
    with R(2) m cont show ?thesis
      unfolding step by (auto simp: resultsr_def results_def)
  qed
qed

text \<open>From the second sector on, the sizes of both images are known.\<close>

lemma swap_loop_results:
  assumes nvm: "\<not> NVM_FLASH_WRITEONCE c" and ok: "cfg_ok c"
    and N: "N = swap_count c (hsize c (b0 0)) (hsize c (u0 0))" "N < n_sectors c"
    and tot: "tot = max (hsize c (b0 0)) (hsize c (u0 0)) + IMAGE_HEADER_SIZE c"
    and h: "handles c boot update swap 0" "fw_size boot = hsize c (b0 0)" "fw_size update = hsize c (u0 0)"
    and "alive s" "unlocked s" "swap_inv c b0 u0 N st k f (flash_mem H s)" "0 < i" "i \<le> k" "k \<le> N"
  shows "loop_ok c b0 u0 N st swap (swap_loop c H boot update swap tot i s)"
  using assms(9-)
proof (induction "N - i" arbitrary: i k f s rule: less_induct)
  case less
  have totP: "tot \<le> WOLFBOOT_PARTITION_SIZE c"
    using hsize_bound(1) [OF ok] by (simp add: tot max_def)
  have u: "u32 (i * WOLFBOOT_SECTOR_SIZE c) = i * WOLFBOOT_SECTOR_SIZE c"
    using sector_off_bound(1) [OF ok, of i] less.prems(5,6) N(2) by (intro u32_id) simp
  have lt: "u32 (i * WOLFBOOT_SECTOR_SIZE c) < tot \<longleftrightarrow> i < N"
    using swap_count_iff [OF ok] by (simp add: u tot N(1))
  show ?case
  proof (cases "i < N")
    case False
    then have "i = N" "k = N"
      using less.prems by auto
    moreover have "swap_inv c b0 u0 N st N SECT_FLAG_NEW (flash_mem H s)"
      using less.prems(3) \<open>k = N\<close> by (auto simp: swap_inv_def Let_def)
    ultimately show ?thesis
      using less.prems h(1) lt N(2) by (simp add: swap_loop_stop results_def loop_ok_def)
  next
    case True
    let ?R = "swap_sector c H boot update swap i s"
    let ?Q = "\<lambda>m. \<exists>k f. swap_inv c b0 u0 N st k f m \<and> Suc i \<le> k \<and> k \<le> N"
    have R: "resultsr ?Q (swap_safe c b0 u0 N st) ?R"
    proof (cases "i < k")
      case True
      then show ?thesis
        using swap_sector_done [OF nvm ok N(2) \<open>i < N\<close> _ less.prems(3)] less.prems
        by (auto simp: resultsr_def results_def)
    next
      case False
      then have ik: "i = k"
        using less.prems by simp
      have "resultsr (swap_inv c b0 u0 N st i SECT_FLAG_UPDATED) (swap_safe c b0 u0 N st) ?R"
        using swap_sector_results [OF nvm ok N(2) True less.prems(1,2) handles_sizes(2) [OF h(1)]]
          h(2,3) less.prems(3) ik by blast
      moreover have "?Q m" if "swap_inv c b0 u0 N st i SECT_FLAG_UPDATED m" for m
        using swap_inv_next [OF that] True by (intro exI [of _ "Suc i"]) auto
      ultimately show ?thesis
        by (auto simp: resultsr_def results_def)
    qed
    show ?thesis
      by (rule loop_ok_round [OF nvm ok _ _ totP refl R refl])
        (use True N(2) lt less.hyps [of "Suc i"] less.prems(4) in auto)
  qed
qed

text \<open>The whole loop. The size of an image that the phase of the first sector has
  overwritten is not needed.\<close>

lemma swap_loop_all:
  assumes nvm: "\<not> NVM_FLASH_WRITEONCE c" and ok: "cfg_ok c"
    and N: "N = swap_count c (hsize c (b0 0)) (hsize c (u0 0))" "N < n_sectors c"
    and len: "length (b0 0) = WOLFBOOT_SECTOR_SIZE c" "length (u0 0) = WOLFBOOT_SECTOR_SIZE c"
    and tot: "0 < tot" "tot \<le> WOLFBOOT_PARTITION_SIZE c"
    and s: "alive s" "unlocked s" and inv: "swap_inv c b0 u0 N st k f (flash_mem H s)" "k \<le> N"
    and im: "m0 = flash_mem H s" "boot = snd (wolfBoot_open_image c m0 PART_BOOT)"
      "update = snd (wolfBoot_open_image c m0 PART_UPDATE)" "swap = snd (wolfBoot_open_image c m0 PART_SWAP)"
  shows "loop_ok c b0 u0 N st swap (swap_loop c H boot update swap tot 0 s)"
proof -
  note ns = n_sectors_size [OF ok]
  have N0: "0 < N"
    using swap_count_iff [OF ok, of 0] cfg_okD(10) [OF ok] by (auto simp: N(1))
  let ?R = "swap_sector c H boot update swap 0 s"
  let ?Q = "\<lambda>m. \<exists>k f. swap_inv c b0 u0 N st k f m \<and> Suc 0 \<le> k \<and> k \<le> N"
  have R: "resultsr ?Q (swap_safe c b0 u0 N st) ?R"
  proof (cases "0 < k")
    case True
    then show ?thesis
      using swap_sector_done [OF nvm ok N(2) N0 _ inv(1)] s inv by (auto simp: resultsr_def results_def)
  next
    case False
    then have inv0: "swap_inv c b0 u0 N st 0 f (flash_mem H s)"
      using inv by simp
    note ph = swap_inv_at(2) [OF inv0 N0]
    have "resultsr (swap_inv c b0 u0 N st 0 SECT_FLAG_UPDATED) (swap_safe c b0 u0 N st) ?R"
    proof (rule swap_sector_results [OF nvm ok N(2) N0 s _ _ _ inv0])
      show "handles c boot update swap 0"
        unfolding im by (rule open_handles [OF ok])
      show "fw_size boot = hsize c (b0 0)" if "f = SECT_FLAG_NEW \<or> f = SECT_FLAG_SWAPPING"
        using ph that open_image_sizes [OF ok] by (auto simp: im phase_def sect_flag_defs)
      show "fw_size update = hsize c (u0 0)" if "f = SECT_FLAG_NEW"
        using ph that open_image_sizes [OF ok] by (auto simp: im phase_def sect_flag_defs)
    qed
    moreover have "?Q m" if "swap_inv c b0 u0 N st 0 SECT_FLAG_UPDATED m" for m
      using swap_inv_next [OF that] N0 by (intro exI [of _ "Suc 0"]) auto
    ultimately show ?thesis
      by (auto simp: resultsr_def results_def)
  qed
  show ?thesis
  proof (rule loop_ok_round [OF nvm ok _ _ tot(2) refl R refl])
    let ?m = "flash_mem H (snd ?R)"
    assume a: "alive (snd ?R)" "unlocked (snd ?R)" and "?Q ?m"
    then obtain k' f' where q: "swap_inv c b0 u0 N st k' f' ?m" "Suc 0 \<le> k'" "k' \<le> N"
      by blast
    have "sec c ?m (RBoot 0) = new_boot c u0 0" "sec c ?m (RUpd 0) = new_upd c b0 0"
      using q(1,2) N0 by (auto simp: swap_inv_def Let_def phase_def sect_flag_defs)
    then have sz: "fw_size (reopen_boot c ?m) = hsize c (b0 0)" "fw_size (reopen_update c ?m) = hsize c (u0 0)"
      using reopen_facts(1,2) [OF ok] hsize_clip [OF ok] len by (simp_all add: new_boot_def new_upd_def)
    have "wolfBoot_get_total_size c (reopen_boot c ?m) (reopen_update c ?m) =
        max (hsize c (b0 0)) (hsize c (u0 0)) + IMAGE_HEADER_SIZE c"
      using total_size_handles(1) [OF ok, of "reopen_boot c ?m" "reopen_update c ?m"] hsize_bound(1) [OF ok] sz
      by simp
    from swap_loop_results [OF nvm ok N this _ sz a q(1) _ q(2,3)] reopen_facts(3) [OF ok]
    show "loop_ok c b0 u0 N st swap
        (if 0 = 0 then swap_loop c H (reopen_boot c ?m) (reopen_update c ?m) swap
           (wolfBoot_get_total_size c (reopen_boot c ?m) (reopen_update c ?m)) (Suc 0) (snd ?R)
         else swap_loop c H boot update swap tot (Suc 0) (snd ?R))"
      by (simp add: im)
  qed (use ns tot in \<open>auto simp: u32_id\<close>)
qed

end

end
