(* ===== verification/Install.thy ===== *)
theory Install
  imports Swap
begin

text \<open>
  What follows the swap in \<open>wolfBoot_update\<close>: erasing the rest of both partitions and
  \<open>wolfBoot_swap_and_final_erase\<close>, with the state the flash is left in at every power
  failure and the completion of the update from each of these states.
\<close>

subsection \<open>After the loop\<close>

text \<open>Both partitions hold their new contents.\<close>

definition swapped :: "cfg \<Rightarrow> (nat \<Rightarrow> byte list) \<Rightarrow> (nat \<Rightarrow> byte list) \<Rightarrow> nat \<Rightarrow> mem \<Rightarrow> bool" where
  "swapped c b0 u0 N m \<longleftrightarrow>
     (\<forall>i<N. sec c m (RBoot i) = new_boot c u0 i \<and> sec c m (RUpd i) = new_upd c b0 i)"

text \<open>All sectors are marked as swapped, and no other sector is needed any more.\<close>

lemma swap_inv_all_iff:
  "swap_inv c b0 u0 N st N f m \<longleftrightarrow> part_state c PART_UPDATE m = Some st
     \<and> (\<forall>i<N. sector_flag c i m = Some SECT_FLAG_UPDATED) \<and> swapped c b0 u0 N m"
  by (auto simp: swap_inv_def Let_def swapped_def phase_def sect_flag_defs)

lemma swap_inv_beyond:
  assumes "cfg_ok c" "N < n_sectors c" "reg_valid c r" "\<And>i. i < N \<Longrightarrow> r \<noteq> RBoot i \<and> r \<noteq> RUpd i"
    and "same_outside (reg_addr c r) (WOLFBOOT_SECTOR_SIZE c) m m'"
    and "swap_inv c b0 u0 N st N f m"
  shows "swap_inv c b0 u0 N st N f m'"
proof -
  note fs = flags_sameD [OF assms(1) flags_same_reg [OF assms(1,3,5)]]
  have "sec c m' (RBoot i) = sec c m (RBoot i)" "sec c m' (RUpd i) = sec c m (RUpd i)" if "i < N" for i
    using sec_other [OF assms(1,3) _ _ assms(5)] assms(2,4) that by auto
  then show ?thesis
    using assms(2,6) fs by (simp add: swap_inv_all_iff swapped_def)
qed

text \<open>Erasing the rest of both partitions.\<close>

lemma erase_rest_step:
  assumes "cfg_ok c" "i \<le> n_sectors c"
  shows "erase_rest c H boot update i s =
    (if i + (if NVM_FLASH_WRITEONCE c then 2 else 1) < n_sectors c
     then erase_rest c H boot update (Suc i)
       (snd (wb_flash_erase H update (i * WOLFBOOT_SECTOR_SIZE c) (WOLFBOOT_SECTOR_SIZE c)
         (snd (wb_flash_erase H boot (i * WOLFBOOT_SECTOR_SIZE c) (WOLFBOOT_SECTOR_SIZE c) s))))
     else Some s)"
proof -
  let ?ss = "WOLFBOOT_SECTOR_SIZE c" and ?k = "if NVM_FLASH_WRITEONCE c then 2 else 1 :: nat"
  note ns = n_sectors_size [OF assms(1)] and d = cfg_okD [OF assms(1)]
  have "i * ?ss \<le> WOLFBOOT_PARTITION_SIZE c"
    using mult_le_mono1 [OF assms(2), of ?ss] ns(1) by simp
  moreover have "i < 65537"
    using sector_off_bound(2) [OF assms(1), of "i - 1"] assms(2) ns(2) by (cases i) auto
  ultimately have u: "u32 (i * ?ss) = i * ?ss" "u32 (i + 1) = Suc i"
    using d(12) by (auto intro!: u32_id)
  have "WOLFBOOT_PARTITION_SIZE c - ?ss * ?k = (n_sectors c - ?k) * ?ss"
    by (metis ns(1) diff_mult_distrib mult.commute)
  then have "i * ?ss < WOLFBOOT_PARTITION_SIZE c - ?ss * ?k \<longleftrightarrow> i * ?ss < (n_sectors c - ?k) * ?ss"
    by (simp only:)
  also have "\<dots> \<longleftrightarrow> i + ?k < n_sectors c"
    using d(6) by auto
  finally show ?thesis
    by (subst erase_rest.simps) (simp only: u Let_def)
qed

text \<open>It returns on any device.\<close>

lemma erase_rest_returns:
  assumes "cfg_ok c" "i \<le> n_sectors c" "J s"
    and "\<And>img a n s. J s \<Longrightarrow> J (snd (wb_flash_erase H img a n s))"
  shows "\<exists>s'. erase_rest c H boot update i s = Some s' \<and> J s'"
  using assms(2,3)
proof (induction "n_sectors c - i" arbitrary: i s rule: less_induct)
  case less
  then show ?case
    using less.hyps [of "Suc i"] assms(4)
    by (subst erase_rest_step [OF assms(1) less.prems(1)]) auto
qed

context flash_hal
begin

lemma frozen_wb_erase: "frozen (\<lambda>s. snd (wb_flash_erase H img a n s))"
  unfolding wb_flash_erase_def by (rule frozen_erase)

lemma erase_beyond:
  assumes "cfg_ok c" "N < n_sectors c" "reg_valid c r" "\<And>i. i < N \<Longrightarrow> r \<noteq> RBoot i \<and> r \<noteq> RUpd i"
    and "alive s" "unlocked s" "swap_inv c b0 u0 N st N f (flash_mem H s)"
    and "img_hdr img + a = reg_addr c r"
  shows "results (swap_inv c b0 u0 N st N f) (swap_inv c b0 u0 N st N f)
    (snd (wb_flash_erase H img a (WOLFBOOT_SECTOR_SIZE c) s))"
  unfolding wb_flash_erase_def assms(8)
  by (rule results_outcome [OF erase_outcome [OF assms(5,6)]];
      rule swap_inv_beyond [OF assms(1-4) _ assms(7)])
    (simp_all add: same_outside_mfill)

lemma erase_rest_results:
  assumes nvm: "\<not> NVM_FLASH_WRITEONCE c" and ok: "cfg_ok c" "N < n_sectors c"
    and h: "handles c boot update swap 0" and i: "N \<le> i" "i < n_sectors c"
    and s: "results (swap_inv c b0 u0 N st N f) (swap_inv c b0 u0 N st N f) s"
  shows "\<exists>s'. erase_rest c H boot update i s = Some s'
    \<and> results (swap_inv c b0 u0 N st N f) (swap_inv c b0 u0 N st N f) s'"
  using i s
proof (induction "n_sectors c - i" arbitrary: i s rule: less_induct)
  case less
  show ?case
  proof (cases "i + 1 < n_sectors c")
    case False
    with less.prems show ?thesis
      by (subst erase_rest_step [OF ok(1)]) (use nvm in auto)
  next
    case True
    let ?e = "\<lambda>img s. snd (wb_flash_erase H img (i * WOLFBOOT_SECTOR_SIZE c) (WOLFBOOT_SECTOR_SIZE c) s)"
    have "results (swap_inv c b0 u0 N st N f) (swap_inv c b0 u0 N st N f) (?e boot s)"
      by (rule results_bind [OF less.prems(3) frozen_wb_erase], rule erase_beyond [OF ok, of "RBoot i"])
        (use True less.prems(1) h in \<open>auto simp: handles_def\<close>)
    then have "results (swap_inv c b0 u0 N st N f) (swap_inv c b0 u0 N st N f) (?e update (?e boot s))"
      by (rule results_bind [OF _ frozen_wb_erase], intro erase_beyond [OF ok, of "RUpd i"])
        (use True less.prems(1) h in \<open>auto simp: handles_def\<close>)
    with less.hyps [of "Suc i"] less.prems(1,2) True nvm show ?thesis
      by (subst erase_rest_step [OF ok(1)]) auto
  qed
qed

lemma erase_rest_dead:
  assumes "cfg_ok c" "i \<le> n_sectors c" "dead s"
  shows "\<exists>s'. erase_rest c H boot update i s = Some s' \<and> dead s' \<and> flash_mem H s' = flash_mem H s"
  by (rule erase_rest_returns [OF assms(1,2), where J = "\<lambda>s'. dead s' \<and> flash_mem H s' = flash_mem H s"])
    (use assms(3) frozen_wb_erase in \<open>auto simp: frozen_def\<close>)

end

subsection \<open>The final erase\<close>

text \<open>
  The sector of BOOT below its flags. The final erase keeps a copy of it in SWAP while it
  rewrites it.
\<close>

definition tail_sector :: "cfg \<Rightarrow> nat" where
  "tail_sector c = n_sectors c - 2"

text \<open>
  A sector holds the bytes of an original sector, as far as they belong to the image of
  size \<open>f\<close>.
\<close>

definition holds :: "cfg \<Rightarrow> nat \<Rightarrow> nat \<Rightarrow> byte list \<Rightarrow> byte list \<Rightarrow> bool" where
  "holds c f i L0 L \<longleftrightarrow>
     (\<forall>x < WOLFBOOT_SECTOR_SIZE c. i * WOLFBOOT_SECTOR_SIZE c + x < f + IMAGE_HEADER_SIZE c \<longrightarrow> L ! x = L0 ! x)"

lemma holds_clip: "holds c f i L0 (clip c (i * WOLFBOOT_SECTOR_SIZE c) f L) = holds c f i L0 L"
  by (auto simp: holds_def clip_nth)

lemma holds_new:
  "holds c (hsize c (u0 0)) i (u0 i) (new_boot c u0 i)"
  "holds c (hsize c (b0 0)) i (b0 i) (new_upd c b0 i)"
  by (auto simp: holds_def new_boot_def new_upd_def clip_nth)

lemma holds_beyond: "f + IMAGE_HEADER_SIZE c \<le> i * WOLFBOOT_SECTOR_SIZE c \<Longrightarrow> holds c f i L0 L"
  by (simp add: holds_def)

text \<open>Each partition holds the image that the other one held.\<close>

definition installed :: "cfg \<Rightarrow> (nat \<Rightarrow> byte list) \<Rightarrow> (nat \<Rightarrow> byte list) \<Rightarrow> nat \<Rightarrow> mem \<Rightarrow> bool" where
  "installed c b0 u0 N m \<longleftrightarrow>
     (\<forall>i<N. holds c (hsize c (u0 0)) i (u0 i) (sec c m (RBoot i))
          \<and> holds c (hsize c (b0 0)) i (b0 i) (sec c m (RUpd i)))"

text \<open>
  The final erase has been announced in the state of UPDATE: BOOT is complete but for its
  tail sector, which is in SWAP.
\<close>

definition final_safe :: "cfg \<Rightarrow> (nat \<Rightarrow> byte list) \<Rightarrow> (nat \<Rightarrow> byte list) \<Rightarrow> nat \<Rightarrow> mem \<Rightarrow> bool" where
  "final_safe c b0 u0 N m \<longleftrightarrow>
     part_state c PART_UPDATE m = Some IMG_STATE_FINAL_FLAGS
   \<and> (\<forall>i<N. holds c (hsize c (b0 0)) i (b0 i) (sec c m (RUpd i)))
   \<and> (\<forall>i<N. i \<noteq> tail_sector c \<longrightarrow> holds c (hsize c (u0 0)) i (u0 i) (sec c m (RBoot i)))
   \<and> (tail_sector c < N \<longrightarrow> holds c (hsize c (u0 0)) (tail_sector c) (u0 (tail_sector c)) (sec c m RSwap))"

text \<open>The new image has been installed and is to be tested.\<close>

definition testing :: "cfg \<Rightarrow> (nat \<Rightarrow> byte list) \<Rightarrow> (nat \<Rightarrow> byte list) \<Rightarrow> nat \<Rightarrow> mem \<Rightarrow> bool" where
  "testing c b0 u0 N m \<longleftrightarrow>
     installed c b0 u0 N m \<and> part_state c PART_BOOT m = Some IMG_STATE_TESTING"

text \<open>The last sector of a partition holds its flags.\<close>

definition flags_addr :: "cfg \<Rightarrow> nat \<Rightarrow> nat" where
  "flags_addr c part =
     (if part = PART_BOOT then WOLFBOOT_PARTITION_BOOT_ADDRESS c else WOLFBOOT_PARTITION_UPDATE_ADDRESS c)
     + WOLFBOOT_PARTITION_SIZE c - WOLFBOOT_SECTOR_SIZE c"

lemma reg_last_disjoint:
  assumes "cfg_ok c" "reg_valid c r"
  shows "reg_addr c r + WOLFBOOT_SECTOR_SIZE c \<le> flags_addr c part
    \<or> flags_addr c part + WOLFBOOT_SECTOR_SIZE c \<le> reg_addr c r"
proof -
  note p = cfg_ok_disjoint [OF assms(1)] sector_in_partition [OF assms(1)] cfg_okD(4) [OF assms(1)]
  show ?thesis
    using assms(2) p by (cases r) (force simp: flags_addr_def)+
qed

lemma sec_flags:
  assumes "cfg_ok c" "reg_valid c r" "same_outside (flags_addr c part) (WOLFBOOT_SECTOR_SIZE c) m m'"
  shows "sec c m' r = sec c m r"
  unfolding sec_def
  by (rule mread_same_outside [OF assms(3)]) (use reg_last_disjoint [OF assms(1,2), of part] in blast)

lemma trailer_in_flags:
  assumes "cfg_ok c" "\<not> FLAGS_HOME c"
  shows "flags_addr c part \<le> trailer_addr c part 1"
    "trailer_addr c part 0 + 4 = flags_addr c part + WOLFBOOT_SECTOR_SIZE c"
  using cfg_okD [OF assms(1)] assms(2)
  by (auto simp: flags_addr_def trailer_addr_def PART_BOOT_ENDFLAGS_def PART_UPDATE_ENDFLAGS_def)

lemma flags_addr_disjoint:
  assumes "cfg_ok c" "part = PART_BOOT \<and> part' = PART_UPDATE \<or> part = PART_UPDATE \<and> part' = PART_BOOT"
  shows "flags_addr c part + WOLFBOOT_SECTOR_SIZE c \<le> flags_addr c part'
    \<or> flags_addr c part' + WOLFBOOT_SECTOR_SIZE c \<le> flags_addr c part"
  using cfg_ok_disjoint [OF assms(1)] cfg_okD(4) [OF assms(1)] assms(2) by (auto simp: flags_addr_def)

lemma part_state_flags_other:
  assumes "cfg_ok c" "\<not> FLAGS_HOME c"
    and "part = PART_BOOT \<and> part' = PART_UPDATE \<or> part = PART_UPDATE \<and> part' = PART_BOOT"
    and "same_outside (flags_addr c part) (WOLFBOOT_SECTOR_SIZE c) m m'"
  shows "part_state c part' m' = part_state c part' m"
proof (rule part_state_cong [OF assms(1)])
  fix x
  assume "trailer_addr c part' 1 \<le> x" "x < trailer_addr c part' 0 + 4"
  then show "m' x = m x"
    using trailer_in_flags [OF assms(1,2), of part'] flags_addr_disjoint [OF assms(1,3)] assms(4)
    by (auto simp: same_outside_def)
qed

lemma part_state_region:
  assumes "cfg_ok c" "\<not> FLAGS_HOME c" "reg_valid c r"
    and "same_outside (reg_addr c r) (WOLFBOOT_SECTOR_SIZE c) m m'"
  shows "part_state c part m' = part_state c part m"
proof (rule part_state_cong [OF assms(1)])
  fix x
  assume "trailer_addr c part 1 \<le> x" "x < trailer_addr c part 0 + 4"
  then show "m' x = m x"
    using trailer_in_flags [OF assms(1,2), of part] reg_last_disjoint [OF assms(1,3), of part] assms(4)
    by (auto simp: same_outside_def)
qed

lemma installed_cong:
  assumes "\<And>r. reg_valid c r \<Longrightarrow> sec c m' r = sec c m r" "N < n_sectors c"
  shows "installed c b0 u0 N m' = installed c b0 u0 N m"
  using assms by (simp add: installed_def)

lemma final_safe_cong:
  assumes "\<And>r. reg_valid c r \<Longrightarrow> r \<noteq> RBoot (tail_sector c) \<Longrightarrow> sec c m' r = sec c m r" "N < n_sectors c"
    and "part_state c PART_UPDATE m' = part_state c PART_UPDATE m"
  shows "final_safe c b0 u0 N m' = final_safe c b0 u0 N m"
  using assms by (simp add: final_safe_def)

lemma final_safe_installed:
  "final_safe c b0 u0 N m \<Longrightarrow>
    (tail_sector c < N \<longrightarrow> holds c (hsize c (u0 0)) (tail_sector c) (u0 (tail_sector c)) (sec c m (RBoot (tail_sector c)))) \<Longrightarrow>
    installed c b0 u0 N m"
  by (auto simp: final_safe_def installed_def)

text \<open>The BOOT flags are erased, and the tail sector is back.\<close>

definition boot_flags_erased :: "cfg \<Rightarrow> mem \<Rightarrow> bool" where
  "boot_flags_erased c m \<longleftrightarrow>
     (\<forall>x. flags_addr c PART_BOOT \<le> x \<and> x < flags_addr c PART_BOOT + WOLFBOOT_SECTOR_SIZE c \<longrightarrow> m x = 255)"

lemma boot_flags_erased_region:
  assumes "cfg_ok c" "reg_valid c r" "same_outside (reg_addr c r) (WOLFBOOT_SECTOR_SIZE c) m m'"
    and "boot_flags_erased c m"
  shows "boot_flags_erased c m'"
  using assms(3,4) reg_last_disjoint [OF assms(1,2), of PART_BOOT]
  by (auto simp: boot_flags_erased_def same_outside_def)

lemma set_testing_erased:
  assumes "cfg_ok c" "\<not> FLAGS_HOME c" "boot_flags_erased c m"
  shows "part_state c PART_BOOT (set_state_mem c PART_BOOT IMG_STATE_TESTING m) = Some IMG_STATE_TESTING"
proof -
  note l = trailer_in_flags [OF assms(1,2), of PART_BOOT] trailer_addr_1 [OF assms(1), of PART_BOOT]
  have "magic_ready c PART_BOOT m"
    using l assms(3) by (intro magic_ready_if) (auto simp: boot_flags_erased_def)
  moreover have "m (trailer_addr c PART_BOOT 1) = 255"
    using l assms(3) by (simp add: boot_flags_erased_def)
  ultimately show ?thesis
    by (simp only: part_state_set_state [OF assms(1)] and_max_byte)
qed

lemma set_state_in_flags:
  assumes "cfg_ok c" "\<not> FLAGS_HOME c"
  shows "same_outside (flags_addr c part) (WOLFBOOT_SECTOR_SIZE c) m (set_state_mem c part v m)"
    "magic_torn c part m m' \<Longrightarrow> same_outside (flags_addr c part) (WOLFBOOT_SECTOR_SIZE c) m m'"
proof -
  note l = trailer_in_flags [OF assms, of part] trailer_addr_1 [OF assms(1), of part]
  show "same_outside (flags_addr c part) (WOLFBOOT_SECTOR_SIZE c) m (set_state_mem c part v m)"
    by (rule same_outside_mono [OF set_state_frame [OF assms(1)]]) (use l in auto)
  show "magic_torn c part m m' \<Longrightarrow> same_outside (flags_addr c part) (WOLFBOOT_SECTOR_SIZE c) m m'"
    by (rule same_outside_mono [OF magic_torn_frame]) (use l in auto)
qed

lemma part_state_erased:
  assumes "m (trailer_addr c part 0) = 255"
  shows "part_state c part m = None"
proof -
  let ?a = "trailer_addr c part 0"
  have "le32_at m ?a = 255 + 256 * (unat (m (?a + 1)) + 256 * unat (m (?a + 2)) + 65536 * unat (m (?a + 3)))"
    by (simp only: le32_at_eq assms) simp
  then have "le32_at m ?a mod 256 = 255"
    by (simp only: mod_mult_self2) simp
  then have "le32_at m ?a \<noteq> WOLFBOOT_MAGIC_TRAIL"
    unfolding WOLFBOOT_MAGIC_TRAIL_def by (intro notI) simp
  then show ?thesis
    by (simp add: part_state_def has_magic_def)
qed

lemma tail_sector_facts:
  assumes "cfg_ok c"
  shows "tail_sector c + 1 < n_sectors c" "tail_sector c < n_sectors c"
    "WOLFBOOT_PARTITION_SIZE c - WOLFBOOT_SECTOR_SIZE c - WOLFBOOT_SECTOR_SIZE c
       = tail_sector c * WOLFBOOT_SECTOR_SIZE c"
    "tail_sector c * WOLFBOOT_SECTOR_SIZE c div WOLFBOOT_SECTOR_SIZE c = tail_sector c"
proof -
  note n = n_sectors_size [OF assms] cfg_okD(6) [OF assms]
  show "tail_sector c + 1 < n_sectors c" "tail_sector c < n_sectors c"
    using n by (auto simp: tail_sector_def)
  show "WOLFBOOT_PARTITION_SIZE c - WOLFBOOT_SECTOR_SIZE c - WOLFBOOT_SECTOR_SIZE c
       = tail_sector c * WOLFBOOT_SECTOR_SIZE c"
    by (simp add: tail_sector_def diff_mult_distrib n(1))
  show "tail_sector c * WOLFBOOT_SECTOR_SIZE c div WOLFBOOT_SECTOR_SIZE c = tail_sector c"
    using n(3) by (intro nonzero_mult_div_cancel_right) simp
qed

text \<open>The part of the final erase after the state of UPDATE has been set.\<close>

definition final_tail ::
  "cfg \<Rightarrow> 's hal \<Rightarrow> wolfBoot_image \<Rightarrow> wolfBoot_image \<Rightarrow> wolfBoot_image \<Rightarrow> 's \<Rightarrow> 's" where
  "final_tail c H boot update swap s =
     (let s = snd (wb_flash_erase H boot (WOLFBOOT_PARTITION_SIZE c - WOLFBOOT_SECTOR_SIZE c)
                     (WOLFBOOT_SECTOR_SIZE c) s);
          s = (if tail_sector c * WOLFBOOT_SECTOR_SIZE c < u32 (fw_size boot + IMAGE_HEADER_SIZE c)
               then snd (wolfBoot_copy_sector c H swap boot (tail_sector c) s)
               else snd (wb_flash_erase H boot (tail_sector c * WOLFBOOT_SECTOR_SIZE c) (WOLFBOOT_SECTOR_SIZE c) s));
          s = snd (wolfBoot_set_partition_state c H PART_BOOT IMG_STATE_TESTING s)
      in snd (wb_flash_erase H update (WOLFBOOT_PARTITION_SIZE c - WOLFBOOT_SECTOR_SIZE c)
                (WOLFBOOT_SECTOR_SIZE c) s))"

context flash_hal
begin

lemma erase_flags_outcome:
  assumes "cfg_ok c" "alive s" "unlocked s"
    and "img_hdr img = (if part = PART_BOOT then WOLFBOOT_PARTITION_BOOT_ADDRESS c
                        else WOLFBOOT_PARTITION_UPDATE_ADDRESS c)"
  shows "outcome (mfill (flash_mem H s) (flags_addr c part) (WOLFBOOT_SECTOR_SIZE c) 255)
    (same_outside (flags_addr c part) (WOLFBOOT_SECTOR_SIZE c) (flash_mem H s))
    (snd (wb_flash_erase H img (WOLFBOOT_PARTITION_SIZE c - WOLFBOOT_SECTOR_SIZE c) (WOLFBOOT_SECTOR_SIZE c) s))"
proof -
  have "img_hdr img + (WOLFBOOT_PARTITION_SIZE c - WOLFBOOT_SECTOR_SIZE c) = flags_addr c part"
    using cfg_okD(4) [OF assms(1)] assms(4) by (simp add: flags_addr_def)
  then show ?thesis
    unfolding wb_flash_erase_def by (simp add: erase_outcome [OF assms(2,3)])
qed

lemma final_erase_boot_flags:
  assumes "\<not> FLAGS_HOME c" "cfg_ok c" "N < n_sectors c" "handles c boot update swap 0"
    and "alive s" "unlocked s" "final_safe c b0 u0 N (flash_mem H s)"
  shows "results (\<lambda>m. final_safe c b0 u0 N m \<and> boot_flags_erased c m) (final_safe c b0 u0 N)
    (snd (wb_flash_erase H boot (WOLFBOOT_PARTITION_SIZE c - WOLFBOOT_SECTOR_SIZE c) (WOLFBOOT_SECTOR_SIZE c) s))"
proof -
  have step: "final_safe c b0 u0 N m'"
    if so: "same_outside (flags_addr c PART_BOOT) (WOLFBOOT_SECTOR_SIZE c) (flash_mem H s) m'" for m'
    using final_safe_cong [of c m' "flash_mem H s" N b0 u0] sec_flags [OF assms(2) _ so] assms(3,7)
      part_state_flags_other [OF assms(2,1) _ so, of PART_UPDATE] by simp
  show ?thesis
    by (rule results_outcome [OF erase_flags_outcome [OF assms(2,5,6), of _ PART_BOOT]])
      (use assms(4) step in \<open>auto simp: handles_def boot_flags_erased_def mem_simps same_outside_mfill\<close>)
qed

lemma final_restore_tail:
  assumes nvm: "\<not> NVM_FLASH_WRITEONCE c" "\<not> FLAGS_HOME c" and ok: "cfg_ok c" "N < n_sectors c"
    and h: "handles c boot update swap 0" "fw_size boot = hsize c (u0 0)"
    and s: "alive s" "unlocked s" "final_safe c b0 u0 N (flash_mem H s)" "boot_flags_erased c (flash_mem H s)"
  shows "results (\<lambda>m. final_safe c b0 u0 N m \<and> boot_flags_erased c m \<and> installed c b0 u0 N m) (final_safe c b0 u0 N)
    (if tail_sector c * WOLFBOOT_SECTOR_SIZE c < u32 (fw_size boot + IMAGE_HEADER_SIZE c)
     then snd (wolfBoot_copy_sector c H swap boot (tail_sector c) s)
     else snd (wb_flash_erase H boot (tail_sector c * WOLFBOOT_SECTOR_SIZE c) (WOLFBOOT_SECTOR_SIZE c) s))"
    (is "results ?Q ?P (if ?short then ?copy else ?erase)")
proof -
  let ?m = "flash_mem H s" and ?r = "RBoot (tail_sector c)" and ?ss = "WOLFBOOT_SECTOR_SIZE c"
  note t = tail_sector_facts [OF ok(1)]
  have v: "reg_valid c ?r"
    using t(1) by simp
  have u: "u32 (fw_size boot + IMAGE_HEADER_SIZE c) = hsize c (u0 0) + IMAGE_HEADER_SIZE c"
    using hsize_bound(1) [OF ok(1), of "u0 0"] cfg_okD(12) [OF ok(1)] h(2) by (simp add: u32_id)
  have safe: "final_safe c b0 u0 N m' \<and> boot_flags_erased c m'" if so: "same_outside (reg_addr c ?r) ?ss ?m m'" for m'
    using final_safe_cong [of c m' ?m N b0 u0] sec_other [OF ok(1) v _ _ so] ok(2) s(3)
      part_state_region [OF ok(1) nvm(2) v so, of PART_UPDATE] boot_flags_erased_region [OF ok(1) v so s(4)] by simp
  show ?thesis
  proof (cases ?short)
    case True
    have sw: "fw_size swap = ?ss" "fw_size swap < 2147483648" "reg_img c swap (tail_sector c) RSwap"
      "reg_img c boot (tail_sector c) ?r"
      using h(1) cfg_okD(14) [OF ok(1)] by (auto simp: handles_def)
    let ?m' = "mwrite ?m (reg_addr c ?r) (sec c ?m RSwap)"
    have so: "same_outside (reg_addr c ?r) ?ss ?m ?m'"
      by (simp add: same_outside_def mem_simps)
    have sec': "sec c ?m' ?r = sec c ?m RSwap"
      by (rule sec_write) simp
    have "tail_sector c < N \<longrightarrow> holds c (hsize c (u0 0)) (tail_sector c) (u0 (tail_sector c)) (sec c ?m RSwap)"
      using s(3) by (simp add: final_safe_def)
    then have "tail_sector c < N \<longrightarrow> holds c (hsize c (u0 0)) (tail_sector c) (u0 (tail_sector c)) (sec c ?m' ?r)"
      by (subst sec')
    then have "installed c b0 u0 N ?m'"
      by (rule final_safe_installed [OF conjunct1 [OF safe [OF so]]])
    then have q: "?Q ?m'"
      using safe [OF so] by blast
    have "outcome ?m' (same_outside (reg_addr c ?r) ?ss ?m) ?copy"
      using conjunct1 [OF copy_region [OF ok(1) t(2) sw(2) s(1,2) sw(3,4) _ v]] by (simp add: sw(1) clip_all)
    from results_outcome [OF this, of ?Q ?P, OF q] safe True show ?thesis
      by simp
  next
    case False
    have "installed c b0 u0 N m'" if "final_safe c b0 u0 N m'" for m'
      by (rule final_safe_installed [OF that]) (use False u holds_beyond in auto)
    moreover have "img_hdr boot + tail_sector c * ?ss = reg_addr c ?r"
      using h(1) by (simp add: handles_def)
    ultimately have "results ?Q ?P ?erase"
      unfolding wb_flash_erase_def using safe
      by (intro results_outcome [OF erase_outcome [OF s(1,2)]]) (auto simp: same_outside_mfill)
    with False show ?thesis
      by simp
  qed
qed

lemma final_set_testing:
  assumes nvm: "\<not> NVM_FLASH_WRITEONCE c" "\<not> FLAGS_HOME c" and ok: "cfg_ok c" "N < n_sectors c"
    and s: "alive s" "unlocked s" "final_safe c b0 u0 N (flash_mem H s)" "boot_flags_erased c (flash_mem H s)"
      "installed c b0 u0 N (flash_mem H s)"
  shows "results (\<lambda>m. testing c b0 u0 N m \<and> final_safe c b0 u0 N m) (final_safe c b0 u0 N)
    (snd (wolfBoot_set_partition_state c H PART_BOOT IMG_STATE_TESTING s))"
proof -
  let ?m = "flash_mem H s"
  have safe: "final_safe c b0 u0 N m'" if so: "same_outside (flags_addr c PART_BOOT) (WOLFBOOT_SECTOR_SIZE c) ?m m'" for m'
    using final_safe_cong [of c m' ?m N b0 u0] sec_flags [OF ok(1) _ so] ok(2) s(3)
      part_state_flags_other [OF ok(1) nvm(2) _ so, of PART_UPDATE] by simp
  let ?m' = "set_state_mem c PART_BOOT IMG_STATE_TESTING ?m"
  note fl = set_state_in_flags [OF ok(1) nvm(2), of PART_BOOT]
  have "installed c b0 u0 N ?m'"
    using installed_cong [of c ?m' ?m N b0 u0] sec_flags [OF ok(1) _ fl(1)] ok(2) s(5) by simp
  then have "testing c b0 u0 N ?m'"
    using set_testing_erased [OF ok(1) nvm(2) s(4)] by (simp add: testing_def)
  then show ?thesis
    by (intro results_outcome [OF set_state_outcome [OF nvm(1) _ s(1,2)]]) (auto intro: safe fl)
qed

lemma final_tail_results:
  assumes nvm: "\<not> NVM_FLASH_WRITEONCE c" "\<not> FLAGS_HOME c" and ok: "cfg_ok c" "N < n_sectors c"
    and h: "handles c boot update swap 0" "fw_size boot = hsize c (u0 0)"
    and s: "alive s" "unlocked s" "final_safe c b0 u0 N (flash_mem H s)"
  shows "results (\<lambda>m. testing c b0 u0 N m \<and> part_state c PART_UPDATE m = None)
    (\<lambda>m. final_safe c b0 u0 N m \<or> testing c b0 u0 N m) (final_tail c H boot update swap s)"
proof -
  let ?P = "\<lambda>m. final_safe c b0 u0 N m \<or> testing c b0 u0 N m"
  let ?ss = "WOLFBOOT_SECTOR_SIZE c"
  define e1 where "e1 = (\<lambda>s. snd (wb_flash_erase H boot (WOLFBOOT_PARTITION_SIZE c - ?ss) ?ss s))"
  define e2 where "e2 = (\<lambda>s. if tail_sector c * ?ss < u32 (fw_size boot + IMAGE_HEADER_SIZE c)
     then snd (wolfBoot_copy_sector c H swap boot (tail_sector c) s)
     else snd (wb_flash_erase H boot (tail_sector c * ?ss) ?ss s))"
  define e3 where "e3 = (\<lambda>s. snd (wolfBoot_set_partition_state c H PART_BOOT IMG_STATE_TESTING s))"
  define e4 where "e4 = (\<lambda>s. snd (wb_flash_erase H update (WOLFBOOT_PARTITION_SIZE c - ?ss) ?ss s))"
  have fr: "frozen e2" "frozen e3" "frozen e4"
    unfolding e2_def e3_def e4_def
    by (rule frozen_if [OF frozen_copy_sector frozen_wb_erase], rule frozen_set_state [OF nvm(1)], simp,
        rule frozen_wb_erase)
  have "results (\<lambda>m. final_safe c b0 u0 N m \<and> boot_flags_erased c m) ?P (e1 s)"
    unfolding e1_def
    by (rule results_mono [OF final_erase_boot_flags [OF nvm(2) ok h(1) s]]) auto
  then have "results (\<lambda>m. final_safe c b0 u0 N m \<and> boot_flags_erased c m \<and> installed c b0 u0 N m) ?P (e2 (e1 s))"
    by (rule results_bind [OF _ fr(1)])
      (unfold e2_def, rule results_mono [OF final_restore_tail [where ?u0.0 = u0 and ?b0.0 = b0, OF nvm ok h]], auto)
  then have "results (\<lambda>m. testing c b0 u0 N m \<and> final_safe c b0 u0 N m) ?P (e3 (e2 (e1 s)))"
    by (rule results_bind [OF _ fr(2)])
      (unfold e3_def, rule results_mono [OF final_set_testing [OF nvm ok]], auto)
  then have "results (\<lambda>m. testing c b0 u0 N m \<and> part_state c PART_UPDATE m = None) ?P (e4 (e3 (e2 (e1 s))))"
  proof (rule results_bind [OF _ fr(3)])
    fix s
    assume s: "alive s" "unlocked s" and m: "testing c b0 u0 N (flash_mem H s) \<and> final_safe c b0 u0 N (flash_mem H s)"
    have t: "testing c b0 u0 N m'" if so: "same_outside (flags_addr c PART_UPDATE) ?ss (flash_mem H s) m'" for m'
      using m installed_cong [of c m' "flash_mem H s" N b0 u0] sec_flags [OF ok(1) _ so] ok(2)
        part_state_flags_other [OF ok(1) nvm(2) _ so, of PART_BOOT] by (simp add: testing_def)
    note l = trailer_in_flags [OF ok(1) nvm(2), of PART_UPDATE] trailer_addr_1 [OF ok(1), of PART_UPDATE]
    have "part_state c PART_UPDATE (mfill (flash_mem H s) (flags_addr c PART_UPDATE) ?ss 255) = None"
      by (rule part_state_erased) (use l in \<open>simp add: mem_simps\<close>)
    then show "results (\<lambda>m. testing c b0 u0 N m \<and> part_state c PART_UPDATE m = None) ?P (e4 s)"
      unfolding e4_def
      by (intro results_outcome [OF erase_flags_outcome [OF ok(1) s, of _ PART_UPDATE]])
        (use h(1) t in \<open>auto simp: handles_def same_outside_mfill\<close>)
  qed
  then show ?thesis
    by (simp add: final_tail_def Let_def e1_def e2_def e3_def e4_def)
qed

end

lemma hsize_holds:
  assumes "cfg_ok c" "holds c f 0 L0 L" "length L0 = WOLFBOOT_SECTOR_SIZE c" "length L = WOLFBOOT_SECTOR_SIZE c"
  shows "hsize c L = hsize c L0"
  using cfg_okD [OF assms(1)] assms(2-4)
  by (intro hsize_cong) (auto simp: holds_def IMAGE_HEADER_OFFSET_def)

text \<open>\<open>wolfBoot_swap_and_final_erase\<close> in these terms.\<close>

lemma final_erase_eq:
  assumes "\<not> NVM_FLASH_WRITEONCE c" "cfg_ok c"
    and "m = flash_mem H s" "boot = snd (wolfBoot_open_image c m PART_BOOT)"
      "update = snd (wolfBoot_open_image c m PART_UPDATE)" "swap = snd (wolfBoot_open_image c m PART_SWAP)"
    and "final \<longleftrightarrow> part_state c PART_UPDATE m = Some IMG_STATE_FINAL_FLAGS"
  shows "wolfBoot_swap_and_final_erase c H resume s =
    (if resume \<and> le32_at m (WOLFBOOT_PARTITION_BOOT_ADDRESS c + tail_sector c * WOLFBOOT_SECTOR_SIZE c) \<noteq> WOLFBOOT_MAGIC_TRAIL
        \<and> \<not> final then (-1, s)
     else (0, hal_flash_lock H (final_tail c H boot update swap
       (if final then hal_flash_unlock H s
        else snd (wolfBoot_set_partition_state c H PART_UPDATE IMG_STATE_FINAL_FLAGS
               (snd (wolfBoot_copy_sector c H boot swap (tail_sector c) (hal_flash_unlock H s))))))))"
proof -
  have hdr: "img_hdr boot = WOLFBOOT_PARTITION_BOOT_ADDRESS c"
    using open_handles [OF assms(2), of m m 0] by (simp add: assms(4) handles_def)
  have fin: "(case part_state c PART_UPDATE m of None \<Rightarrow> IMG_STATE_NEW | Some v \<Rightarrow> v) \<noteq> IMG_STATE_FINAL_FLAGS \<longleftrightarrow> \<not> final"
    unfolding assms(7) by (auto simp: img_state_defs split: option.splits)
  show ?thesis
    unfolding wolfBoot_swap_and_final_erase_def final_tail_def
    by (simp only: Let_def split_def get_state_nor [OF assms(1)] assms(3) [symmetric] assms(4-6) [symmetric]
        prod.sel fin hdr assms(1) if_False mult_1_right tail_sector_facts(3,4) [OF assms(2)] simp_thms
        tail_sector_facts(3) [OF assms(2), unfolded diff_diff_left])
      (auto simp: Let_def)
qed

text \<open>
  How an update ends, and where a power failure may leave the flash: in the middle of the
  swap, in the middle of the final erase, or with the new image in place.
\<close>

definition update_done :: "cfg \<Rightarrow> (nat \<Rightarrow> byte list) \<Rightarrow> (nat \<Rightarrow> byte list) \<Rightarrow> nat \<Rightarrow> mem \<Rightarrow> bool" where
  "update_done c b0 u0 N m \<longleftrightarrow> testing c b0 u0 N m \<and> part_state c PART_UPDATE m = None"

definition update_safe :: "cfg \<Rightarrow> (nat \<Rightarrow> byte list) \<Rightarrow> (nat \<Rightarrow> byte list) \<Rightarrow> nat \<Rightarrow> mem \<Rightarrow> bool" where
  "update_safe c b0 u0 N m \<longleftrightarrow>
     swap_safe c b0 u0 N IMG_STATE_UPDATING m \<or> final_safe c b0 u0 N m \<or> testing c b0 u0 N m"

context flash_hal
begin

definition ends :: "(mem \<Rightarrow> bool) \<Rightarrow> (mem \<Rightarrow> bool) \<Rightarrow> 's \<Rightarrow> bool" where
  "ends Q P s \<longleftrightarrow> (alive s \<and> Q (flash_mem H s)) \<or> (dead s \<and> P (flash_mem H s))"

lemma ends_lock: "results Q P s \<Longrightarrow> ends Q P (hal_flash_lock H s)"
  by (auto simp: results_def ends_def lock_alive lock_dead lock_mem)

lemma frozen_final_tail:
  assumes "\<not> NVM_FLASH_WRITEONCE c"
  shows "frozen (final_tail c H boot update swap)"
proof -
  note f = frozen_wb_erase frozen_copy_sector frozen_set_state [OF assms, of PART_BOOT]
  show ?thesis
    unfolding frozen_def final_tail_def Let_def using f [unfolded frozen_def] by simp
qed

lemma final_tail_ends:
  assumes "\<not> NVM_FLASH_WRITEONCE c" "\<not> FLAGS_HOME c" "cfg_ok c" "N < n_sectors c"
    and "handles c boot update swap 0" "fw_size boot = hsize c (u0 0)"
    and "results (final_safe c b0 u0 N) (update_safe c b0 u0 N) s"
  shows "ends (update_done c b0 u0 N) (update_safe c b0 u0 N) (hal_flash_lock H (final_tail c H boot update swap s))"
proof (rule ends_lock, rule results_bind [OF assms(7) frozen_final_tail [OF assms(1)]])
  fix s
  assume "alive s" "unlocked s" "final_safe c b0 u0 N (flash_mem H s)"
  from results_mono [OF final_tail_results [where ?u0.0 = u0 and ?b0.0 = b0, OF assms(1-6) this]]
  show "results (update_done c b0 u0 N) (update_safe c b0 u0 N) (final_tail c H boot update swap s)"
    by (auto simp: update_done_def update_safe_def)
qed

text \<open>Resumed after a power failure.\<close>

lemma final_erase_resume:
  assumes "\<not> NVM_FLASH_WRITEONCE c" "\<not> FLAGS_HOME c" "cfg_ok c" "0 < N" "N < n_sectors c"
    and "length (u0 0) = WOLFBOOT_SECTOR_SIZE c" "alive s" "final_safe c b0 u0 N (flash_mem H s)"
  shows "fst (wolfBoot_swap_and_final_erase c H resume s) = 0
    \<and> ends (update_done c b0 u0 N) (update_safe c b0 u0 N) (snd (wolfBoot_swap_and_final_erase c H resume s))"
proof -
  let ?m = "flash_mem H s"
  have fin: "True \<longleftrightarrow> part_state c PART_UPDATE ?m = Some IMG_STATE_FINAL_FLAGS"
    using assms(8) by (simp add: final_safe_def)
  have "0 \<noteq> tail_sector c"
    using n_sectors_size(2) [OF assms(3)] by (simp add: tail_sector_def)
  then have "holds c (hsize c (u0 0)) 0 (u0 0) (sec c ?m (RBoot 0))"
    using assms(4,8) by (simp add: final_safe_def)
  then have "fw_size (snd (wolfBoot_open_image c ?m PART_BOOT)) = hsize c (u0 0)"
    using hsize_holds [OF assms(3) _ assms(6)] open_image_sizes(1) [OF assms(3)] by simp
  moreover have "results (final_safe c b0 u0 N) (update_safe c b0 u0 N) (hal_flash_unlock H s)"
    using unlock_alive [OF assms(7)] assms(8) by (simp add: results_def unlock_mem)
  ultimately show ?thesis
    unfolding final_erase_eq [OF assms(1,3) refl refl refl refl fin]
    using final_tail_ends [OF assms(1-3,5) open_handles [OF assms(3)]] by simp
qed

text \<open>At the end of a swap: save the tail sector, then announce the final erase.\<close>

lemma final_save:
  assumes ok: "cfg_ok c" "N < n_sectors c"
    and s: "alive s" "unlocked s" "swap_inv c b0 u0 N st N SECT_FLAG_NEW (flash_mem H s)"
    and h: "handles c boot update swap (tail_sector c)"
  shows "results (\<lambda>m. swap_inv c b0 u0 N st N SECT_FLAG_NEW m
      \<and> sec c m RSwap = clip c (tail_sector c * WOLFBOOT_SECTOR_SIZE c) (fw_size boot) (sec c m (RBoot (tail_sector c))))
    (swap_inv c b0 u0 N st N SECT_FLAG_NEW) (snd (wolfBoot_copy_sector c H boot swap (tail_sector c) s))"
proof -
  let ?m = "flash_mem H s" and ?t = "tail_sector c"
  note t = tail_sector_facts [OF ok(1)]
  have keep: "swap_inv c b0 u0 N st N SECT_FLAG_NEW m'"
    if "same_outside (reg_addr c RSwap) (WOLFBOOT_SECTOR_SIZE c) ?m m'" for m'
    by (rule swap_inv_beyond [OF ok _ _ that s(3)]) auto
  define L where "L = clip c (reg_off c (RBoot ?t)) (fw_size boot) (sec c ?m (RBoot ?t))"
  have o: "outcome (mwrite ?m (reg_addr c RSwap) L) (same_outside (reg_addr c RSwap) (WOLFBOOT_SECTOR_SIZE c) ?m)
      (snd (wolfBoot_copy_sector c H boot swap ?t s))"
    using conjunct1 [OF copy_region [OF ok(1) t(2) _ s(1,2), of boot "RBoot ?t" swap RSwap]] h t(1)
    by (simp add: handles_def L_def)
  have so: "same_outside (reg_addr c RSwap) (WOLFBOOT_SECTOR_SIZE c) ?m (mwrite ?m (reg_addr c RSwap) L)"
    by (simp add: L_def same_outside_def mem_simps)
  have "sec c (mwrite ?m (reg_addr c RSwap) L) (RBoot ?t) = sec c ?m (RBoot ?t)"
    by (rule sec_other [OF ok(1) _ _ _ so]) (use t(1) in auto)
  moreover have "sec c (mwrite ?m (reg_addr c RSwap) L) RSwap = L"
    by (rule sec_write) (simp add: L_def)
  ultimately show ?thesis
    using keep [OF so] by (intro results_outcome [OF o]) (auto simp: L_def intro: keep)
qed

lemma final_announce:
  assumes nvm: "\<not> NVM_FLASH_WRITEONCE c" "\<not> FLAGS_HOME c" and ok: "cfg_ok c" "N < n_sectors c"
    and s: "alive s" "unlocked s" "swap_inv c b0 u0 N IMG_STATE_UPDATING N SECT_FLAG_NEW (flash_mem H s)"
      "sec c (flash_mem H s) RSwap = clip c (tail_sector c * WOLFBOOT_SECTOR_SIZE c) (hsize c (u0 0))
         (sec c (flash_mem H s) (RBoot (tail_sector c)))"
  shows "results (final_safe c b0 u0 N) (update_safe c b0 u0 N)
    (snd (wolfBoot_set_partition_state c H PART_UPDATE IMG_STATE_FINAL_FLAGS s))"
proof -
  let ?m = "flash_mem H s" and ?t = "tail_sector c"
  let ?m' = "set_state_mem c PART_UPDATE IMG_STATE_FINAL_FLAGS ?m"
  have sw: "swapped c b0 u0 N ?m" and st: "part_state c PART_UPDATE ?m = Some IMG_STATE_UPDATING"
    using s(3) by (auto simp: swap_inv_all_iff)
  note mg = swap_inv_magic [OF s(3)]
  have sec': "sec c ?m' r = sec c ?m r" if "reg_valid c r" for r
    by (rule sec_flags [OF ok(1) that set_state_in_flags(1) [OF ok(1) nvm(2)]])
  have "?m (trailer_addr c PART_UPDATE 1) = IMG_STATE_UPDATING"
    using st by (simp add: part_state_def split: if_splits)
  then have "part_state c PART_UPDATE ?m' = Some IMG_STATE_FINAL_FLAGS"
    by (simp add: part_state_set_state [OF ok(1) magic_ready_if(1) [OF mg], unfolded One_nat_def] img_state_defs)
  moreover have "?t < N \<longrightarrow> holds c (hsize c (u0 0)) ?t (u0 ?t) (sec c ?m RSwap)"
    using sw unfolding s(4) holds_clip swapped_def by (simp add: holds_new)
  ultimately have f: "final_safe c b0 u0 N ?m'"
    using sw ok(2) by (simp add: final_safe_def sec' swapped_def holds_new)
  have "update_safe c b0 u0 N m" if "magic_torn c PART_UPDATE ?m m" for m
    using magic_torn_has_magic [OF mg that] swap_safeI [OF s(3)] by (simp add: update_safe_def)
  then show ?thesis
    using f by (intro results_outcome [OF set_state_outcome [OF nvm(1) _ s(1,2)]]) (auto simp: update_safe_def)
qed

lemma final_erase_fresh:
  assumes nvm: "\<not> NVM_FLASH_WRITEONCE c" "\<not> FLAGS_HOME c" and ok: "cfg_ok c" "0 < N" "N < n_sectors c"
    and len: "length (u0 0) = WOLFBOOT_SECTOR_SIZE c"
    and s: "alive s" "swap_inv c b0 u0 N IMG_STATE_UPDATING N SECT_FLAG_NEW (flash_mem H s)"
  shows "fst (wolfBoot_swap_and_final_erase c H False s) = 0
    \<and> ends (update_done c b0 u0 N) (update_safe c b0 u0 N) (snd (wolfBoot_swap_and_final_erase c H False s))"
proof -
  let ?m = "flash_mem H s" and ?t = "tail_sector c"
  let ?boot = "snd (wolfBoot_open_image c ?m PART_BOOT)" and ?swap = "snd (wolfBoot_open_image c ?m PART_SWAP)"
  have sw: "swapped c b0 u0 N ?m" and st: "part_state c PART_UPDATE ?m = Some IMG_STATE_UPDATING"
    using s(2) by (auto simp: swap_inv_all_iff)
  have fin: "False \<longleftrightarrow> part_state c PART_UPDATE ?m = Some IMG_STATE_FINAL_FLAGS"
    using st by (simp add: img_state_defs)
  have sz: "fw_size ?boot = hsize c (u0 0)"
    using sw ok(2) open_image_sizes(1) [OF ok(1)] hsize_clip [OF ok(1) len] by (simp add: swapped_def new_boot_def)
  define s1 where "s1 = hal_flash_unlock H s"
  have s1: "alive s1" "unlocked s1" "flash_mem H s1 = ?m"
    using unlock_alive [OF s(1)] by (auto simp: s1_def unlock_mem)
  have "results (\<lambda>m. swap_inv c b0 u0 N IMG_STATE_UPDATING N SECT_FLAG_NEW m
      \<and> sec c m RSwap = clip c (?t * WOLFBOOT_SECTOR_SIZE c) (hsize c (u0 0)) (sec c m (RBoot ?t)))
    (update_safe c b0 u0 N) (snd (wolfBoot_copy_sector c H ?boot ?swap ?t s1))"
    by (rule results_mono [OF final_save [OF ok(1,3) s1(1,2) _ open_handles [OF ok(1)], of b0 u0 IMG_STATE_UPDATING]])
      (use s(2) sz s1(3) in \<open>auto simp: update_safe_def intro: swap_safeI\<close>)
  then have "results (final_safe c b0 u0 N) (update_safe c b0 u0 N)
      (snd (wolfBoot_set_partition_state c H PART_UPDATE IMG_STATE_FINAL_FLAGS
        (snd (wolfBoot_copy_sector c H ?boot ?swap ?t s1))))"
    by (rule results_bind [OF _ frozen_set_state [OF nvm(1)]]) (use final_announce [OF nvm ok(1,3)] in auto)
  then show ?thesis
    unfolding final_erase_eq [OF nvm(1) ok(1) refl refl refl refl fin]
    using final_tail_ends [where ?u0.0 = u0, OF nvm ok(1,3) open_handles [OF ok(1)] sz] by (simp add: s1_def)
qed

lemma frozen_final_erase:
  assumes "\<not> NVM_FLASH_WRITEONCE c" "cfg_ok c"
  shows "frozen (\<lambda>s. snd (wolfBoot_swap_and_final_erase c H resume s))"
proof -
  note f = frozen_final_tail [OF assms(1)] frozen_copy_sector frozen_set_state [OF assms(1), of PART_UPDATE]
    frozen_lock frozen_unlock
  show ?thesis
    unfolding frozen_def final_erase_eq [OF assms refl refl refl refl refl]
    using f [unfolded frozen_def] by simp
qed

text \<open>What \<open>wolfBoot_update\<close> does once the update has been accepted.\<close>

definition run_update where
  "run_update c boot update swap tot s =
     (case swap_loop c H boot update swap tot 0 (hal_flash_unlock H s) of
        None \<Rightarrow> None
      | Some (ret, boot, update, sector, s) \<Rightarrow>
          if ret < 0 then Some (-1, s)
          else
            (case erase_rest c H boot update sector s of
               None \<Rightarrow> None
             | Some s \<Rightarrow> Some (wolfBoot_swap_and_final_erase c H False (hal_flash_lock H s))))"

lemma run_update_ends:
  assumes nvm: "\<not> NVM_FLASH_WRITEONCE c" "\<not> FLAGS_HOME c" and ok: "cfg_ok c"
    and N: "N = swap_count c (hsize c (b0 0)) (hsize c (u0 0))" "N < n_sectors c"
    and len: "length (b0 0) = WOLFBOOT_SECTOR_SIZE c" "length (u0 0) = WOLFBOOT_SECTOR_SIZE c"
    and s: "alive s" "swap_safe c b0 u0 N IMG_STATE_UPDATING (flash_mem H s)"
    and im: "m0 = flash_mem H s" "boot = snd (wolfBoot_open_image c m0 PART_BOOT)"
      "update = snd (wolfBoot_open_image c m0 PART_UPDATE)" "swap = snd (wolfBoot_open_image c m0 PART_SWAP)"
    and tot: "0 < tot" "tot \<le> WOLFBOOT_PARTITION_SIZE c"
  shows "\<exists>ret s'. run_update c boot update swap tot s = Some (ret, s')
    \<and> ends (update_done c b0 u0 N) (update_safe c b0 u0 N) s' \<and> (alive s' \<longrightarrow> ret = 0)"
proof -
  let ?s = "hal_flash_unlock H s" and ?st = IMG_STATE_UPDATING
  have u: "alive ?s" "unlocked ?s" "flash_mem H ?s = m0"
    using unlock_alive [OF s(1)] by (auto simp: unlock_mem im)
  obtain k f where "k \<le> N" "swap_inv c b0 u0 N ?st k f (flash_mem H ?s)"
    using s(2) u im by (auto simp: swap_safe_def)
  from swap_loop_all [OF nvm(1) ok N len tot u(1,2) this(2,1) u(3) [symmetric] im(2-4)]
  obtain ret b v i s1 where l: "swap_loop c H boot update swap tot 0 ?s = Some (ret, b, v, i, s1)"
    "i \<le> n_sectors c" "results (swap_inv c b0 u0 N ?st N SECT_FLAG_NEW) (swap_safe c b0 u0 N ?st) s1"
    "alive s1 \<Longrightarrow> ret = 0 \<and> handles c b v swap 0 \<and> i = N"
    unfolding loop_ok_def by auto
  have N0: "0 < N"
    using swap_count_iff [OF ok, of 0] cfg_okD(10) [OF ok] by (auto simp: N(1))
  let ?F = "\<lambda>s. wolfBoot_swap_and_final_erase c H False (hal_flash_lock H s)"
  have fr: "frozen (\<lambda>s. snd (?F s))"
    by (rule frozen_comp [OF frozen_lock frozen_final_erase [OF nvm(1) ok]])
  show ?thesis
  proof (cases "dead s1")
    case True
    then have sf: "swap_safe c b0 u0 N ?st (flash_mem H s1)"
      using l(3) alive_not_dead by (auto simp: results_def)
    obtain s2 where e: "erase_rest c H b v i s1 = Some s2" "dead s2" "flash_mem H s2 = flash_mem H s1"
      using erase_rest_dead [OF ok l(2) True] by blast
    obtain r3 s3 where F: "?F s2 = (r3, s3)"
      by fastforce
    then have "dead s3 \<and> flash_mem H s3 = flash_mem H s1"
      using fr [unfolded frozen_def, rule_format, OF e(2)] e(3) by simp
    then show ?thesis
      using True sf alive_not_dead F by (auto simp: run_update_def l(1) e(1) ends_def update_safe_def)
  next
    case False
    then have a: "alive s1" "unlocked s1" "swap_inv c b0 u0 N ?st N SECT_FLAG_NEW (flash_mem H s1)"
      using l(3) by (auto simp: results_def)
    obtain s2 where e: "erase_rest c H b v i s1 = Some s2"
      "results (swap_inv c b0 u0 N ?st N SECT_FLAG_NEW) (swap_inv c b0 u0 N ?st N SECT_FLAG_NEW) s2"
      using erase_rest_results [OF nvm(1) ok N(2) _ order_refl N(2), of b v swap b0 u0 ?st SECT_FLAG_NEW s1]
        l(4) [OF a(1)] a by (auto simp: results_def)
    have "ends (update_done c b0 u0 N) (update_safe c b0 u0 N) (snd (?F s2)) \<and> (alive (snd (?F s2)) \<longrightarrow> fst (?F s2) = 0)"
    proof (cases "dead s2")
      case True
      then have "update_safe c b0 u0 N (flash_mem H s2)"
        using e(2) alive_not_dead swap_safeI [OF _ order_refl] by (auto simp: results_def update_safe_def)
      then show ?thesis
        using fr True alive_not_dead by (auto simp: frozen_def ends_def)
    next
      case False
      then show ?thesis
        using final_erase_fresh [where ?u0.0 = u0 and ?b0.0 = b0 and s = "hal_flash_lock H s2", OF nvm ok N0 N(2) len(2)] e(2)
        by (auto simp: results_def lock_alive lock_mem)
    qed
    moreover have "run_update c boot update swap tot s = Some (?F s2)"
      using l(4) [OF a(1)] l(1) e(1) by (auto simp: run_update_def)
    ultimately show ?thesis
      by (cases "?F s2") simp
  qed
qed

end

end
