(* ===== verification/Boot.thy ===== *)
theory Boot
  imports Install
begin

text \<open>
  The update and the boot decision as a whole: an image keeps its meaning when it is moved,
  the update exchanges the two images byte for byte, and \<open>wolfBoot_start\<close> starts
  authentic images only.
\<close>

subsection \<open>Moving an image\<close>

text \<open>
  An image means the same at another address of the same parity: every header field is
  found at the same offset, and the image is authentic there too.
\<close>

lemma mread_reloc: "(\<And>x. x < n \<Longrightarrow> m' (b + x) = m (a + x)) \<Longrightarrow> mread m' b n = mread m a n"
  by (rule nth_equalityI) (auto simp: mread_def)

lemma le16_reloc: "(\<And>x. x < 2 \<Longrightarrow> m' (b + x) = m (a + x)) \<Longrightarrow> le16_at m' b = le16_at m a"
  using mread_reloc [of 2 m' b m a] by (simp add: le16_at_def)

lemma find_header_loop_reloc:
  assumes "even a = even a'" "\<And>x. x < mx \<Longrightarrow> m' (a' + x) = m (a + x)"
  shows "find_header_loop m' hs t (a' + mx) (a' + p) =
    (let (l, q) = find_header_loop m hs t (a + mx) (a + p) in (l, if q = 0 then 0 else a' + (q - a)))"
proof (induction "mx - p" arbitrary: p rule: less_induct)
  case less
  note unf = find_header_loop.simps [of m' hs t "a' + mx" "a' + p"] find_header_loop.simps [of m hs t "a + mx" "a + p"]
  show ?case
  proof (cases "p + 4 \<le> mx")
    case False
    then have "\<not> p < mx \<or> mx - p < 4"
      by linarith
    then show ?thesis
      unfolding unf by (elim disjE) simp_all
  next
    case True
    then have e: "le16_at m' (a' + p) = le16_at m (a + p)" "le16_at m' (a' + p + 2) = le16_at m (a + p + 2)"
      "m' (a' + p) = m (a + p)" "odd (a' + p) = odd (a + p)"
      using assms by (auto intro!: le16_reloc simp: add.assoc)
    have IH1: "find_header_loop m' hs t (a' + mx) (a' + p + 1) =
        (let (l, q) = find_header_loop m hs t (a + mx) (a + p + 1) in (l, if q = 0 then 0 else a' + (q - a)))"
      using less.hyps [of "p + 1"] True by (simp add: add.assoc)
    have IH2: "find_header_loop m' hs t (a' + mx) (a' + p + (4 + len)) =
        (let (l, q) = find_header_loop m hs t (a + mx) (a + p + (4 + len)) in (l, if q = 0 then 0 else a' + (q - a)))" for len
      using less.hyps [of "p + (4 + len)"] True by (simp add: add.assoc)
    show ?thesis
      unfolding unf e Let_def IH1 [unfolded Let_def] IH2 [unfolded Let_def] using True by simp
  qed
qed

lemma find_header_reloc:
  assumes "even a = even a'" "\<And>x. x < IMAGE_HEADER_SIZE c \<Longrightarrow> m' (a' + x) = m (a + x)"
    and "a + IMAGE_HEADER_SIZE c \<le> UINTPTR_MAX" "a' + IMAGE_HEADER_SIZE c \<le> UINTPTR_MAX"
    and "IMAGE_HEADER_OFFSET < IMAGE_HEADER_SIZE c"
    and "wolfBoot_find_header c m (a + IMAGE_HEADER_OFFSET) t = (l, q)" "l \<noteq> 0"
  shows "wolfBoot_find_header c m' (a' + IMAGE_HEADER_OFFSET) t = (l, a' + (q - a))"
    "a + IMAGE_HEADER_OFFSET + 4 \<le> q" "q + l \<le> a + IMAGE_HEADER_SIZE c"
proof -
  have q: "q \<noteq> 0"
    using find_header_none [of c m "a + IMAGE_HEADER_OFFSET" t l] assms(6,7) by (cases q) auto
  note s = find_header_sound [OF assms(6) q]
  show "a + IMAGE_HEADER_OFFSET + 4 \<le> q" "q + l \<le> a + IMAGE_HEADER_SIZE c"
    using s(1,2) by auto
  show "wolfBoot_find_header c m' (a' + IMAGE_HEADER_OFFSET) t = (l, a' + (q - a))"
    using assms(3-6) q find_header_loop_reloc [where m' = m' and m = m and mx = "IMAGE_HEADER_SIZE c" and a = a and a' = a'
        and hs = "IMAGE_HEADER_SIZE c" and t = t and p = IMAGE_HEADER_OFFSET, OF assms(1,2)]
    by (simp add: wolfBoot_find_header_def Let_def IMAGE_HEADER_OFFSET_def split: if_splits)
qed

lemma image_authentic_reloc:
  assumes ok: "even (img_hdr img) = even (img_hdr img')"
      "\<And>x. x < fw_size img + IMAGE_HEADER_SIZE c \<Longrightarrow> m' (img_hdr img' + x) = m (img_hdr img + x)"
      "img_hdr img + IMAGE_HEADER_SIZE c \<le> UINTPTR_MAX" "img_hdr img' + IMAGE_HEADER_SIZE c \<le> UINTPTR_MAX"
      "IMAGE_HEADER_OFFSET < IMAGE_HEADER_SIZE c"
    and im: "fw_size img' = fw_size img" "fw_base img = img_hdr img + IMAGE_HEADER_SIZE c"
      "fw_base img' = img_hdr img' + IMAGE_HEADER_SIZE c"
    and auth: "image_authentic K c m img"
  shows "image_authentic K c m' img'"
proof -
  let ?a = "img_hdr img" and ?b = "img_hdr img'"
  define r where "r = (\<lambda>q. ?b + (q - ?a))"
  have f: "wolfBoot_get_header c m' img' t = (l, r q) \<and> mread m' (r q) l = mread m q l \<and> ?a + 12 \<le> q"
    if "wolfBoot_get_header c m img t = (l, q)" "l \<noteq> 0" for t l q
  proof -
    have "m' (?b + x) = m (?a + x)" if "x < IMAGE_HEADER_SIZE c" for x
      using ok(2) that by simp
    note fr = find_header_reloc [OF ok(1) this ok(3-5) that(1) [unfolded wolfBoot_get_header_def] that(2)]
    define d where "d = q - ?a"
    have d: "q = ?a + d" "d + l \<le> IMAGE_HEADER_SIZE c"
      using fr(2,3) by (auto simp: d_def)
    have "mread m' (r q) l = mread m q l"
      unfolding d(1) r_def using ok(2) d(2) by (intro mread_reloc) (simp add: add.assoc)
    then show ?thesis
      using fr by (simp add: r_def wolfBoot_get_header_def IMAGE_HEADER_OFFSET_def)
  qed
  obtain stored hint tb sig slot where h: "image_intact K c m img stored"
    "wolfBoot_get_header c m img HDR_PUBKEY = (WOLFBOOT_SHA_DIGEST_SIZE, hint)"
    "keyslot_id_by_sha K (mread m hint WOLFBOOT_SHA_DIGEST_SIZE) = int slot"
    "wolfBoot_get_header c m img HDR_IMG_TYPE = (2, tb)"
    "le16_at m tb AND HDR_IMG_TYPE_AUTH_MASK = HDR_IMG_TYPE_AUTH_ED25519"
    "bit (keystore_get_mask K slot) (le16_at m tb AND HDR_IMG_TYPE_PART_MASK)"
    "wolfBoot_get_header c m img HDR_SIGNATURE = (ED25519_IMAGE_SIGNATURE_SIZE, sig)"
    "signed_by K slot (mread m sig ED25519_IMAGE_SIGNATURE_SIZE) (mread m stored WOLFBOOT_SHA_DIGEST_SIZE)"
    using auth unfolding image_authentic_def by blast
  have z: "WOLFBOOT_SHA_DIGEST_SIZE \<noteq> 0" "(2::nat) \<noteq> 0" "ED25519_IMAGE_SIGNATURE_SIZE \<noteq> 0"
    by (simp_all add: WOLFBOOT_SHA_DIGEST_SIZE_def ED25519_IMAGE_SIGNATURE_SIZE_def)
  have st: "wolfBoot_get_header c m img HDR_SHA256 = (WOLFBOOT_SHA_DIGEST_SIZE, stored)"
    using h(1) by (simp add: image_intact_def)
  note fs = f [OF st z(1)] and fk = f [OF h(2) z(1)] and ft = f [OF h(4) z(2)] and fg = f [OF h(7) z(3)]
  have ty: "le16_at m' (r tb) = le16_at m tb"
    unfolding le16_at_def using ft by (simp only:)
  have "stored \<le> ?a + IMAGE_HEADER_SIZE c"
    using find_header_sound(2) [of c m "?a + IMAGE_HEADER_OFFSET" HDR_SHA256 _ stored] st fs
    by (auto simp: wolfBoot_get_header_def)
  then have "mread m' ?b (r stored - 4 - ?b) = mread m ?a (stored - 4 - ?a)"
    using mread_reloc [of "stored - 4 - ?a" m' ?b m ?a] ok(2) by (simp add: r_def add.commute)
  moreover have "mread m' (fw_base img') (fw_size img') = mread m (fw_base img) (fw_size img)"
    unfolding im using ok(2) by (intro mread_reloc) (simp add: add.assoc)
  ultimately have "hashed_bytes m' img' (r stored) = hashed_bytes m img stored"
    by (simp add: hashed_bytes_def)
  then have "image_intact K c m' img' (r stored)"
    using fs h(1) by (simp add: image_intact_def)
  then show ?thesis
    unfolding image_authentic_def using fs fk ft fg h ty
    by (intro exI [of _ "r stored"] exI [of _ "r hint"] exI [of _ "r tb"] exI [of _ "r sig"] exI [of _ slot]) simp
qed

subsection \<open>The update, byte by byte\<close>

lemma sec_nth: "x < WOLFBOOT_SECTOR_SIZE c \<Longrightarrow> sec c m r ! x = m (reg_addr c r + x)"
  by (simp add: sec_def mread_def)

lemma holds_nth:
  "holds c f i L0 L \<Longrightarrow> x < WOLFBOOT_SECTOR_SIZE c \<Longrightarrow> i * WOLFBOOT_SECTOR_SIZE c + x < f + IMAGE_HEADER_SIZE c \<Longrightarrow>
     L ! x = L0 ! x"
  by (simp add: holds_def)

lemma installed_bytes:
  assumes "cfg_ok c" "installed c (\<lambda>i. sec c m (RBoot i)) (\<lambda>i. sec c m (RUpd i)) N m'"
    and "fb = hsize c (sec c m (RBoot 0))" "fu = hsize c (sec c m (RUpd 0))" "N = swap_count c fb fu"
  shows "x < fu + IMAGE_HEADER_SIZE c \<Longrightarrow>
      m' (WOLFBOOT_PARTITION_BOOT_ADDRESS c + x) = m (WOLFBOOT_PARTITION_UPDATE_ADDRESS c + x)"
    "x < fb + IMAGE_HEADER_SIZE c \<Longrightarrow>
      m' (WOLFBOOT_PARTITION_UPDATE_ADDRESS c + x) = m (WOLFBOOT_PARTITION_BOOT_ADDRESS c + x)"
proof -
  let ?ss = "WOLFBOOT_SECTOR_SIZE c" and ?i = "x div WOLFBOOT_SECTOR_SIZE c" and ?j = "x mod WOLFBOOT_SECTOR_SIZE c"
  have j: "?j < ?ss" "?i * ?ss + ?j = x"
    using cfg_okD(6) [OF assms(1)] by auto
  have i: "?i < N" if "x < max fb fu + IMAGE_HEADER_SIZE c"
    using swap_count_iff [OF assms(1), of ?i fb fu] that j(2) by (simp add: assms(5))
  have *: "a + ?i * ?ss + ?j = a + x" for a
    using j(2) by simp
  show "m' (WOLFBOOT_PARTITION_BOOT_ADDRESS c + x) = m (WOLFBOOT_PARTITION_UPDATE_ADDRESS c + x)"
    if x: "x < fu + IMAGE_HEADER_SIZE c"
  proof -
    have "holds c fu ?i (sec c m (RUpd ?i)) (sec c m' (RBoot ?i))"
      using assms(2) i x unfolding installed_def assms(4) by simp
    then have "sec c m' (RBoot ?i) ! ?j = sec c m (RUpd ?i) ! ?j"
      by (rule holds_nth) (use j x in simp_all)
    then show ?thesis
      by (simp only: sec_nth [OF j(1)] reg_addr.simps *)
  qed
  show "m' (WOLFBOOT_PARTITION_UPDATE_ADDRESS c + x) = m (WOLFBOOT_PARTITION_BOOT_ADDRESS c + x)"
    if x: "x < fb + IMAGE_HEADER_SIZE c"
  proof -
    have "holds c fb ?i (sec c m (RBoot ?i)) (sec c m' (RUpd ?i))"
      using assms(2) i x unfolding installed_def assms(3) by simp
    then have "sec c m' (RUpd ?i) ! ?j = sec c m (RBoot ?i) ! ?j"
      by (rule holds_nth) (use j x in simp_all)
    then show ?thesis
      by (simp only: sec_nth [OF j(1)] reg_addr.simps *)
  qed
qed

text \<open>An update that has been triggered and not begun.\<close>

definition update_pending :: "cfg \<Rightarrow> mem \<Rightarrow> bool" where
  "update_pending c m \<longleftrightarrow> part_state c PART_UPDATE m = Some IMG_STATE_UPDATING
     \<and> (\<forall>i < n_sectors c. sector_flag c i m = Some SECT_FLAG_NEW)"

lemma pending_swap_safe:
  assumes "update_pending c m" "N < n_sectors c"
  shows "swap_safe c (\<lambda>i. sec c m (RBoot i)) (\<lambda>i. sec c m (RUpd i)) N IMG_STATE_UPDATING m"
  unfolding swap_safe_def swap_inv_def Let_def
  using assms by (intro exI [of _ 0] exI [of _ SECT_FLAG_NEW]) (auto simp: update_pending_def phase_def)

subsection \<open>Accepting an update\<close>

text \<open>The conditions of \<open>wolfBoot_update\<close> on a fresh update.\<close>

definition acceptable :: "crypto \<Rightarrow> cfg \<Rightarrow> mem \<Rightarrow> int \<Rightarrow> wolfBoot_image \<Rightarrow> bool" where
  "acceptable K c m fallback_allowed update \<longleftrightarrow>
     wolfBoot_get_image_type c m PART_UPDATE AND HDR_IMG_TYPE_PART_MASK = HDR_IMG_TYPE_APP
   \<and> wolfBoot_get_image_type c m PART_UPDATE AND HDR_IMG_TYPE_AUTH_MASK = HDR_IMG_TYPE_AUTH_ED25519
   \<and> fw_size update < MAX_UPDATE_SIZE c
   \<and> image_authentic K c m update
   \<and> (ALLOW_DOWNGRADE c \<or> fallback_allowed \<noteq> 0
      \<or> wolfBoot_current_firmware_version c m < wolfBoot_update_firmware_version c m)"

lemma max_update_size_pos: "cfg_ok c \<Longrightarrow> 0 < MAX_UPDATE_SIZE c"
  using cfg_okD [of c] by (auto simp: MAX_UPDATE_SIZE_def)

lemma check_new_update_iff:
  assumes "cfg_ok c" "\<And>x. length (wc_Sha256 K x) = 32"
    and o: "wolfBoot_open_image c m PART_UPDATE = (0, update)"
  shows "check_new_update K c m update fb (wolfBoot_get_image_type c m PART_UPDATE)
      (wolfBoot_current_firmware_version c m) (wolfBoot_update_firmware_version c m)
    = Some (acceptable K c m fb update)"
proof -
  note im = open_image_ok [OF assms(1) o]
  obtain r1 img1 where v: "wolfBoot_verify_integrity K c m update = Some (r1, img1)" "r1 = 0 \<or> r1 = -1"
    "r1 = -1 \<longrightarrow> \<not> image_authentic K c m update"
    "r1 = 0 \<longrightarrow> (\<exists>r2 img2. wolfBoot_verify_authenticity K c m img1 = Some (r2, img2)
         \<and> (r2 = 0 \<or> r2 < 0) \<and> (r2 = 0 \<longleftrightarrow> image_authentic K c m update)
         \<and> (r2 = 0 \<longrightarrow> sha_ok img2 \<and> signature_ok img2) \<and> hdr_ok img2 = hdr_ok update)"
    using integrity_then_authenticity [of update K c m] im assms(2) by fastforce
  show ?thesis
    using v(2)
  proof
    assume r: "r1 = -1"
    then show ?thesis
      using v(1,3) by (auto simp: check_new_update_def acceptable_def)
  next
    assume r: "r1 = 0"
    then obtain r2 img2 where a: "wolfBoot_verify_authenticity K c m img1 = Some (r2, img2)"
      "r2 = 0 \<or> r2 < 0" "r2 = 0 \<longleftrightarrow> image_authentic K c m update"
      "r2 = 0 \<longrightarrow> sha_ok img2 \<and> signature_ok img2" "hdr_ok img2"
      using v(4) im(7) by auto
    have sz: "fw_size update > MAX_UPDATE_SIZE c - 1 \<longleftrightarrow> \<not> fw_size update < MAX_UPDATE_SIZE c"
      using max_update_size_pos [OF assms(1)] by auto
    show ?thesis
      using a im(7) by (auto simp: check_new_update_def acceptable_def v(1) r sz [unfolded One_nat_def])
  qed
qed

text \<open>The first flag decides whether the conditions are checked.\<close>

definition first_flag :: "cfg \<Rightarrow> mem \<Rightarrow> byte" where
  "first_flag c m = (case sector_flag c 0 m of None \<Rightarrow> SECT_FLAG_NEW | Some v \<Rightarrow> v)"

context flash_hal
begin

lemma update_eq:
  assumes "\<not> NVM_FLASH_WRITEONCE c" "cfg_ok c" "\<And>x. length (wc_Sha256 K x) = 32"
    and "m = flash_mem H s" "wolfBoot_open_image c m PART_UPDATE = (0, update)"
    and "boot = snd (wolfBoot_open_image c m PART_BOOT)" "swap = snd (wolfBoot_open_image c m PART_SWAP)"
    and "tot = wolfBoot_get_total_size c boot update" "IMAGE_HEADER_SIZE c < tot"
  shows "wolfBoot_update K c H 0 s =
    (if first_flag c m = SECT_FLAG_NEW \<and> \<not> acceptable K c m 0 update then Some (-1, s)
     else run_update c boot update swap tot s)"
proof -
  note fl = get_flag_nor [OF assms(1), of 0, simplified] get_state_nor [OF assms(1), of PART_BOOT, simplified]
  show ?thesis
    unfolding wolfBoot_update_def Let_def split_def fl fst_conv snd_conv assms(4) [symmetric] assms(5)
      assms(6-8) [symmetric] first_flag_def [symmetric] check_new_update_iff [OF assms(2,3,5)] run_update_def
    using assms(9)
    by (auto simp: prod_eq_iff split: option.splits prod.splits)
qed

text \<open>
  The update, from any state that an interrupted update leaves in which UPDATE can be
  opened.
\<close>

lemma update_ends:
  assumes nvm: "\<not> NVM_FLASH_WRITEONCE c" "\<not> FLAGS_HOME c" and ok: "cfg_ok c" "\<And>x. length (wc_Sha256 K x) = 32"
    and N: "N = swap_count c (hsize c (b0 0)) (hsize c (u0 0))" "N < n_sectors c"
    and len: "length (b0 0) = WOLFBOOT_SECTOR_SIZE c" "length (u0 0) = WOLFBOOT_SECTOR_SIZE c"
    and s: "alive s" "m = flash_mem H s" "swap_safe c b0 u0 N IMG_STATE_UPDATING m"
    and o: "wolfBoot_open_image c m PART_UPDATE = (0, update)" "0 < fw_size update"
    and acc: "first_flag c m = SECT_FLAG_NEW \<Longrightarrow> acceptable K c m 0 update"
  shows "\<exists>ret s'. wolfBoot_update K c H 0 s = Some (ret, s')
    \<and> ends (update_done c b0 u0 N) (update_safe c b0 u0 N) s' \<and> (alive s' \<longrightarrow> ret = 0)"
proof -
  let ?boot = "snd (wolfBoot_open_image c m PART_BOOT)" and ?swap = "snd (wolfBoot_open_image c m PART_SWAP)"
  have u: "update = snd (wolfBoot_open_image c m PART_UPDATE)"
    by (simp add: o)
  note t = total_size_handles [OF ok(1), of ?boot update, unfolded u,
      unfolded open_image_sizes [OF ok(1)], OF hsize_bound(1) [OF ok(1)] hsize_bound(1) [OF ok(1)]]
  have tot: "IMAGE_HEADER_SIZE c < wolfBoot_get_total_size c ?boot update"
    using t(1) o(2) open_image_sizes(2) [OF ok(1), of m] by (simp add: u)
  have "\<exists>ret s'. run_update c ?boot update ?swap (wolfBoot_get_total_size c ?boot update) s = Some (ret, s')
      \<and> ends (update_done c b0 u0 N) (update_safe c b0 u0 N) s' \<and> (alive s' \<longrightarrow> ret = 0)"
    by (rule run_update_ends [OF nvm ok(1) N len s(1) s(3) [unfolded s(2)] s(2) refl u refl])
      (use t(2) tot in \<open>simp_all add: u\<close>)
  then show ?thesis
    unfolding update_eq [OF nvm(1) ok s(2) o(1) refl refl refl tot] using acc by auto
qed

end

text \<open>The images are small enough to leave the flags sector alone.\<close>

lemma swap_count_bound:
  assumes "cfg_ok c" "fb < MAX_UPDATE_SIZE c" "fu < MAX_UPDATE_SIZE c"
  shows "swap_count c fb fu < n_sectors c"
proof -
  note n = n_sectors_size [OF assms(1)] and d = cfg_okD [OF assms(1)]
  let ?k = "n_sectors c - 1"
  have "?k * WOLFBOOT_SECTOR_SIZE c = WOLFBOOT_PARTITION_SIZE c - WOLFBOOT_SECTOR_SIZE c"
    by (simp add: diff_mult_distrib n(1))
  then have "\<not> ?k * WOLFBOOT_SECTOR_SIZE c < max fb fu + IMAGE_HEADER_SIZE c"
    using assms(2,3) d by (auto simp: MAX_UPDATE_SIZE_def split: if_splits)
  then show ?thesis
    using swap_count_iff [OF assms(1), of ?k fb fu] n(2) by linarith
qed

text \<open>
  Where power may fail during an update of the images in a memory \<open>m0\<close>: in the middle of
  the swap, in the middle of the final erase, or when the new image is in place.
\<close>

definition sectors_of :: "cfg \<Rightarrow> mem \<Rightarrow> nat" where
  "sectors_of c m0 = swap_count c (hsize c (sec c m0 (RBoot 0))) (hsize c (sec c m0 (RUpd 0)))"

definition mid_swap :: "cfg \<Rightarrow> mem \<Rightarrow> mem \<Rightarrow> bool" where
  "mid_swap c m0 = swap_safe c (\<lambda>i. sec c m0 (RBoot i)) (\<lambda>i. sec c m0 (RUpd i)) (sectors_of c m0) IMG_STATE_UPDATING"

definition mid_final :: "cfg \<Rightarrow> mem \<Rightarrow> mem \<Rightarrow> bool" where
  "mid_final c m0 = final_safe c (\<lambda>i. sec c m0 (RBoot i)) (\<lambda>i. sec c m0 (RUpd i)) (sectors_of c m0)"

definition exchanged :: "cfg \<Rightarrow> mem \<Rightarrow> mem \<Rightarrow> bool" where
  "exchanged c m m' \<longleftrightarrow>
     (\<forall>x < fw_size (snd (wolfBoot_open_image c m PART_UPDATE)) + IMAGE_HEADER_SIZE c.
        m' (WOLFBOOT_PARTITION_BOOT_ADDRESS c + x) = m (WOLFBOOT_PARTITION_UPDATE_ADDRESS c + x))
   \<and> (\<forall>x < fw_size (snd (wolfBoot_open_image c m PART_BOOT)) + IMAGE_HEADER_SIZE c.
        m' (WOLFBOOT_PARTITION_UPDATE_ADDRESS c + x) = m (WOLFBOOT_PARTITION_BOOT_ADDRESS c + x))"

lemma exchanged_installed:
  assumes "cfg_ok c"
    and "installed c (\<lambda>i. sec c m (RBoot i)) (\<lambda>i. sec c m (RUpd i))
       (sectors_of c m) m'"
  shows "exchanged c m m'"
  using installed_bytes [OF assms [unfolded sectors_of_def] refl refl refl]
  by (simp add: exchanged_def open_image_sizes [OF assms(1)])

definition interrupted :: "cfg \<Rightarrow> mem \<Rightarrow> mem \<Rightarrow> bool" where
  "interrupted c m0 m \<longleftrightarrow> mid_swap c m0 m \<or> mid_final c m0 m
     \<or> exchanged c m0 m \<and> part_state c PART_BOOT m = Some IMG_STATE_TESTING"

text \<open>The update has been installed and is to be tested.\<close>

definition updated :: "cfg \<Rightarrow> mem \<Rightarrow> mem \<Rightarrow> bool" where
  "updated c m0 m \<longleftrightarrow> exchanged c m0 m
     \<and> part_state c PART_BOOT m = Some IMG_STATE_TESTING \<and> part_state c PART_UPDATE m = None"

lemma update_done_updated:
  assumes "cfg_ok c"
  shows "update_done c (\<lambda>i. sec c m0 (RBoot i)) (\<lambda>i. sec c m0 (RUpd i)) (sectors_of c m0) m \<Longrightarrow> updated c m0 m"
    "update_safe c (\<lambda>i. sec c m0 (RBoot i)) (\<lambda>i. sec c m0 (RUpd i)) (sectors_of c m0) m \<Longrightarrow> interrupted c m0 m"
  using exchanged_installed [OF assms]
  by (auto simp: update_done_def update_safe_def updated_def interrupted_def testing_def mid_swap_def mid_final_def)

text \<open>Both images fit.\<close>

definition images_fit :: "cfg \<Rightarrow> mem \<Rightarrow> bool" where
  "images_fit c m \<longleftrightarrow> fw_size (snd (wolfBoot_open_image c m PART_BOOT)) < MAX_UPDATE_SIZE c
     \<and> fw_size (snd (wolfBoot_open_image c m PART_UPDATE)) < MAX_UPDATE_SIZE c"

lemma images_fit_sectors:
  assumes "cfg_ok c" "images_fit c m"
  shows "sectors_of c m < n_sectors c" "0 < sectors_of c m"
proof -
  show "sectors_of c m < n_sectors c"
    using swap_count_bound [OF assms(1)] assms(2)
    by (simp add: images_fit_def sectors_of_def open_image_sizes [OF assms(1)])
  show "0 < sectors_of c m"
    using swap_count_iff [OF assms(1), of 0] cfg_okD(10) [OF assms(1)] by (auto simp: sectors_of_def)
qed

context flash_hal
begin

lemma ends_updated:
  assumes "cfg_ok c"
    and "ends (update_done c (\<lambda>i. sec c m0 (RBoot i)) (\<lambda>i. sec c m0 (RUpd i)) (sectors_of c m0))
      (update_safe c (\<lambda>i. sec c m0 (RBoot i)) (\<lambda>i. sec c m0 (RUpd i)) (sectors_of c m0)) s"
  shows "alive s \<and> updated c m0 (flash_mem H s) \<or> dead s \<and> interrupted c m0 (flash_mem H s)"
  using assms(2) update_done_updated [OF assms(1)] by (auto simp: ends_def)

lemma update_mid_swap:
  assumes nvm: "\<not> NVM_FLASH_WRITEONCE c" "\<not> FLAGS_HOME c" and ok: "cfg_ok c" "\<And>x. length (wc_Sha256 K x) = 32"
    and "images_fit c m0" "alive s" "mid_swap c m0 (flash_mem H s)"
    and "wolfBoot_open_image c (flash_mem H s) PART_UPDATE = (0, update)" "0 < fw_size update"
    and "first_flag c (flash_mem H s) = SECT_FLAG_NEW \<Longrightarrow> acceptable K c (flash_mem H s) 0 update"
  shows "\<exists>ret s'. wolfBoot_update K c H 0 s = Some (ret, s')
    \<and> (alive s' \<and> ret = 0 \<and> updated c m0 (flash_mem H s') \<or> dead s' \<and> interrupted c m0 (flash_mem H s'))"
proof -
  note N = sectors_of_def images_fit_sectors(1) [OF ok(1) assms(5)]
  obtain ret s' where u: "wolfBoot_update K c H 0 s = Some (ret, s')" "alive s' \<longrightarrow> ret = 0"
    "ends (update_done c (\<lambda>i. sec c m0 (RBoot i)) (\<lambda>i. sec c m0 (RUpd i)) (sectors_of c m0))
      (update_safe c (\<lambda>i. sec c m0 (RBoot i)) (\<lambda>i. sec c m0 (RUpd i)) (sectors_of c m0)) s'"
    using update_ends [OF nvm ok N(1) N(2) _ _ assms(6) refl assms(7) [unfolded mid_swap_def] assms(8,9)] assms(10)
    by auto
  from ends_updated [OF ok(1) u(3)] u(1,2) show ?thesis
    by blast
qed

end

text \<open>An exchanged image is as authentic in BOOT as it was in UPDATE.\<close>

lemma exchanged_authentic:
  assumes "cfg_ok c" "even (WOLFBOOT_SECTOR_SIZE c)" "exchanged c m m'"
    and o: "wolfBoot_open_image c m PART_UPDATE = (0, update)" and a: "image_authentic K c m update"
  shows "boot_authentic K c m'"
proof -
  note im = open_image_ok [OF assms(1) o] and d = cfg_okD [OF assms(1)]
  let ?B = "WOLFBOOT_PARTITION_BOOT_ADDRESS c" and ?U = "WOLFBOOT_PARTITION_UPDATE_ADDRESS c"
  have eq: "m' (?B + x) = m (?U + x)" if "x < fw_size update + IMAGE_HEADER_SIZE c" for x
    using assms(3) that o by (simp add: exchanged_def)
  have h8: "8 < IMAGE_HEADER_SIZE c"
    using d(10) by (simp add: IMAGE_HEADER_OFFSET_def)
  have w: "le32_at m' ?B = le32_at m ?U" "le32_at m' (?B + 4) = le32_at m (?U + 4)"
    using eq h8 by (auto intro!: le32_at_cong simp: add.assoc)
  have "wolfBoot_open_image c m' PART_BOOT = (0, snd (wolfBoot_open_image c m' PART_BOOT))"
    "img_hdr (snd (wolfBoot_open_image c m' PART_BOOT)) = ?B"
    "fw_size (snd (wolfBoot_open_image c m' PART_BOOT)) = fw_size update"
    "fw_base (snd (wolfBoot_open_image c m' PART_BOOT)) = ?B + IMAGE_HEADER_SIZE c"
    using im w by (auto simp: wolfBoot_open_image_def wolfBoot_open_image_address_def Let_def
        wolfBoot_image_size_def)
  then obtain img where b: "wolfBoot_open_image c m' PART_BOOT = (0, img)" "img_hdr img = ?B"
    "fw_size img = fw_size update" "fw_base img = ?B + IMAGE_HEADER_SIZE c"
    by metis
  have ev: "even ?B" "even ?U"
    using assms(2) d(7,8) by (auto dest: dvd_trans)
  have "image_authentic K c m' img"
    by (rule image_authentic_reloc [OF _ _ _ _ d(10) b(3) im(4) _ a])
      (use ev im eq b d in \<open>auto simp: UINTPTR_MAX_def\<close>)
  with b(1) show ?thesis
    unfolding boot_authentic_def by blast
qed

subsection \<open>The boot decision\<close>

text \<open>Nothing of an earlier update has to be finished.\<close>

definition nothing_to_resume :: "cfg \<Rightarrow> mem \<Rightarrow> bool" where
  "nothing_to_resume c m \<longleftrightarrow> part_state c PART_UPDATE m \<noteq> Some IMG_STATE_FINAL_FLAGS
     \<and> le32_at m (WOLFBOOT_PARTITION_BOOT_ADDRESS c + tail_sector c * WOLFBOOT_SECTOR_SIZE c) \<noteq> WOLFBOOT_MAGIC_TRAIL"

lemma resume_nothing:
  assumes "\<not> NVM_FLASH_WRITEONCE c" "cfg_ok c" "nothing_to_resume c (flash_mem H s)"
  shows "wolfBoot_swap_and_final_erase c H True s = (-1, s)"
  using assms(3) unfolding final_erase_eq [OF assms(1,2) refl refl refl refl refl] nothing_to_resume_def by simp

lemma start_verified:
  assumes "\<not> NVM_FLASH_WRITEONCE c" "cfg_ok c" "\<And>x. length (wc_Sha256 K x) = 32"
    and m: "m = flash_mem H s" "nothing_to_resume c m" "part_state c PART_BOOT m \<noteq> Some IMG_STATE_TESTING"
    and run: "(if part_state c PART_UPDATE m = Some IMG_STATE_UPDATING then map_option snd (wolfBoot_update K c H 0 s)
       else Some s) = Some s'"
    and b: "boot_authentic K c (flash_mem H s')"
  shows "wolfBoot_start K c H s = Some (WOLFBOOT_PARTITION_BOOT_ADDRESS c + IMAGE_HEADER_SIZE c, s')"
proof -
  obtain r img where v: "verify_boot K c (flash_mem H s') = Some (r, img)" "r = 0"
    "hdr_ok img \<and> sha_ok img \<and> signature_ok img
       \<and> fw_base img = WOLFBOOT_PARTITION_BOOT_ADDRESS c + IMAGE_HEADER_SIZE c"
    using verify_boot_iff [OF assms(2,3), of "flash_mem H s'"] b by blast
  show ?thesis
    unfolding wolfBoot_start_def Let_def
    using assms(1) m(2,3) run v
    by (simp add: get_state_nor [OF assms(1)] resume_nothing [OF assms(1,2)] m(1) hal_flash_protect_def)
qed

lemma update_refused:
  assumes "\<not> NVM_FLASH_WRITEONCE c" "cfg_ok c" "\<And>x. length (wc_Sha256 K x) = 32"
    and "first_flag c (flash_mem H s) = SECT_FLAG_NEW"
    and "\<And>update. wolfBoot_open_image c (flash_mem H s) PART_UPDATE = (0, update) \<Longrightarrow>
      \<not> acceptable K c (flash_mem H s) fb update"
  shows "wolfBoot_update K c H fb s = Some (-1, s)"
proof -
  let ?m = "flash_mem H s"
  obtain r update where o: "wolfBoot_open_image c ?m PART_UPDATE = (r, update)"
    by fastforce
  note fl = get_flag_nor [OF assms(1), of 0, simplified] get_state_nor [OF assms(1), of PART_BOOT, simplified]
  from open_image_ret [OF o] show ?thesis
  proof
    assume r: "r = 0"
    with o have o': "wolfBoot_open_image c ?m PART_UPDATE = (0, update)"
      by simp
    show ?thesis
      unfolding wolfBoot_update_def Let_def split_def fl fst_conv snd_conv o'
        check_new_update_iff [OF assms(2,3) o'] first_flag_def [symmetric]
      using assms(4,5) o' by simp
  next
    assume "r = -1"
    with o show ?thesis
      by (simp add: wolfBoot_update_def)
  qed
qed

lemma check_new_update_returns:
  assumes "\<And>x. length (wc_Sha256 K x) = 32"
    and "fw_base update \<noteq> 0" "fw_size update < 2147483648" "\<not> signature_ok update" "hdr_ok update"
  shows "\<exists>b. check_new_update K c m update fb ty cv uv = Some b"
proof -
  obtain r1 img1 where v: "wolfBoot_verify_integrity K c m update = Some (r1, img1)" "r1 = 0 \<or> r1 = -1"
    "r1 = 0 \<longrightarrow> (\<exists>r2 img2. wolfBoot_verify_authenticity K c m img1 = Some (r2, img2)
         \<and> (r2 = 0 \<or> r2 < 0) \<and> (r2 = 0 \<longrightarrow> sha_ok img2 \<and> signature_ok img2) \<and> hdr_ok img2 = hdr_ok update)"
    using integrity_then_authenticity [of update K c m] assms by fastforce
  show ?thesis
    using v assms(5) by (auto simp: check_new_update_def)
qed

text \<open>\<open>wolfBoot_update\<close> returns, on any device and for any contents of the flash.\<close>

lemma update_returns_lemma:
  assumes "cfg_ok c" "\<And>x. length (wc_Sha256 K x) = 32"
  shows "\<exists>ret s'. wolfBoot_update K c H fb s = Some (ret, s')"
proof -
  let ?m = "flash_mem H s"
  let ?boot = "snd (wolfBoot_open_image c ?m PART_BOOT)" and ?swap = "snd (wolfBoot_open_image c ?m PART_SWAP)"
  obtain r update where o: "wolfBoot_open_image c ?m PART_UPDATE = (r, update)"
    by fastforce
  have sz: "fw_size update = hsize c (sec c ?m (RUpd 0))"
    using open_image_sizes(2) [OF assms(1), of ?m] o by simp
  let ?tot = "wolfBoot_get_total_size c ?boot update"
  have t: "?tot \<le> WOLFBOOT_PARTITION_SIZE c"
    using hsize_bound(1) [OF assms(1)] open_image_sizes(1) [OF assms(1), of ?m] sz
    by (intro total_size_handles(2) [OF assms(1)]) simp_all
  have tail: "\<exists>ret s'. (case swap_loop c H ?boot update ?swap ?tot 0 (hal_flash_unlock H s1) of
      None \<Rightarrow> None
    | Some (ret, boot, update, sector, s) \<Rightarrow>
        if ret < 0 then Some (-1, s)
        else
          (case erase_rest c H boot update sector s of
             None \<Rightarrow> None
           | Some s \<Rightarrow>
               (let (ret, s) = wolfBoot_swap_and_final_erase c H False (hal_flash_lock H s)
                in if ret \<noteq> 0 then Some (ret, s)
                   else if rb then
                     (let s = hal_flash_unlock H s;
                          s = snd (wolfBoot_set_partition_state c H PART_BOOT IMG_STATE_SUCCESS s);
                          s = hal_flash_lock H s
                      in Some (0, s))
                   else Some (0, s)))) = Some (ret, s')" for s1 rb
  proof -
    obtain ret b u k s2 where l: "swap_loop c H ?boot update ?swap ?tot 0 (hal_flash_unlock H s1) = Some (ret, b, u, k, s2)"
      "k \<le> n_sectors c"
      using swap_loop_returns [OF assms(1) le0 t, where H = H and J = "\<lambda>_. True", OF TrueI TrueI TrueI] by blast
    obtain s3 where "erase_rest c H b u k s2 = Some s3"
      using erase_rest_returns [OF assms(1) l(2), where H = H and J = "\<lambda>_. True", OF TrueI TrueI] by blast
    then show ?thesis
      by (simp add: l(1) split_def Let_def)
  qed
  from open_image_ret [OF o] show ?thesis
  proof
    assume "r = -1"
    with o show ?thesis
      by (simp add: wolfBoot_update_def)
  next
    assume "r = 0"
    with o have o': "wolfBoot_open_image c ?m PART_UPDATE = (0, update)"
      by simp
    obtain bs s1 where s1: "wolfBoot_get_partition_state c H PART_BOOT s = (bs, s1)"
      by fastforce
    obtain fl s2 where s2: "wolfBoot_get_update_sector_flag c H 0 s1 = (fl, s2)"
      by fastforce
    obtain b where "check_new_update K c (flash_mem H s2) update fb (wolfBoot_get_image_type c ?m PART_UPDATE)
        (wolfBoot_current_firmware_version c ?m) (wolfBoot_update_firmware_version c ?m) = Some b"
      using check_new_update_returns [OF assms(2), of update] open_image_ok [OF assms(1) o'] by blast
    then show ?thesis
      unfolding wolfBoot_update_def Let_def [of "wolfBoot_open_image c ?m PART_UPDATE"] o' prod.case
      using tail [where ?s1.0 = s2] by (simp add: s1 s2 Let_def split: bool.splits)
  qed
qed

subsection \<open>An example\<close>

text \<open>
  The simulator with an erased BOOT partition and a triggered update: a signed image of
  version 2 in UPDATE.
\<close>

definition demo_update_items :: "hdr_item list" where
  "demo_update_items = Field HDR_VERSION [2, 0, 0, 0] # demo_image_items"

definition demo_update_bytes :: "byte list" where
  "demo_update_bytes = to_le32 WOLFBOOT_MAGIC @ to_le32 16 @ items_bytes demo_update_items"

definition demo_update_mem :: mem where
  "demo_update_mem = trigger_mem sim_config (mwrite (\<lambda>_. 255) 0x100000 demo_update_bytes)"

definition demo_update_sim :: sim where
  "demo_update_sim = blank_sim\<lparr>sim_mem := demo_update_mem\<rparr>"

lemma demo_update_sim_sel [simp]:
  "sim_mem demo_update_sim = demo_update_mem" "sim_alive demo_update_sim"
  by (simp_all add: demo_update_sim_def sim_state_defs)

lemma demo_update_lengths [simp]:
  "length (items_bytes demo_update_items) = 154" "length demo_update_bytes = 162"
  by (simp_all add: demo_update_items_def demo_update_bytes_def demo_image_items_def demo_digest_def demo_sig_def)

lemma demo_update_outside:
  "x < 0x13F000 \<Longrightarrow> demo_update_mem x = mwrite (\<lambda>_. 255) 0x100000 demo_update_bytes x"
  using trigger_mem_frame [OF sim_config_ok, of "mwrite (\<lambda>_. 255) 0x100000 demo_update_bytes"]
  by (simp add: demo_update_mem_def same_outside_def nvm_addrErase_def)

lemma demo_update_read:
  assumes "k + n \<le> 162"
  shows "mread demo_update_mem (0x100000 + k) n = take n (drop k demo_update_bytes)"
proof -
  have "mread demo_update_mem (0x100000 + k) n = mread (mwrite (\<lambda>_. 255) 0x100000 demo_update_bytes) (0x100000 + k) n"
    using assms by (intro mread_reloc demo_update_outside) simp
  also have "\<dots> = take n (drop k demo_update_bytes)"
    by (rule mread_mwrite_sub) (use assms in simp)
  finally show ?thesis .
qed

lemma demo_update_blank: "x < 0x100000 \<Longrightarrow> demo_update_mem x = 255"
  by (simp add: demo_update_outside mwrite_def)

lemma demo_update_magic: "le32_at demo_update_mem 0x100000 = WOLFBOOT_MAGIC" "le32_at demo_update_mem 0x100004 = 16"
  using demo_update_read [of 0 4] demo_update_read [of 4 4]
  by (simp_all add: le32_at_def demo_update_bytes_def le32_to_le32 u32_def WOLFBOOT_MAGIC_def)

lemma demo_update_find:
  assumes "lookup_item t 0x100008 demo_update_items = Some r"
  shows "wolfBoot_find_header sim_config demo_update_mem 0x100008 t = r"
proof (rule find_header_items [OF _ _ assms])
  show "mread demo_update_mem 0x100008 (length (items_bytes demo_update_items)) = items_bytes demo_update_items"
    using demo_update_read [of 8 154] by (simp add: demo_update_bytes_def)
  show "items_wf (IMAGE_HEADER_SIZE sim_config) 0x100008 demo_update_items"
    by (simp add: demo_update_items_def demo_image_items_def hdr_tag_defs u16_def IMAGE_HEADER_OFFSET_def)
qed (simp_all add: IMAGE_HEADER_OFFSET_def UINTPTR_MAX_def)

lemma demo_update_fields:
  "wolfBoot_find_header sim_config demo_update_mem 0x100008 HDR_VERSION = (4, 0x10000C)"
  "wolfBoot_find_header sim_config demo_update_mem 0x100008 HDR_IMG_TYPE = (2, 0x100014)"
  "wolfBoot_find_header sim_config demo_update_mem 0x100008 HDR_PUBKEY = (32, 0x10001A)"
  "wolfBoot_find_header sim_config demo_update_mem 0x100008 HDR_SHA256 = (32, 0x10003E)"
  "wolfBoot_find_header sim_config demo_update_mem 0x100008 HDR_SIGNATURE = (64, 0x100062)"
  by (rule demo_update_find; simp add: demo_update_items_def demo_image_items_def hdr_tag_defs)+

lemma demo_update_values:
  "mread demo_update_mem 0x10001A 32 = demo_digest" "mread demo_update_mem 0x10003E 32 = demo_digest"
  "mread demo_update_mem 0x100062 64 = demo_sig" "le16_at demo_update_mem 0x100014 = 257"
  "le32_at demo_update_mem 0x10000C = 2"
  using demo_update_read [of "0x1A" 32] demo_update_read [of "0x3E" 32] demo_update_read [of "0x62" 64]
    demo_update_read [of "0x14" 2] demo_update_read [of "0xC" 4]
  by (simp_all add: demo_update_bytes_def demo_update_items_def demo_image_items_def to_le16_def le16_at_def
      le16_def le32_at_def le32_def)

lemma demo_update_open:
  "wolfBoot_open_image sim_config demo_update_mem PART_UPDATE =
     (0, \<lparr>img_hdr = 0x100000, img_trailer = 0x140000, sha_hash = 0, fw_base = 0x100100, fw_size = 16,
          img_part = PART_UPDATE, hdr_ok = True, signature_ok = False, sha_ok = False\<rparr>)"
  using demo_update_magic
  by (simp add: wolfBoot_open_image_def wolfBoot_open_image_address_def wolfBoot_image_size_def
      image_zero_def Let_def)

lemma demo_update_authentic:
  assumes "img_hdr img = 0x100000"
  shows "image_authentic demo_crypto sim_config demo_update_mem img"
proof -
  have g: "wolfBoot_get_header sim_config demo_update_mem img t = wolfBoot_find_header sim_config demo_update_mem 0x100008 t" for t
    using assms by (simp add: wolfBoot_get_header_def IMAGE_HEADER_OFFSET_def)
  have "image_intact demo_crypto sim_config demo_update_mem img 0x10003E"
    by (simp add: image_intact_def g demo_update_fields demo_update_values WOLFBOOT_SHA_DIGEST_SIZE_def)
  moreover have "signed_by demo_crypto 0 demo_sig demo_digest"
    by (simp add: signed_by_def demo_crypto_def)
  moreover have "bit (2 :: nat) 1"
    by (simp add: bit_iff_odd)
  ultimately show ?thesis
    unfolding image_authentic_def
    by (intro exI [of _ "0x10003E"] exI [of _ "0x10001A"] exI [of _ "0x100014"] exI [of _ "0x100062"]
        exI [of _ "0 :: nat"])
      (simp add: g demo_update_fields demo_update_values demo_keyslot
        WOLFBOOT_SHA_DIGEST_SIZE_def ED25519_IMAGE_SIGNATURE_SIZE_def HDR_IMG_TYPE_AUTH_MASK_def
        HDR_IMG_TYPE_AUTH_ED25519_def HDR_IMG_TYPE_PART_MASK_def, simp add: demo_crypto_def)
qed

lemma demo_update_boot:
  "le32_at demo_update_mem 0x80000 = 4294967295"
  "part_state sim_config PART_BOOT demo_update_mem = None"
  "fw_size (snd (wolfBoot_open_image sim_config demo_update_mem PART_BOOT)) = 0"
proof -
  show b: "le32_at demo_update_mem 0x80000 = 4294967295"
    by (simp add: le32_at_eq demo_update_blank)
  show "part_state sim_config PART_BOOT demo_update_mem = None"
    by (rule part_state_erased) (simp add: trailer_addr_def PART_BOOT_ENDFLAGS_def demo_update_blank)
  show "fw_size (snd (wolfBoot_open_image sim_config demo_update_mem PART_BOOT)) = 0"
    using b by (simp add: wolfBoot_open_image_def wolfBoot_open_image_address_def WOLFBOOT_MAGIC_def
        image_zero_def Let_def)
qed

lemma demo_update_pending: "update_pending sim_config demo_update_mem"
  using trigger_mem_state [OF sim_config_ok] trigger_mem_flags [OF sim_config_ok]
  by (simp add: update_pending_def demo_update_mem_def)

lemma demo_update_acceptable:
  assumes "wolfBoot_open_image sim_config demo_update_mem PART_UPDATE = (0, update)"
  shows "acceptable demo_crypto sim_config demo_update_mem fb update" "0 < fw_size update"
proof -
  have u: "img_hdr update = 0x100000" "fw_size update = 16"
    using assms by (auto simp: demo_update_open)
  then show "0 < fw_size update"
    by simp
  have "wolfBoot_get_image_type sim_config demo_update_mem PART_UPDATE = 257"
    by (simp add: wolfBoot_get_image_type_def wolfBoot_get_blob_type_def wolfBoot_get_image_from_part_def
        demo_update_magic demo_update_fields demo_update_values IMAGE_HEADER_OFFSET_def)
  moreover have "wolfBoot_update_firmware_version sim_config demo_update_mem = 2"
    by (simp add: wolfBoot_update_firmware_version_def wolfBoot_get_image_version_def wolfBoot_get_blob_version_def
        wolfBoot_get_image_from_part_def demo_update_magic demo_update_fields demo_update_values IMAGE_HEADER_OFFSET_def)
  moreover have "wolfBoot_current_firmware_version sim_config demo_update_mem = 0"
    by (simp add: wolfBoot_current_firmware_version_def wolfBoot_get_image_version_def wolfBoot_get_blob_version_def
        wolfBoot_get_image_from_part_def demo_update_boot WOLFBOOT_MAGIC_def)
  ultimately show "acceptable demo_crypto sim_config demo_update_mem fb update"
    using demo_update_authentic [OF u(1)]
    by (simp add: acceptable_def u MAX_UPDATE_SIZE_def HDR_IMG_TYPE_PART_MASK_def HDR_IMG_TYPE_APP_def
        HDR_IMG_TYPE_AUTH_MASK_def HDR_IMG_TYPE_AUTH_ED25519_def)
qed

lemma demo_update_fit: "images_fit sim_config demo_update_mem"
  by (simp add: images_fit_def demo_update_boot demo_update_open MAX_UPDATE_SIZE_def)

subsection \<open>Properties\<close>

text \<open>
  C1. Secure boot: whatever the flash holds, whatever the flash device does and whatever was
  interrupted before, \<open>wolfBoot_start\<close> only jumps to the entry of an image in BOOT that
  is authentic in the flash at that moment: intact and signed by a key of the key store.
\<close>

theorem start_boots_authentic:
  assumes "cfg_ok c" "\<forall>x. length (wc_Sha256 K x) = 32"
    and "wolfBoot_start K c H s = Some (entry, s')"
  shows "entry = WOLFBOOT_PARTITION_BOOT_ADDRESS c + IMAGE_HEADER_SIZE c
    \<and> (\<exists>img. wolfBoot_open_image c (flash_mem H s') PART_BOOT = (0, img)
         \<and> image_authentic K c (flash_mem H s') img)"
  using start_boots_authentic_lemma [OF assms(1) _ assms(3)] assms(2) by (auto simp: boot_authentic_def)

definition demo_sim :: sim where
  "demo_sim = blank_sim\<lparr>sim_mem := demo_mem 0x80000\<rparr>"

lemma demo_sim_sel [simp]: "sim_mem demo_sim = demo_mem 0x80000" "sim_alive demo_sim"
  by (simp_all add: demo_sim_def sim_state_defs)

lemma demo_idle:
  "nothing_to_resume sim_config (demo_mem 0x80000)" "part_state sim_config PART_BOOT (demo_mem 0x80000) = None"
  "part_state sim_config PART_UPDATE (demo_mem 0x80000) = None" "boot_authentic demo_crypto sim_config (demo_mem 0x80000)"
proof -
  have far: "demo_mem 0x80000 x = 255" if "0x80100 \<le> x" for x
    using that by (simp add: demo_mem_def mwrite_def)
  show "part_state sim_config PART_BOOT (demo_mem 0x80000) = None"
    "part_state sim_config PART_UPDATE (demo_mem 0x80000) = None"
    by (rule part_state_erased; simp add: trailer_addr_def PART_BOOT_ENDFLAGS_def PART_UPDATE_ENDFLAGS_def far)+
  then show "nothing_to_resume sim_config (demo_mem 0x80000)"
    by (simp add: nothing_to_resume_def tail_sector_def n_sectors_def le32_at_eq far WOLFBOOT_MAGIC_TRAIL_def)
  show "boot_authentic demo_crypto sim_config (demo_mem 0x80000)"
    using demo_open demo_authentic by (auto simp: boot_authentic_def)
qed

lemma demo_start: "wolfBoot_start demo_crypto sim_config (sim_hal sim_config) demo_sim = Some (0x80100, demo_sim)"
  using start_verified [of sim_config demo_crypto _ "sim_hal sim_config" demo_sim demo_sim, OF _ sim_config_ok]
  by (simp add: demo_idle)

theorem start_boots_authentic_witness:
  "wolfBoot_start demo_crypto sim_config (sim_hal sim_config) demo_sim = Some (0x80100, demo_sim)
   \<and> (\<exists>img. image_authentic demo_crypto sim_config (sim_mem demo_sim) img)"
  using start_boots_authentic [OF sim_config_ok _ demo_start] demo_start by auto

text \<open>
  C15. Availability: with no update pending and nothing to resume, an authentic BOOT image is
  started and neither the flash nor the device changes.
\<close>

theorem start_idle_boots:
  assumes "cfg_ok c" "\<not> NVM_FLASH_WRITEONCE c" "\<forall>x. length (wc_Sha256 K x) = 32"
    and "nothing_to_resume c (flash_mem H s)"
    and "fst (wolfBoot_get_partition_state c H PART_BOOT s) \<noteq> Some IMG_STATE_TESTING"
    and "fst (wolfBoot_get_partition_state c H PART_UPDATE s) \<noteq> Some IMG_STATE_UPDATING"
    and "wolfBoot_open_image c (flash_mem H s) PART_BOOT = (0, img)" "image_authentic K c (flash_mem H s) img"
  shows "wolfBoot_start K c H s = Some (WOLFBOOT_PARTITION_BOOT_ADDRESS c + IMAGE_HEADER_SIZE c, s)"
  by (rule start_verified [OF assms(2,1) _ refl assms(4)])
    (use assms in \<open>auto simp: get_state_nor boot_authentic_def\<close>)

theorem start_idle_boots_witness:
  "wolfBoot_start demo_crypto sim_config (sim_hal sim_config) demo_sim = Some (0x80100, demo_sim)"
  using start_idle_boots [of sim_config demo_crypto "sim_hal sim_config" demo_sim
      "snd (wolfBoot_open_image sim_config (demo_mem 0x80000) PART_BOOT)", OF sim_config_ok]
  by (simp add: get_state_nor demo_idle demo_open demo_authentic)


lemmas sim_config_hal = sim_flash_hal [of sim_config, simplified]




text \<open>
  C8. Power failure in the final erase: \<open>wolfBoot_swap_and_final_erase\<close>, which
  \<open>wolfBoot_start\<close> calls first, completes it, or is interrupted in a state of the same
  kind.
\<close>

theorem final_erase_resumes:
  assumes "flash_hal H alive unlocked dead" "cfg_ok c" "\<not> NVM_FLASH_WRITEONCE c" "\<not> FLAGS_HOME c"
    and "images_fit c m0" "alive s" "mid_final c m0 (flash_mem H s)"
  shows "let (ret, s') = wolfBoot_swap_and_final_erase c H True s
    in ret = 0 \<and> (alive s' \<and> updated c m0 (flash_mem H s') \<or> dead s' \<and> interrupted c m0 (flash_mem H s'))"
proof -
  note N = images_fit_sectors [OF assms(2,5)]
  note r = flash_hal.final_erase_resume [OF assms(1,3,4,2) N(2,1) _ assms(6) assms(7) [unfolded mid_final_def], of True]
  show ?thesis
    using r flash_hal.ends_updated [OF assms(1,2)] by (auto simp: split_def)
qed

definition final_sim :: sim where
  "final_sim = blank_sim\<lparr>sim_mem := set_state_mem sim_config PART_UPDATE IMG_STATE_FINAL_FLAGS (\<lambda>_. 255)\<rparr>"

lemma final_sim_facts:
  "sim_alive final_sim" "images_fit sim_config (\<lambda>_. 255)" "mid_final sim_config (\<lambda>_. 255) (sim_mem final_sim)"
proof -
  let ?m = "set_state_mem sim_config PART_UPDATE IMG_STATE_FINAL_FLAGS (\<lambda>_. 255)"
  show "sim_alive final_sim"
    by (simp add: final_sim_def sim_state_defs)
  have sz: "hsize sim_config (sec sim_config (\<lambda>_. 255) r) = 0" for r
    by (simp add: hsize_def sec_def le32_def mread_def WOLFBOOT_MAGIC_def)
  show fit: "images_fit sim_config (\<lambda>_. 255)"
    by (simp add: images_fit_def open_image_sizes [OF sim_config_ok] sz MAX_UPDATE_SIZE_def)
  have n: "sectors_of sim_config (\<lambda>_. 255) = 1"
    by (simp add: sectors_of_def sz swap_count_def)
  have "sec sim_config ?m r = sec sim_config (\<lambda>_. 255) r" if "reg_valid sim_config r" for r
    by (rule sec_flags [OF sim_config_ok that set_state_in_flags(1) [OF sim_config_ok]]) simp
  then have "sec sim_config ?m (RBoot 0) = sec sim_config (\<lambda>_. 255) (RBoot 0)"
    "sec sim_config ?m (RUpd 0) = sec sim_config (\<lambda>_. 255) (RUpd 0)"
    by (simp_all add: n_sectors_def)
  moreover have "part_state sim_config PART_UPDATE ?m = Some IMG_STATE_FINAL_FLAGS"
    by (simp add: part_state_set_state [OF sim_config_ok] magic_ready_def)
  ultimately show "mid_final sim_config (\<lambda>_. 255) (sim_mem final_sim)"
    by (simp add: mid_final_def final_safe_def n tail_sector_def n_sectors_def final_sim_def holds_def sec_nth)
qed

theorem final_erase_resumes_witness:
  "fst (wolfBoot_swap_and_final_erase sim_config (sim_hal sim_config) True final_sim) = 0"
  using final_erase_resumes [OF sim_config_hal sim_config_ok _ _ final_sim_facts(2,1)] final_sim_facts(3)
  by (auto simp: split_def Let_def)

text \<open>
  C9. Booting into an update: with an acceptable update pending, \<open>wolfBoot_start\<close> installs
  it and starts it, unless power fails on the way.
\<close>

theorem start_installs_update:
  assumes "flash_hal H alive unlocked dead" "cfg_ok c" "\<not> NVM_FLASH_WRITEONCE c" "\<not> FLAGS_HOME c"
    and "even (WOLFBOOT_SECTOR_SIZE c)" "\<forall>x. length (wc_Sha256 K x) = 32"
    and "alive s" "m = flash_mem H s" "update_pending c m" "images_fit c m" "nothing_to_resume c m"
    and "part_state c PART_BOOT m \<noteq> Some IMG_STATE_TESTING"
    and "wolfBoot_open_image c m PART_UPDATE = (0, update)" "0 < fw_size update" "acceptable K c m 0 update"
  shows "(\<exists>ret s'. wolfBoot_update K c H 0 s = Some (ret, s') \<and> dead s')
    \<or> (\<exists>s'. wolfBoot_start K c H s = Some (WOLFBOOT_PARTITION_BOOT_ADDRESS c + IMAGE_HEADER_SIZE c, s')
         \<and> exchanged c m (flash_mem H s')
         \<and> wolfBoot_get_partition_state c H PART_BOOT s' = (Some IMG_STATE_TESTING, s'))"
proof -
  have "mid_swap c m (flash_mem H s)"
    using pending_swap_safe [OF assms(9) images_fit_sectors(1) [OF assms(2,10)]] assms(8)
    by (simp add: mid_swap_def)
  then obtain ret s' where u: "wolfBoot_update K c H 0 s = Some (ret, s')"
    "updated c m (flash_mem H s') \<or> dead s'"
    using flash_hal.update_mid_swap [OF assms(1,3,4,2) _ assms(10,7)] assms(6,8,13-15) by blast
  have "wolfBoot_start K c H s = Some (WOLFBOOT_PARTITION_BOOT_ADDRESS c + IMAGE_HEADER_SIZE c, s')"
    if e: "exchanged c m (flash_mem H s')"
  proof (rule start_verified [OF assms(3,2) _ assms(8,11,12)])
    show "boot_authentic K c (flash_mem H s')"
      using exchanged_authentic [OF assms(2,5) e assms(13)] assms(15) by (simp add: acceptable_def)
  qed (use assms(6,9) u(1) in \<open>auto simp: update_pending_def\<close>)
  with u show ?thesis
    by (auto simp: updated_def get_state_nor [OF assms(3)])
qed

theorem start_installs_update_witness:
  "(\<exists>ret s'. wolfBoot_update demo_crypto sim_config (sim_hal sim_config) 0 demo_update_sim = Some (ret, s') \<and> sim_dead s')
    \<or> (\<exists>s'. wolfBoot_start demo_crypto sim_config (sim_hal sim_config) demo_update_sim = Some (0x80100, s')
         \<and> exchanged sim_config demo_update_mem (sim_mem s'))"
proof -
  have "nothing_to_resume sim_config demo_update_mem"
    using demo_update_pending by (simp add: nothing_to_resume_def tail_sector_def n_sectors_def le32_at_eq
        demo_update_blank WOLFBOOT_MAGIC_TRAIL_def update_pending_def img_state_defs)
  then show ?thesis
    using start_installs_update [OF sim_config_hal sim_config_ok, of demo_crypto demo_update_sim demo_update_mem]
      demo_update_open demo_update_acceptable [OF demo_update_open] demo_update_pending demo_update_fit demo_update_boot
    by auto
qed

text \<open>
  C11. Refusal: an update that is not acceptable (wrong type, too large, not authentic, or not
  newer than the running version unless downgrades or a fallback are allowed) is refused
  with -1 and nothing is written.
\<close>

theorem update_refuses:
  assumes "cfg_ok c" "\<not> NVM_FLASH_WRITEONCE c" "\<forall>x. length (wc_Sha256 K x) = 32"
    and "first_flag c (flash_mem H s) = SECT_FLAG_NEW"
    and "wolfBoot_open_image c (flash_mem H s) PART_UPDATE = (0, update)"
    and "\<not> acceptable K c (flash_mem H s) fallback_allowed update"
  shows "wolfBoot_update K c H fallback_allowed s = Some (-1, s)"
  by (rule update_refused [OF assms(2,1) _ assms(4)]) (use assms(3,5,6) in auto)

definition no_key_crypto :: crypto where
  "no_key_crypto = demo_crypto\<lparr>wc_ed25519_verify_msg := \<lambda>pub sig msg. (0, 0)\<rparr>"

theorem update_refuses_witness:
  "wolfBoot_update no_key_crypto sim_config (sim_hal sim_config) 0 demo_update_sim = Some (-1, demo_update_sim)"
proof -
  have "\<not> image_authentic no_key_crypto sim_config demo_update_mem img" for img
    by (simp add: image_authentic_def signed_by_def no_key_crypto_def)
  then have "\<not> acceptable no_key_crypto sim_config demo_update_mem 0 update" for update
    by (simp add: acceptable_def)
  moreover have "first_flag sim_config demo_update_mem = SECT_FLAG_NEW"
    using demo_update_pending by (simp add: update_pending_def first_flag_def n_sectors_def)
  moreover have "length (wc_Sha256 no_key_crypto x) = 32" for x
    by (simp add: no_key_crypto_def)
  ultimately show ?thesis
    using update_refuses [of sim_config no_key_crypto "sim_hal sim_config" demo_update_sim, OF sim_config_ok _ _ _ _, of _ 0]
      demo_update_open by simp
qed

text \<open>
  C10. Termination: \<open>wolfBoot_update\<close> returns, whatever the flash holds and whatever the
  flash driver does or returns, also in the write-once build.
\<close>

theorem update_returns:
  assumes "cfg_ok c" "\<forall>x. length (wc_Sha256 K x) = 32"
  shows "\<exists>ret s'. wolfBoot_update K c H fallback_allowed s = Some (ret, s')"
  by (rule update_returns_lemma [OF assms(1)]) (use assms(2) in blast)

theorem update_returns_witness:
  "\<exists>ret s'. wolfBoot_update demo_crypto sim_config (sim_hal sim_config) 1 demo_update_sim = Some (ret, s')"
  using update_returns [OF sim_config_ok, of demo_crypto] by simp

text \<open>
  C28. The swap cannot always be resumed: there is a state in the middle of the swap (the
  first sector of UPDATE was being erased to take the BOOT sector) in which the UPDATE
  header cannot be opened. Every further \<open>wolfBoot_update\<close> then gives up at once, with
  the header of the update left in the SWAP sector.
\<close>

theorem swap_stuck_without_header:
  assumes "cfg_ok c" "update_pending c m0" "images_fit c m0"
  shows "\<exists>m. mid_swap c m0 m \<and> sector_flag c 0 m = Some SECT_FLAG_SWAPPING
    \<and> (\<forall>K H fb s. flash_mem (H :: 's hal) s = m \<longrightarrow> wolfBoot_update K c H fb s = Some (-1, s))"
proof -
  note N = images_fit_sectors [OF assms(1,3)] and d = cfg_okD [OF assms(1)]
  define b0 u0 where "b0 = (\<lambda>i. sec c m0 (RBoot i))" and "u0 = (\<lambda>i. sec c m0 (RUpd i))"
  let ?inv = "swap_inv c b0 u0 (sectors_of c m0) IMG_STATE_UPDATING 0" and ?ss = "WOLFBOOT_SECTOR_SIZE c"
  have i0: "?inv SECT_FLAG_NEW m0"
    using assms(2) N(1) by (auto simp: swap_inv_def update_pending_def Let_def phase_def b0_def u0_def)
  define m1 where "m1 = mwrite m0 (reg_addr c RSwap) (new_boot c u0 0)"
  have so1: "same_outside (reg_addr c RSwap) ?ss m0 m1"
    by (simp add: m1_def same_outside_def mem_simps)
  have v: "reg_valid c (RBoot 0)" "reg_valid c (RUpd 0)" "reg_valid c RSwap"
    using N by auto
  have s1: "sec c m1 RSwap = new_boot c u0 0" "sec c m1 (RBoot 0) = b0 0" "sec c m1 (RUpd 0) = u0 0"
    using sec_other [OF assms(1) v(3) v(1) _ so1] sec_other [OF assms(1) v(3) v(2) _ so1]
      sec_write [of "new_boot c u0 0" c m0 RSwap] by (simp_all add: m1_def b0_def u0_def)
  have i1: "?inv SECT_FLAG_NEW m1"
    by (rule swap_inv_region [OF assms(1) v(3) N so1 _ i0]) (simp_all add: phase_def s1)
  define m2 where "m2 = set_flag_mem c 0 SECT_FLAG_SWAPPING m1"
  have i2: "?inv SECT_FLAG_SWAPPING m2"
    unfolding m2_def
    by (rule swap_inv_flag [OF assms(1) N i1]) (simp_all add: sect_flag_defs phase_def s1)
  define m3 where "m3 = mfill m2 (reg_addr c (RUpd 0)) ?ss 255"
  have so3: "same_outside (reg_addr c (RUpd 0)) ?ss m2 m3"
    by (simp add: m3_def same_outside_mfill)
  have "sec c m2 RSwap = new_boot c u0 0" "sec c m2 (RBoot 0) = b0 0"
    using swap_inv_at(2) [OF i2 N(2)] by (auto simp: phase_def sect_flag_defs)
  then have "phase c b0 u0 m3 0 SECT_FLAG_SWAPPING"
    using sec_other [OF assms(1) v(2) v(1) _ so3] sec_other [OF assms(1) v(2) v(3) _ so3] by (simp add: phase_def)
  then have i3: "?inv SECT_FLAG_SWAPPING m3"
    by (intro swap_inv_region [OF assms(1) v(2) N so3 _ i2]) simp
  have "le32_at m3 (WOLFBOOT_PARTITION_UPDATE_ADDRESS c) = 4294967295"
    using d(6) by (simp add: le32_at_eq m3_def mem_simps)
  then have "fst (wolfBoot_open_image c m3 PART_UPDATE) = -1"
    by (simp add: wolfBoot_open_image_def wolfBoot_open_image_address_def Let_def WOLFBOOT_MAGIC_def)
  then have "wolfBoot_update K c H fb s = Some (-1, s)" if "flash_mem H s = m3" for K and H :: "'s hal" and fb s
    using that by (simp add: wolfBoot_update_def split_def)
  moreover have "mid_swap c m0 m3"
    unfolding mid_swap_def using swap_safeI [OF i3] by (simp add: b0_def u0_def)
  ultimately show ?thesis
    using swap_inv_at(1) [OF i3 N(2)] by blast
qed

theorem swap_stuck_without_header_witness:
  "\<exists>m. mid_swap sim_config demo_update_mem m \<and> sector_flag sim_config 0 m = Some SECT_FLAG_SWAPPING
    \<and> (\<forall>K H fb s. flash_mem (H :: sim hal) s = m \<longrightarrow> wolfBoot_update K sim_config H fb s = Some (-1, s))"
  by (rule swap_stuck_without_header [OF sim_config_ok demo_update_pending demo_update_fit])

end
