(* ===== verification/Strings.thy ===== *)
theory Strings
  imports Prelude
begin

text \<open>
  The C library functions that wolfBoot carries for itself (\<open>src/string.c\<close>): characters,
  memory and strings over a flat byte memory. The word-at-a-time variants of \<open>FAST_MEMCPY\<close>
  are shown equal to the byte loops, and every function to its meaning on byte lists.
\<close>

subsection \<open>Characters\<close>

definition islower :: "int \<Rightarrow> bool" where
  "islower c \<longleftrightarrow> c \<ge> 97 \<and> c \<le> 122"

definition isupper :: "int \<Rightarrow> bool" where
  "isupper c \<longleftrightarrow> c \<ge> 65 \<and> c \<le> 90"

definition tolower :: "int \<Rightarrow> int" where
  "tolower c = (if isupper c then c - 65 + 97 else c)"

definition toupper :: "int \<Rightarrow> int" where
  "toupper c = (if islower c then c - 97 + 65 else c)"

definition isalpha :: "int \<Rightarrow> bool" where
  "isalpha c \<longleftrightarrow> isupper c \<or> islower c"

definition uchar :: "byte \<Rightarrow> int" where
  "uchar b = int (unat b)"

subsection \<open>Memory\<close>

text \<open>\<open>fast\<close> is the build option \<open>FAST_MEMCPY\<close>, \<open>w\<close> the size of a word.\<close>

fun set_bytes :: "mem \<Rightarrow> nat \<Rightarrow> byte \<Rightarrow> nat \<Rightarrow> mem" where
  "set_bytes m d uc 0 = m"
| "set_bytes m d uc (Suc n) = set_bytes (m(d := uc)) (d + 1) uc n"

fun set_align :: "mem \<Rightarrow> nat \<Rightarrow> byte \<Rightarrow> nat \<Rightarrow> mem \<times> nat \<times> nat" where
  "set_align m d uc n =
     (if n > 0 \<and> d mod 4 \<noteq> 0 then set_align (m(d := uc)) (d + 1) uc (n - 1) else (m, d, n))"

fun set_words :: "mem \<Rightarrow> nat \<Rightarrow> nat \<Rightarrow> nat \<Rightarrow> mem \<times> nat \<times> nat" where
  "set_words m d w n =
     (if n \<ge> 4 then set_words (mwrite m d (to_le32 w)) (d + 4) w (n - 4) else (m, d, n))"

declare set_align.simps [simp del] set_words.simps [simp del]

definition memset :: "bool \<Rightarrow> mem \<Rightarrow> nat \<Rightarrow> int \<Rightarrow> nat \<Rightarrow> mem" where
  "memset fast m s c n =
     (let uc = word_of_int c;
          (m, d, n) =
            (if fast then
               (let (m, d, n) = set_align m s uc n
                in if n \<ge> 4 then
                     set_words m d (unat uc + 256 * unat uc + 65536 * unat uc + 16777216 * unat uc) n
                   else (m, d, n))
             else (m, s, n))
      in set_bytes m d uc n)"

fun copy_words :: "nat \<Rightarrow> mem \<Rightarrow> nat \<Rightarrow> nat \<Rightarrow> nat \<Rightarrow> mem \<times> nat \<times> nat \<times> nat" where
  "copy_words w m d s n =
     (if w > 0 \<and> n \<ge> w then copy_words w (mwrite m d (mread m s w)) (d + w) (s + w) (n - w) else (m, d, s, n))"

declare copy_words.simps [simp del]

fun copy_up :: "mem \<Rightarrow> nat \<Rightarrow> nat \<Rightarrow> nat \<Rightarrow> mem" where
  "copy_up m d s 0 = m"
| "copy_up m d s (Suc n) = copy_up (m(d := m s)) (d + 1) (s + 1) n"

definition memcpy :: "bool \<Rightarrow> nat \<Rightarrow> mem \<Rightarrow> nat \<Rightarrow> nat \<Rightarrow> nat \<Rightarrow> mem" where
  "memcpy fast w m dst src n =
     (let (m, d, s, n) =
            (if fast \<and> dst mod w = 0 \<and> src mod w = 0 then copy_words w m dst src n else (m, dst, src, n))
      in copy_up m d s n)"

text \<open>The descending loops of \<open>memmove\<close>.\<close>

fun copy_down :: "mem \<Rightarrow> nat \<Rightarrow> nat \<Rightarrow> nat \<Rightarrow> nat \<Rightarrow> mem" where
  "copy_down m d s i lo =
     (if i > lo then copy_down (m(d + (i - 1) := m (s + (i - 1)))) d s (i - 1) lo else m)"

fun copy_words_down :: "nat \<Rightarrow> mem \<Rightarrow> nat \<Rightarrow> nat \<Rightarrow> nat \<Rightarrow> mem" where
  "copy_words_down w m d s k =
     (if k > 0 \<and> w > 0 then
        copy_words_down w (mwrite m (d + (k - w)) (mread m (s + (k - w)) w)) d s (k - w)
      else m)"

declare copy_down.simps [simp del] copy_words_down.simps [simp del]

definition memmove :: "bool \<Rightarrow> nat \<Rightarrow> mem \<Rightarrow> nat \<Rightarrow> nat \<Rightarrow> nat \<Rightarrow> mem" where
  "memmove fast w m dst src n =
     (if dst = src then m
      else if src < dst then
        (let aligned_n = (if fast \<and> dst mod w = 0 \<and> src mod w = 0 then n div w * w else 0);
             m = copy_down m dst src n aligned_n
         in copy_words_down w m dst src aligned_n)
      else memcpy fast w m dst src n)"

subsection \<open>Memory routines do what they say\<close>

lemma mfill_0 [simp]: "mfill m a 0 b = m"
  by (rule ext) (auto simp: mfill_def)

lemma mfill_split: "mfill (mfill m a k b) (a + k) n b = mfill m a (k + n) b"
  by (rule ext) (auto simp: mem_simps)

lemma set_bytes_eq: "set_bytes m d uc n = mfill m d n uc"
proof (induction n arbitrary: m d)
  case (Suc n)
  have "m(d := uc) = mfill m d 1 uc"
    by (rule ext) (auto simp: mem_simps)
  then show ?case
    using Suc mfill_split [of m d 1 uc n] by simp
qed simp

lemma set_align_eq: "\<exists>k\<le>n. set_align m d uc n = (mfill m d k uc, d + k, n - k)"
proof (induction n arbitrary: m d)
  case 0
  then show ?case
    by (simp add: set_align.simps)
next
  case (Suc n)
  show ?case
  proof (cases "d mod 4 = 0")
    case True
    then show ?thesis
      by (intro exI [of _ 0]) (simp add: set_align.simps)
  next
    case False
    obtain k where k: "k \<le> n" "set_align (m(d := uc)) (d + 1) uc n = (mfill (m(d := uc)) (d + 1) k uc, d + 1 + k, n - k)"
      using Suc by blast
    have "mfill (m(d := uc)) (d + 1) k uc = mfill m d (Suc k) uc"
      by (rule ext) (auto simp: mem_simps)
    then show ?thesis
      using k False by (intro exI [of _ "Suc k"]) (simp add: set_align.simps [of m d uc "Suc n"])
  qed
qed

lemma to_le32_repeat:
  "to_le32 (unat uc + 256 * unat uc + 65536 * unat uc + 16777216 * unat uc) = [uc, uc, uc, uc]"
proof -
  have "le32 [uc, uc, uc, uc] = unat uc + 256 * unat uc + 65536 * unat uc + 16777216 * unat uc"
    by (simp add: le32_def)
  then show ?thesis
    using to_le32_le32 [of "[uc, uc, uc, uc]"] by simp
qed

lemma set_words_eq:
  assumes "to_le32 w = [uc, uc, uc, uc]"
  shows "set_words m d w n = (mfill m d (n div 4 * 4) uc, d + n div 4 * 4, n mod 4)"
proof (induction n arbitrary: m d rule: less_induct)
  case (less n)
  show ?case
  proof (cases "4 \<le> n")
    case True
    have "mwrite m d (to_le32 w) = mfill m d 4 uc"
      by (rule ext) (auto simp: mem_simps assms nth_Cons' numeral_eq_Suc)
    moreover have "n div 4 * 4 = 4 + (n - 4) div 4 * 4" "n mod 4 = (n - 4) mod 4"
      using True by (auto simp: le_div_geq le_mod_geq)
    ultimately show ?thesis
      using True less [of "n - 4" "mfill m d 4 uc" "d + 4"] mfill_split [of m d 4 uc "(n - 4) div 4 * 4"]
      by (simp add: set_words.simps [of m d w n])
  qed (simp add: set_words.simps)
qed

lemma memset_eq: "memset fast m s c n = mfill m s n (word_of_int c)"
proof (cases fast)
  case True
  obtain k where k: "k \<le> n" "set_align m s (word_of_int c) n = (mfill m s k (word_of_int c), s + k, n - k)"
    using set_align_eq by blast
  note w = set_words_eq [OF to_le32_repeat [of "word_of_int c"], simplified]
  have "(n - k) div 4 * 4 + (n - k) mod 4 = n - k"
    by simp
  then have "k + (n - k) div 4 * 4 + (n - k) mod 4 = n"
    using k(1) by linarith
  then have e: "mfill (mfill (mfill m s k b) (s + k) ((n - k) div 4 * 4) b) (s + k + (n - k) div 4 * 4) ((n - k) mod 4) b = mfill m s n b" for b
    using mfill_split [of m s k b] mfill_split [of m s "k + (n - k) div 4 * 4" b] by (simp add: add.assoc)
  show ?thesis
    using True k mfill_split [of m s k _ "n - k"]
    by (simp add: memset_def w set_bytes_eq e Let_def)
qed (simp add: memset_def set_bytes_eq)

text \<open>Copying upwards is right unless the source is overwritten before it is read.\<close>

lemma mwrite_split:
  "length xs = k \<Longrightarrow> mwrite (mwrite m a xs) (a + k) ys = mwrite m a (xs @ ys)"
  by (rule ext) (auto simp: mem_simps nth_append)

lemma copy_up_eq: "d \<le> s \<or> s + n \<le> d \<Longrightarrow> copy_up m d s n = mwrite m d (mread m s n)"
proof (induction n arbitrary: m d s)
  case (Suc n)
  have "mread (m(d := m s)) (s + 1) n = mread m (s + 1) n"
    using Suc.prems by (intro mread_cong) auto
  moreover have "m(d := m s) = mwrite m d [m s]"
    by (rule ext) (auto simp: mem_simps)
  ultimately have "copy_up m d s (Suc n) = mwrite (mwrite m d [m s]) (d + 1) (mread m (s + 1) n)"
    using Suc.IH [of "d + 1" "s + 1" "m(d := m s)"] Suc.prems by auto
  then show ?case
    by (simp add: mwrite_split [of "[m s]" 1, simplified] mread_Suc)
qed simp

lemma copy_words_eq:
  assumes "0 < w" "d + w \<le> s \<or> d = s \<or> s + n \<le> d"
  shows "\<exists>k\<le>n. copy_words w m d s n = (mwrite m d (mread m s k), d + k, s + k, n - k)"
  using assms(2)
proof (induction n arbitrary: m d s rule: less_induct)
  case (less n)
  show ?case
  proof (cases "w \<le> n")
    case False
    then show ?thesis
      by (intro exI [of _ 0]) (simp add: copy_words.simps)
  next
    case True
    let ?m = "mwrite m d (mread m s w)"
    obtain k where k: "k \<le> n - w" "copy_words w ?m (d + w) (s + w) (n - w) =
        (mwrite ?m (d + w) (mread ?m (s + w) k), d + w + k, s + w + k, n - w - k)"
      using less.IH [of "n - w" "d + w" "s + w" ?m] less.prems True assms(1) by fastforce
    have "mread ?m (s + w) k = mread m (s + w) k"
      using less.prems k(1) True by (intro mread_cong) (auto simp: mem_simps)
    then have "mwrite ?m (d + w) (mread ?m (s + w) k) = mwrite m d (mread m s (w + k))"
      by (simp add: mwrite_split mread_add)
    then show ?thesis
      using k True assms(1) by (intro exI [of _ "w + k"]) (simp add: copy_words.simps [of w m d s n] add.assoc)
  qed
qed

lemma aligned_apart:
  fixes a b w :: nat
  assumes "a mod w = 0" "b mod w = 0" "a < b"
  shows "a + w \<le> b"
proof -
  have "w dvd b - a"
    using assms by (simp add: dvd_eq_mod_eq_0 [symmetric] dvd_diff_nat)
  then show ?thesis
    using assms(3) by (auto dest: dvd_imp_le)
qed

lemma memcpy_eq:
  assumes "0 < w" "dst \<le> src \<or> src + n \<le> dst"
  shows "memcpy fast w m dst src n = mwrite m dst (mread m src n)"
proof (cases "fast \<and> dst mod w = 0 \<and> src mod w = 0")
  case False
  then show ?thesis
    using copy_up_eq [OF assms(2)] by (auto simp: memcpy_def)
next
  case True
  have "dst + w \<le> src \<or> dst = src \<or> src + n \<le> dst"
    using assms(2) True aligned_apart [of dst w src] by (cases "dst < src") auto
  from copy_words_eq [OF assms(1) this] obtain k where
    k: "k \<le> n" "copy_words w m dst src n = (mwrite m dst (mread m src k), dst + k, src + k, n - k)"
    by blast
  have "mread (mwrite m dst (mread m src k)) (src + k) (n - k) = mread m (src + k) (n - k)"
    using assms(2) k(1) by (intro mread_cong) (auto simp: mem_simps)
  then show ?thesis
    using True k assms(2) copy_up_eq [of "dst + k" "src + k" "n - k"] mread_add [of m src k "n - k"]
    by (auto simp: memcpy_def mwrite_split)
qed

lemma copy_down_eq:
  assumes "s < d" "lo \<le> i"
  shows "copy_down m d s i lo = mwrite m (d + lo) (mread m (s + lo) (i - lo))"
  using assms(2)
proof (induction i arbitrary: m)
  case 0
  then show ?case
    by (simp add: copy_down.simps)
next
  case (Suc i)
  show ?case
  proof (cases "lo = Suc i")
    case False
    let ?m = "m(d + i := m (s + i))"
    have "copy_down m d s (Suc i) lo = mwrite ?m (d + lo) (mread ?m (s + lo) (i - lo))"
      using Suc False by (simp add: copy_down.simps [of m d s "Suc i"])
    moreover have "mread ?m (s + lo) (i - lo) = mread m (s + lo) (i - lo)"
      using assms(1) by (intro mread_cong) auto
    moreover have "mread m (s + lo) (Suc i - lo) = mread m (s + lo) (i - lo) @ [m (s + i)]"
      using Suc.prems False mread_add [of m "s + lo" "i - lo" 1] by (simp add: Suc_diff_le mread_def)
    ultimately show ?thesis
      using Suc.prems False by (intro ext) (auto simp: mem_simps nth_append)
  qed (simp add: copy_down.simps)
qed

lemma copy_words_down_eq:
  assumes "0 < w" "s + w \<le> d"
  shows "copy_words_down w m d s (k * w) = mwrite m d (mread m s (k * w))"
proof (induction k arbitrary: m)
  case 0
  then show ?case
    by (simp add: copy_words_down.simps)
next
  case (Suc k)
  let ?m = "mwrite m (d + k * w) (mread m (s + k * w) w)"
  have "copy_words_down w m d s (Suc k * w) = mwrite ?m d (mread ?m s (k * w))"
    using Suc assms(1) by (simp add: copy_words_down.simps [of w m d s "w + k * w"])
  moreover have "mread ?m s (k * w) = mread m s (k * w)"
    using assms(2) by (intro mread_cong) (auto simp: mem_simps)
  moreover have "mread m s (Suc k * w) = mread m s (k * w) @ mread m (s + k * w) w"
    using mread_add [of m s "k * w" w] by (simp add: add.commute)
  ultimately show ?case
    by (intro ext) (auto simp: mem_simps nth_append)
qed

lemma memmove_eq:
  assumes "0 < w"
  shows "memmove fast w m dst src n = mwrite m dst (mread m src n)"
proof (cases "src < dst")
  case False
  moreover have "mwrite m dst (mread m dst n) = m"
    by (rule ext) (auto simp: mem_simps)
  ultimately show ?thesis
    using memcpy_eq [OF assms, of dst src n] by (auto simp: memmove_def)
next
  case True
  define k where "k = (if fast \<and> dst mod w = 0 \<and> src mod w = 0 then n div w else 0)"
  have k: "k * w \<le> n" "(if fast \<and> dst mod w = 0 \<and> src mod w = 0 then n div w * w else 0) = k * w"
    by (auto simp: k_def)
  let ?m = "mwrite m (dst + k * w) (mread m (src + k * w) (n - k * w))"
  have "memmove fast w m dst src n = copy_words_down w ?m dst src (k * w)"
    using True copy_down_eq [OF True k(1)] by (simp only: memmove_def k(2) Let_def if_True) simp
  moreover have "copy_words_down w ?m dst src (k * w) = mwrite ?m dst (mread ?m src (k * w))"
  proof (cases "k = 0")
    case False
    then have "src + w \<le> dst"
      using aligned_apart True by (auto simp: k_def split: if_splits)
    then show ?thesis
      by (rule copy_words_down_eq [OF assms])
  qed (simp add: copy_words_down.simps)
  moreover have "mread ?m src (k * w) = mread m src (k * w)"
    using True by (intro mread_cong) (auto simp: mem_simps)
  moreover have "mread m src n = mread m src (k * w) @ mread m (src + k * w) (n - k * w)"
    using mread_add [of m src "k * w" "n - k * w"] k(1) by simp
  ultimately show ?thesis
    using k(1) by (intro ext) (auto simp: mem_simps nth_append)
qed

subsection \<open>Strings\<close>

text \<open>
  The string functions run up to a zero byte: without one they do not return, which is
  \<open>None\<close>. \<open>cstr m p xs\<close> says that the string \<open>xs\<close> is stored at \<open>p\<close>.
\<close>

definition cstr :: "mem \<Rightarrow> nat \<Rightarrow> byte list \<Rightarrow> bool" where
  "cstr m p xs \<longleftrightarrow> 0 \<notin> set xs \<and> mread m p (length xs + 1) = xs @ [0]"

partial_function (option) strlen_loop :: "mem \<Rightarrow> nat \<Rightarrow> nat \<Rightarrow> nat option" where
  "strlen_loop m s i = (if m (s + i) \<noteq> 0 then strlen_loop m s (i + 1) else Some i)"

definition strlen :: "mem \<Rightarrow> nat \<Rightarrow> nat option" where
  "strlen m s = strlen_loop m s 0"

function cat_loop :: "mem \<Rightarrow> nat \<Rightarrow> nat \<Rightarrow> nat \<Rightarrow> nat \<Rightarrow> nat \<Rightarrow> mem" where
  "cat_loop m dest src i j src_len =
     (if i < src_len then cat_loop (m(dest + j := m (src + i))) dest src (i + 1) (j + 1) src_len
      else m(dest + j := 0))"
  by pat_completeness auto
termination
  by (relation "measure (\<lambda>(m, dest, src, i, j, src_len). src_len - i)") auto

declare cat_loop.simps [simp del]

definition strcat :: "mem \<Rightarrow> nat \<Rightarrow> nat \<Rightarrow> mem option" where
  "strcat m dest src =
     (case strlen m dest of
        None \<Rightarrow> None
      | Some j \<Rightarrow>
          (case strlen m src of None \<Rightarrow> None | Some src_len \<Rightarrow> Some (cat_loop m dest src 0 j src_len)))"

partial_function (option) strcmp :: "mem \<Rightarrow> nat \<Rightarrow> nat \<Rightarrow> int option" where
  "strcmp m s1 s2 =
     (if m s1 \<noteq> 0 \<and> m s2 \<noteq> 0 then
        (let c1 = uchar (m s1); c2 = uchar (m s2)
         in if c1 \<noteq> c2 then Some (c1 - c2) else strcmp m (s1 + 1) (s2 + 1))
      else Some (uchar (m s1) - uchar (m s2)))"

partial_function (option) strcasecmp :: "mem \<Rightarrow> nat \<Rightarrow> nat \<Rightarrow> int option" where
  "strcasecmp m s1 s2 =
     (if m s1 \<noteq> 0 \<and> m s2 \<noteq> 0 then
        (let c1 = tolower (uchar (m s1)); c2 = tolower (uchar (m s2))
         in if c1 \<noteq> c2 then Some (c1 - c2) else strcasecmp m (s1 + 1) (s2 + 1))
      else Some (tolower (uchar (m s1)) - tolower (uchar (m s2))))"

fun strncasecmp :: "mem \<Rightarrow> nat \<Rightarrow> nat \<Rightarrow> nat \<Rightarrow> int" where
  "strncasecmp m s1 s2 0 = 0"
| "strncasecmp m s1 s2 (Suc n) =
     (let c1 = tolower (uchar (m s1)); c2 = tolower (uchar (m s2))
      in if c1 \<noteq> c2 then c1 - c2 else if c1 = 0 then 0 else strncasecmp m (s1 + 1) (s2 + 1) n)"

function ncat_loop :: "mem \<Rightarrow> nat \<Rightarrow> nat \<Rightarrow> nat \<Rightarrow> nat \<Rightarrow> nat \<Rightarrow> mem" where
  "ncat_loop m dest src i j n =
     (if i < n \<and> m (src + i) \<noteq> 0 then ncat_loop (m(dest + j + i := m (src + i))) dest src (i + 1) j n
      else m(dest + j + i := 0))"
  by pat_completeness auto
termination
  by (relation "measure (\<lambda>(m, dest, src, i, j, n). n - i)") auto

declare ncat_loop.simps [simp del]

definition strncat :: "mem \<Rightarrow> nat \<Rightarrow> nat \<Rightarrow> nat \<Rightarrow> mem option" where
  "strncat m dest src n =
     (case strlen m dest of None \<Rightarrow> None | Some j \<Rightarrow> Some (ncat_loop m dest src 0 j n))"

fun strncmp :: "mem \<Rightarrow> nat \<Rightarrow> nat \<Rightarrow> nat \<Rightarrow> int" where
  "strncmp m s1 s2 0 = 0"
| "strncmp m s1 s2 (Suc n) =
     (let diff = uchar (m s1) - uchar (m s2)
      in if diff \<noteq> 0 \<or> m s1 = 0 then diff else strncmp m (s1 + 1) (s2 + 1) n)"

text \<open>The copy loop of \<open>strncpy\<close> returns the memory and the index at which it stopped.\<close>

function ncpy_loop :: "mem \<Rightarrow> nat \<Rightarrow> nat \<Rightarrow> nat \<Rightarrow> nat \<Rightarrow> mem \<times> nat" where
  "ncpy_loop m dst src i n =
     (if i < n then
        (let m = m(dst + i := m (src + i))
         in if m (src + i) = 0 then (m, i) else ncpy_loop m dst src (i + 1) n)
      else (m, i))"
  by pat_completeness auto
termination
  by (relation "measure (\<lambda>(m, dst, src, i, n). n - i)") auto

function zero_loop :: "mem \<Rightarrow> nat \<Rightarrow> nat \<Rightarrow> nat \<Rightarrow> mem" where
  "zero_loop m dst i n = (if i + 1 < n then zero_loop (m(dst + (i + 1) := 0)) dst (i + 1) n else m)"
  by pat_completeness auto
termination
  by (relation "measure (\<lambda>(m, dst, i, n). n - i)") auto

declare ncpy_loop.simps [simp del] zero_loop.simps [simp del]

definition strncpy :: "mem \<Rightarrow> nat \<Rightarrow> nat \<Rightarrow> nat \<Rightarrow> mem" where
  "strncpy m dst src n = (let (m, i) = ncpy_loop m dst src 0 n in zero_loop m dst i n)"

partial_function (option) strcpy_loop :: "mem \<Rightarrow> nat \<Rightarrow> nat \<Rightarrow> nat \<Rightarrow> mem option" where
  "strcpy_loop m dst src i =
     (let m = m(dst + i := m (src + i))
      in if m (src + i) = 0 then Some m else strcpy_loop m dst src (i + 1))"

definition strcpy :: "mem \<Rightarrow> nat \<Rightarrow> nat \<Rightarrow> mem option" where
  "strcpy m dst src = strcpy_loop m dst src 0"

fun memcmp :: "mem \<Rightarrow> nat \<Rightarrow> nat \<Rightarrow> nat \<Rightarrow> int" where
  "memcmp m s1 s2 0 = 0"
| "memcmp m s1 s2 (Suc n) =
     (let diff = uchar (m s1) - uchar (m s2)
      in if diff \<noteq> 0 then diff else memcmp m (s1 + 1) (s2 + 1) n)"

fun memchr :: "mem \<Rightarrow> nat \<Rightarrow> int \<Rightarrow> nat \<Rightarrow> nat option" where
  "memchr m s c_in 0 = None"
| "memchr m s c_in (Suc n) =
     (if m s = word_of_int c_in then Some s else memchr m (s + 1) c_in n)"

subsection \<open>String functions against lists\<close>

lemma cstr_Nil [simp]: "cstr m p [] \<longleftrightarrow> m p = 0"
  by (simp add: cstr_def mread_def)

lemma cstr_Cons [simp]: "cstr m p (x # xs) \<longleftrightarrow> x \<noteq> 0 \<and> m p = x \<and> cstr m (p + 1) xs"
  by (auto simp: cstr_def mread_Suc)

lemma cstr_cong:
  assumes "\<And>i. i \<le> length xs \<Longrightarrow> m' (p' + i) = m (p + i)"
  shows "cstr m' p' xs = cstr m p xs"
  using assms mread_cong [of "length xs + 1" m' p' m p] by (simp add: cstr_def)

lemma cstr_append:
  "0 \<notin> set xs \<Longrightarrow> cstr m p (xs @ ys) \<longleftrightarrow> mread m p (length xs) = xs \<and> cstr m (p + length xs) ys"
  by (auto simp: cstr_def mread_add add.assoc simp flip: add_Suc_right)

lemma strlen_loop_eq: "cstr m (s + i) xs \<Longrightarrow> strlen_loop m s i = Some (i + length xs)"
proof (induction xs arbitrary: i)
  case Nil
  then show ?case
    by (subst strlen_loop.simps) simp
next
  case (Cons x xs)
  then show ?case
    using Cons.IH [of "i + 1"] by (subst strlen_loop.simps) (simp add: add.assoc)
qed

lemma strlen_eq: "cstr m s xs \<Longrightarrow> strlen m s = Some (length xs)"
  using strlen_loop_eq [of m s 0 xs] by (simp add: strlen_def)

text \<open>The order that the comparisons compute.\<close>

fun lex_cmp :: "byte list \<Rightarrow> byte list \<Rightarrow> int" where
  "lex_cmp [] [] = 0"
| "lex_cmp [] (y # ys) = - uchar y"
| "lex_cmp (x # xs) [] = uchar x"
| "lex_cmp (x # xs) (y # ys) = (if x \<noteq> y then uchar x - uchar y else lex_cmp xs ys)"

lemma uchar_0 [simp]: "uchar 0 = 0" "uchar b = 0 \<longleftrightarrow> b = 0" "0 \<le> uchar b"
  by (simp_all add: uchar_def uint_0_iff)

lemma uchar_inj [simp]: "uchar a = uchar b \<longleftrightarrow> a = b"
  by (simp add: uchar_def word_uint_eq_iff)

lemma lex_cmp_0: "0 \<notin> set xs \<Longrightarrow> 0 \<notin> set ys \<Longrightarrow> lex_cmp xs ys = 0 \<longleftrightarrow> xs = ys"
  by (induction xs ys rule: lex_cmp.induct) auto

lemma lex_cmp_swap: "lex_cmp ys xs = - lex_cmp xs ys"
  by (induction xs ys rule: lex_cmp.induct) auto

lemma strcmp_eq: "cstr m s1 xs \<Longrightarrow> cstr m s2 ys \<Longrightarrow> strcmp m s1 s2 = Some (lex_cmp xs ys)"
proof (induction xs ys arbitrary: s1 s2 rule: lex_cmp.induct)
  case (4 x xs y ys)
  then show ?case
    using "4.IH" [of "s1 + 1" "s2 + 1"] by (subst strcmp.simps) auto
qed (subst strcmp.simps; simp)+

lemma strncmp_eq:
  "cstr m s1 xs \<Longrightarrow> cstr m s2 ys \<Longrightarrow> strncmp m s1 s2 n = lex_cmp (take n xs) (take n ys)"
proof (induction n arbitrary: s1 s2 xs ys)
  case (Suc n)
  then show ?case
    by (cases xs; cases ys) (auto simp: Let_def)
qed simp

text \<open>Case-insensitive comparison is comparison of the lowered strings.\<close>

definition lower_byte :: "byte \<Rightarrow> byte" where
  "lower_byte b = (if isupper (uchar b) then b + 32 else b)"

lemma uchar_lower: "uchar (lower_byte b) = tolower (uchar b)"
proof (cases "isupper (uchar b)")
  case True
  then have "unat b \<le> 90"
    by (simp add: isupper_def uchar_def del: of_nat_unat)
  then have "unat (b + 32) = unat b + 32"
    by (subst unat_add_lem [THEN iffD1]) auto
  then show ?thesis
    using True by (simp add: lower_byte_def tolower_def uchar_def)
qed (simp add: lower_byte_def tolower_def)

lemma tolower_0 [simp]: "tolower 0 = 0"
  by (simp add: tolower_def isupper_def)

lemma lower_byte_0 [simp]: "lower_byte b = 0 \<longleftrightarrow> b = 0"
proof -
  have "lower_byte b = 0 \<longleftrightarrow> tolower (uchar b) = 0"
    using uchar_lower [of b] by (metis uchar_0(2))
  also have "\<dots> \<longleftrightarrow> b = 0"
    by (auto simp: tolower_def isupper_def)
  finally show ?thesis .
qed

lemma strcasecmp_eq:
  "cstr m s1 xs \<Longrightarrow> cstr m s2 ys \<Longrightarrow> strcasecmp m s1 s2 = Some (lex_cmp (map lower_byte xs) (map lower_byte ys))"
proof (induction xs ys arbitrary: s1 s2 rule: list_induct2')
  case (4 x xs y ys)
  then show ?case
    using "4.IH" [of "s1 + 1" "s2 + 1"]
    by (subst strcasecmp.simps) (simp add: uchar_lower [symmetric] Let_def)
qed (subst strcasecmp.simps; simp add: uchar_lower [symmetric])+

lemma strncasecmp_eq:
  "cstr m s1 xs \<Longrightarrow> cstr m s2 ys \<Longrightarrow>
   strncasecmp m s1 s2 n = lex_cmp (take n (map lower_byte xs)) (take n (map lower_byte ys))"
proof (induction n arbitrary: s1 s2 xs ys)
  case (Suc n)
  then show ?case
    by (cases xs; cases ys) (auto simp: Let_def uchar_lower [symmetric])
qed simp

text \<open>The functions that store a string write it and its zero byte, and nothing else.\<close>

lemma mwrite_Cons: "mwrite m a (x # xs) = mwrite (m(a := x)) (a + 1) xs"
  by (rule ext) (auto simp: mem_simps nth_Cons')

lemma cstr_upd: "a < p \<or> p + length xs < a \<Longrightarrow> cstr (m(a := b)) p xs = cstr m p xs"
  by (rule cstr_cong) auto

lemma strcpy_loop_eq:
  "cstr m (src + i) xs \<Longrightarrow> src + i + length xs < dst + i \<or> dst + i + length xs < src + i \<Longrightarrow>
   strcpy_loop m dst src i = Some (mwrite m (dst + i) (xs @ [0]))"
proof (induction xs arbitrary: i m)
  case Nil
  then show ?case
    by (subst strcpy_loop.simps) (auto simp: mwrite_Cons mwrite_Nil)
next
  case (Cons x xs)
  have "cstr (m(dst + i := x)) (src + (i + 1)) xs"
    using Cons.prems by (subst cstr_upd) auto
  then have "strcpy_loop (m(dst + i := x)) dst src (i + 1) =
      Some (mwrite (m(dst + i := x)) (dst + (i + 1)) (xs @ [0]))"
    using Cons.prems by (intro Cons.IH) (auto simp: fun_upd_def)
  then show ?case
    using Cons.prems by (subst strcpy_loop.simps) (auto simp: mwrite_Cons)
qed

lemma strcpy_eq:
  "cstr m src xs \<Longrightarrow> src + length xs < dst \<or> dst + length xs < src \<Longrightarrow>
   strcpy m dst src = Some (mwrite m dst (xs @ [0]))"
  using strcpy_loop_eq [of m src 0 xs dst] by (simp add: strcpy_def)

lemma cat_loop_eq:
  "mread m (src + i) (length xs) = xs \<Longrightarrow>
   src + i + length xs \<le> dest + j \<or> dest + j + length xs \<le> src + i \<Longrightarrow>
   cat_loop m dest src i j (i + length xs) = mwrite m (dest + j) (xs @ [0])"
proof (induction xs arbitrary: i j m)
  case Nil
  then show ?case
    by (subst cat_loop.simps) (auto simp: mwrite_Cons mwrite_Nil)
next
  case (Cons x xs)
  have "m (src + i) = x" and m: "mread m (src + i + 1) (length xs) = xs"
    using Cons.prems(1) by (simp_all add: mread_Suc)
  moreover have "mread (m(dest + j := x)) (src + (i + 1)) (length xs) = mread m (src + i + 1) (length xs)"
    using Cons.prems(2) by (intro mread_cong) auto
  then have "cat_loop (m(dest + j := x)) dest src (i + 1) (j + 1) (i + 1 + length xs) =
      mwrite (m(dest + j := x)) (dest + (j + 1)) (xs @ [0])"
    using Cons.prems(2) m by (intro Cons.IH) (auto simp: fun_upd_def)
  ultimately show ?case
    by (subst cat_loop.simps) (auto simp: mwrite_Cons)
qed

lemma strcat_eq:
  assumes "cstr m dest xs" and "cstr m src ys"
    and "src + length ys \<le> dest + length xs \<or> dest + length xs + length ys \<le> src"
  shows "strcat m dest src = Some (mwrite m (dest + length xs) (ys @ [0]))"
proof -
  have "mread m src (length ys) = ys"
    using assms(2) cstr_append [of ys m src "[]"] by (simp add: cstr_def)
  then show ?thesis
    using assms cat_loop_eq [of m src 0 ys dest "length xs"]
    by (simp add: strcat_def strlen_eq [OF assms(1)] strlen_eq [OF assms(2)])
qed

lemma ncat_loop_eq:
  "cstr m (src + i) xs \<Longrightarrow> src + i + length xs < dest + j + i \<or> dest + j + i + length xs \<le> src + i \<Longrightarrow>
   ncat_loop m dest src i j (i + k) = mwrite m (dest + j + i) (take k xs @ [0])"
proof (induction xs arbitrary: i m k)
  case Nil
  then show ?case
    by (subst ncat_loop.simps) (auto simp: mwrite_Cons mwrite_Nil)
next
  case (Cons x xs)
  show ?case
  proof (cases k)
    case (Suc k')
    have "cstr (m(dest + j + i := x)) (src + (i + 1)) xs"
      using Cons.prems by (subst cstr_upd) auto
    then have "ncat_loop (m(dest + j + i := x)) dest src (i + 1) j (i + 1 + k') =
        mwrite (m(dest + j + i := x)) (dest + j + (i + 1)) (take k' xs @ [0])"
      using Cons.prems by (intro Cons.IH) (auto simp: fun_upd_def)
    then show ?thesis
      using Cons.prems Suc by (subst ncat_loop.simps) (auto simp: mwrite_Cons)
  qed (subst ncat_loop.simps, simp add: mwrite_Cons mwrite_Nil)
qed

lemma strncat_eq:
  "cstr m dest xs \<Longrightarrow> cstr m src ys \<Longrightarrow>
   src + length ys < dest + length xs \<or> dest + length xs + length ys \<le> src \<Longrightarrow>
   strncat m dest src n = Some (mwrite m (dest + length xs) (take n ys @ [0]))"
  using ncat_loop_eq [of m src 0 ys dest "length xs" n] by (simp add: strncat_def strlen_eq)

lemma ncpy_loop_eq:
  "cstr m (src + i) xs \<Longrightarrow> src + i + length xs < dst + i \<or> dst + i + length xs < src + i \<Longrightarrow>
   ncpy_loop m dst src i (i + k) = (mwrite m (dst + i) (take k (xs @ [0])), i + min k (length xs))"
proof (induction xs arbitrary: i m k)
  case Nil
  then show ?case
    by (cases k; subst ncpy_loop.simps) (auto simp: mwrite_Cons mwrite_Nil)
next
  case (Cons x xs)
  show ?case
  proof (cases k)
    case (Suc k')
    have "cstr (m(dst + i := x)) (src + (i + 1)) xs"
      using Cons.prems by (subst cstr_upd) auto
    then have "ncpy_loop (m(dst + i := x)) dst src (i + 1) (i + 1 + k') =
        (mwrite (m(dst + i := x)) (dst + (i + 1)) (take k' (xs @ [0])), i + 1 + min k' (length xs))"
      using Cons.prems by (intro Cons.IH) (auto simp: fun_upd_def)
    then show ?thesis
      using Cons.prems Suc by (subst ncpy_loop.simps) (auto simp: mwrite_Cons)
  qed (subst ncpy_loop.simps, simp add: mwrite_Nil)
qed

lemma zero_loop_eq: "zero_loop m dst i n = mfill m (dst + i + 1) (n - (i + 1)) 0"
proof (induction m dst i n rule: zero_loop.induct)
  case (1 m dst i n)
  then show ?case
    by (subst zero_loop.simps) (auto simp: mem_simps fun_upd_def fun_eq_iff)
qed

lemma strncpy_eq:
  assumes "cstr m src xs" and "src + length xs < dst \<or> dst + length xs < src"
  shows "strncpy m dst src n = mwrite m dst (take n xs @ replicate (n - length xs) 0)"
proof -
  have "strncpy m dst src n =
      mfill (mwrite m dst (take n (xs @ [0]))) (dst + min n (length xs) + 1) (n - (min n (length xs) + 1)) 0"
    using ncpy_loop_eq [of m src 0 xs dst n] assms by (simp add: strncpy_def zero_loop_eq)
  also have "\<dots> = mwrite m dst (take n xs @ replicate (n - length xs) 0)"
    by (rule ext) (auto simp: mem_simps nth_append min_def)
  finally show ?thesis .
qed

lemma memcmp_0: "memcmp m s1 s2 n = 0 \<longleftrightarrow> mread m s1 n = mread m s2 n"
  by (induction n arbitrary: s1 s2) (auto simp: Let_def mread_Suc)

lemma memcmp_first:
  "k < n \<Longrightarrow> mread m s1 k = mread m s2 k \<Longrightarrow> m (s1 + k) \<noteq> m (s2 + k) \<Longrightarrow>
   memcmp m s1 s2 n = uchar (m (s1 + k)) - uchar (m (s2 + k))"
proof (induction n arbitrary: s1 s2 k)
  case (Suc n)
  then show ?case
    using Suc.IH [of "k - 1" "s1 + 1" "s2 + 1"] by (cases k) (auto simp: Let_def mread_Suc)
qed simp

lemma memchr_Some:
  "memchr m s c n = Some p \<longleftrightarrow>
   (\<exists>k<n. p = s + k \<and> m p = word_of_int c \<and> word_of_int c \<notin> set (mread m s k))"
proof (induction n arbitrary: s)
  case (Suc n)
  show ?case
  proof (cases "m s = word_of_int c")
    case True
    then show ?thesis
      by (auto simp: mread_Suc gr0_conv_Suc intro!: exI [of _ 0])
         (metis list.set_intros(1) mread_Suc not0_implies_Suc add_0_right)
  next
    case False
    then show ?thesis
      by (auto simp: Suc.IH mread_Suc Ex_less_Suc2)
  qed
qed simp

subsection \<open>Properties\<close>

text \<open>
  C29. \<open>memmove\<close> stores at \<open>dst\<close> the \<open>n\<close> bytes that were at \<open>src\<close> and changes nothing else,
  for every overlap of the two ranges, for the byte loops and for the word-at-a-time paths of
  \<open>FAST_MEMCPY\<close> at every alignment.
\<close>

theorem memmove_copies:
  assumes "0 < w"
  shows "mread (memmove fast w m dst src n) dst n = mread m src n \<and>
         same_outside dst n m (memmove fast w m dst src n)"
  unfolding memmove_eq [OF assms]
  by (auto simp: same_outside_def mem_simps intro!: nth_equalityI)

theorem memmove_copies_witness:
  "mread (memmove True 4 (mwrite (\<lambda>_. 0) 8 [1, 2, 3, 4, 5, 6, 7, 8, 9]) 12 8 9) 12 9 = [1, 2, 3, 4, 5, 6, 7, 8, 9]"
  using memmove_copies [of 4 True "mwrite (\<lambda>_. 0) 8 [1, 2, 3, 4, 5, 6, 7, 8, 9]" 12 8 9]
  by (simp add: mread_def mem_simps upt_rec)

text \<open>
  C30. \<open>strcmp\<close> returns on every pair of strings; it is zero exactly on equal strings, changes
  its sign when the arguments are exchanged, and \<open>strncmp\<close> compares the prefixes.
\<close>

theorem strcmp_orders:
  assumes "cstr m s1 xs" and "cstr m s2 ys"
  shows "\<exists>d. strcmp m s1 s2 = Some d \<and> strcmp m s2 s1 = Some (- d) \<and> (d = 0 \<longleftrightarrow> xs = ys) \<and>
           (\<forall>n. strncmp m s1 s2 n = lex_cmp (take n xs) (take n ys) \<and>
                (strncmp m s1 s2 n = 0 \<longleftrightarrow> take n xs = take n ys))"
proof -
  have nz: "0 \<notin> set xs" "0 \<notin> set ys"
    using assms by (simp_all add: cstr_def)
  then have "lex_cmp (take n xs) (take n ys) = 0 \<longleftrightarrow> take n xs = take n ys" for n
    by (intro lex_cmp_0) (auto dest: in_set_takeD)
  then show ?thesis
    using assms lex_cmp_0 [OF nz] lex_cmp_swap [of ys xs] by (simp add: strcmp_eq strncmp_eq)
qed

theorem strcmp_orders_witness:
  "\<exists>d. strcmp (mwrite (\<lambda>_. 0) 4 [97, 98, 0, 97, 99]) 4 7 = Some d \<and> d \<noteq> 0"
  using strcmp_orders [of "mwrite (\<lambda>_. 0) 4 [97, 98, 0, 97, 99]" 4 "[97, 98]" 7 "[97, 99]"]
  by (auto simp: mem_simps)

text \<open>
  C31. \<open>strncpy\<close> writes exactly \<open>n\<close> bytes at its destination, the string cut to \<open>n\<close> bytes and
  then zeros, and nothing outside; so the copy is terminated exactly when the string is
  shorter than \<open>n\<close>.
\<close>

theorem strncpy_bounds:
  assumes "cstr m src xs" and "src + length xs < dst \<or> dst + length xs < src"
  shows "same_outside dst n m (strncpy m dst src n) \<and>
         mread (strncpy m dst src n) dst n = take n xs @ replicate (n - length xs) 0 \<and>
         (0 \<in> set (mread (strncpy m dst src n) dst n) \<longleftrightarrow> length xs < n)"
proof -
  have "mread (strncpy m dst src n) dst n = take n xs @ replicate (n - length xs) 0"
    unfolding strncpy_eq [OF assms] by (rule nth_equalityI) (auto simp: mem_simps)
  moreover have "0 \<notin> set (take n xs)"
    using assms(1) by (auto simp: cstr_def dest: in_set_takeD)
  ultimately show ?thesis
    unfolding strncpy_eq [OF assms] by (auto simp: same_outside_def mem_simps)
qed

theorem strncpy_bounds_witness:
  "mread (strncpy (mwrite (\<lambda>_. 7) 4 [97, 98, 0]) 10 4 3) 10 3 = [97, 98, 0]"
  using strncpy_bounds [of "mwrite (\<lambda>_. 7) 4 [97, 98, 0]" 4 "[97, 98]" 10 3]
  by (simp add: mem_simps)

end
