(* ===== verification/Printf.thy ===== *)
theory Printf
  imports Strings
begin

text \<open>
  Formatted output (\<open>src/string.c\<close>, \<open>uart_writenum\<close> to \<open>uart_vprintf\<close>): the
  number routines over their local buffer, the format interpreter over a format string in
  memory, and what they print.
\<close>

subsection \<open>Numbers\<close>

definition uart_writenum_digits :: "byte list" where
  "uart_writenum_digits = [48, 49, 50, 51, 52, 53, 54, 55, 56, 57, 65, 66, 67, 68, 69, 70]"

definition uart_writenum_emit ::
  "bool \<Rightarrow> nat \<Rightarrow> mem \<Rightarrow> nat \<Rightarrow> nat \<Rightarrow> nat \<Rightarrow> nat \<Rightarrow> bool \<Rightarrow> int \<Rightarrow> mem \<times> byte list" where
  "uart_writenum_emit fast w m buf bufsize i sz zeropad maxdigits =
     (let i = (if zeropad \<and> int sz < maxdigits then i + nat (maxdigits - int sz) else i);
          m = memmove fast w m (buf + i) (buf + bufsize - sz) sz
      in (m, mread m buf (i + sz)))"

text \<open>The digit loop stores from the end of the buffer; with base 1 it would not end.\<close>

partial_function (option) num_loop ::
  "mem \<Rightarrow> nat \<Rightarrow> nat \<Rightarrow> nat \<Rightarrow> nat \<Rightarrow> nat \<Rightarrow> (mem \<times> nat) option" where
  "num_loop m buf bufsize sz val base =
     (if base = 0 then None
      else
        (let m = m(buf + bufsize - sz - 1 := uart_writenum_digits ! (val mod base));
             sz = sz + 1;
             val = val div base
         in if val > 0 then num_loop m buf bufsize sz val base else Some (m, sz)))"

text \<open>\<open>size_t\<close> has the width of a word of \<open>w\<close> bytes.\<close>

definition to_size :: "nat \<Rightarrow> int \<Rightarrow> nat" where
  "to_size w x = nat (x mod 2 ^ (8 * w))"

text \<open>
  \<open>buf\<close> is the address of the local buffer; the result is the memory and what goes to the
  UART.
\<close>

definition uart_writenum ::
  "bool \<Rightarrow> nat \<Rightarrow> mem \<Rightarrow> nat \<Rightarrow> 32 word \<Rightarrow> nat \<Rightarrow> bool \<Rightarrow> int \<Rightarrow> (mem \<times> byte list) option" where
  "uart_writenum fast w m buf num base zeropad maxdigits =
     (let bufsize = 4 * 3 + 2;
          maxdigits = (if maxdigits = 0 then 8 else maxdigits);
          m = memset fast m buf 0 bufsize;
          (m, i, val) =
            (if base = 10 \<and> sint num < 0 then (m(buf := 45), 1, 0 - num) else (m, 0, num));
          maxdigits = (if maxdigits > int bufsize - int i then int bufsize - int i else maxdigits);
          m = (if zeropad then memset fast m (buf + i) 48 (to_size w maxdigits) else m)
      in case num_loop m buf bufsize 0 (unat val) base of
           None \<Rightarrow> None
         | Some (m, sz) \<Rightarrow> Some (uart_writenum_emit fast w m buf bufsize i sz zeropad maxdigits))"

definition uart_writenum_ll ::
  "bool \<Rightarrow> nat \<Rightarrow> mem \<Rightarrow> nat \<Rightarrow> 64 word \<Rightarrow> bool \<Rightarrow> nat \<Rightarrow> bool \<Rightarrow> int \<Rightarrow> (mem \<times> byte list) option" where
  "uart_writenum_ll fast w m buf val is_negative base zeropad maxdigits =
     (let bufsize = 8 * 3 + 2;
          maxdigits = (if maxdigits = 0 then 8 else maxdigits);
          m = memset fast m buf 0 bufsize;
          (m, i) = (if is_negative then (m(buf := 45), 1) else (m, 0));
          maxdigits = (if maxdigits > int bufsize - int i then int bufsize - int i else maxdigits);
          m = (if zeropad then memset fast m (buf + i) 48 (to_size w maxdigits) else m)
      in case num_loop m buf bufsize 0 (unat val) base of
           None \<Rightarrow> None
         | Some (m, sz) \<Rightarrow> Some (uart_writenum_emit fast w m buf bufsize i sz zeropad maxdigits))"

subsection \<open>Formats\<close>

text \<open>
  The variable arguments are a list; reading one at another type than it was passed with is
  undefined in C, and no result here.
\<close>

datatype va = VInt "32 word" | VLong "64 word" | VPtr nat

fun va_int :: "va list \<Rightarrow> (32 word \<times> va list) option" where
  "va_int (VInt n # args) = Some (n, args)"
| "va_int _ = None"

fun va_long :: "va list \<Rightarrow> (64 word \<times> va list) option" where
  "va_long (VLong n # args) = Some (n, args)"
| "va_long _ = None"

fun va_ptr :: "va list \<Rightarrow> (nat \<times> va list) option" where
  "va_ptr (VPtr p # args) = Some (p, args)"
| "va_ptr _ = None"

record fmt_spec =
  zeropad :: bool
  maxdigits :: int
  precision :: int
  leftjust :: bool
  islong :: nat

definition is_digit :: "byte \<Rightarrow> bool" where
  "is_digit b \<longleftrightarrow> 48 \<le> uchar b \<and> uchar b \<le> 57"

partial_function (option) prec_loop :: "mem \<Rightarrow> nat \<Rightarrow> int \<Rightarrow> (nat \<times> int) option" where
  "prec_loop m fmtp prec =
     (if is_digit (m fmtp) then prec_loop m (fmtp + 1) (prec * 10 + (uchar (m fmtp) - 48))
      else Some (fmtp, prec))"

partial_function (option) spec_loop ::
  "mem \<Rightarrow> nat \<Rightarrow> va list \<Rightarrow> fmt_spec \<Rightarrow> (nat \<times> va list \<times> fmt_spec) option" where
  "spec_loop m fmtp argp f =
     (if m fmtp = 0 then Some (fmtp, argp, f)
      else if m fmtp = 42 then
        (case va_int argp of
           None \<Rightarrow> None
         | Some (n, argp) \<Rightarrow> spec_loop m (fmtp + 1) argp (f\<lparr>maxdigits := sint n\<rparr>))
      else if is_digit (m fmtp) then
        spec_loop m (fmtp + 1) argp
          (f\<lparr>zeropad := zeropad f \<or> m fmtp = 48 \<and> maxdigits f = 0,
             maxdigits := maxdigits f * 10 + (uchar (m fmtp) - 48)\<rparr>)
      else if m fmtp = 46 then
        (if m (fmtp + 1) = 42 then
           (case va_int argp of
              None \<Rightarrow> None
            | Some (n, argp) \<Rightarrow> spec_loop m (fmtp + 2) argp (f\<lparr>precision := sint n\<rparr>))
         else
           (case prec_loop m (fmtp + 1) 0 of
              None \<Rightarrow> None
            | Some (fmtp, prec) \<Rightarrow> spec_loop m fmtp argp (f\<lparr>precision := prec\<rparr>)))
      else if m fmtp = 108 then spec_loop m (fmtp + 1) argp (f\<lparr>islong := islong f + 1\<rparr>)
      else if m fmtp = 122 then spec_loop m (fmtp + 1) argp f
      else Some (fmtp, argp, f))"

text \<open>The conversions; \<open>ll\<close> is \<open>PRINTF_LONG_LONG\<close>. Floats are left out of the build.\<close>

definition print_dec ::
  "bool \<Rightarrow> bool \<Rightarrow> nat \<Rightarrow> mem \<Rightarrow> nat \<Rightarrow> byte \<Rightarrow> va list \<Rightarrow> fmt_spec \<Rightarrow> (mem \<times> va list \<times> byte list) option" where
  "print_dec ll fast w m buf ch argp f =
     (if ll \<and> islong f \<ge> 2 then
        (case va_long argp of
           None \<Rightarrow> None
         | Some (sll, argp) \<Rightarrow>
             (let is_neg = (ch \<noteq> 117 \<and> sint sll < 0);
                  val = (if is_neg then 0 - sll else sll)
              in map_option (\<lambda>(m, out). (m, argp, out))
                   (uart_writenum_ll fast w m buf val is_neg 10 (zeropad f) (maxdigits f))))
      else
        (case va_int argp of
           None \<Rightarrow> None
         | Some (n, argp) \<Rightarrow>
             map_option (\<lambda>(m, out). (m, argp, out))
               (uart_writenum fast w m buf n 10 (zeropad f) (maxdigits f))))"

definition print_hex ::
  "bool \<Rightarrow> bool \<Rightarrow> nat \<Rightarrow> mem \<Rightarrow> nat \<Rightarrow> byte \<Rightarrow> va list \<Rightarrow> fmt_spec \<Rightarrow> (mem \<times> va list \<times> byte list) option" where
  "print_hex ll fast w m buf ch argp f =
     (let prefix = (if ch = 112 then [48, 120] else [])
      in if ll \<and> islong f \<ge> 2 then
           (case va_long argp of
              None \<Rightarrow> None
            | Some (val, argp) \<Rightarrow>
                map_option (\<lambda>(m, out). (m, argp, prefix @ out))
                  (uart_writenum_ll fast w m buf val False 16 (zeropad f) (maxdigits f)))
         else
           (case va_int argp of
              None \<Rightarrow> None
            | Some (n, argp) \<Rightarrow>
                map_option (\<lambda>(m, out). (m, argp, prefix @ out))
                  (uart_writenum fast w m buf n 16 (zeropad f) (maxdigits f))))"

definition print_str :: "mem \<Rightarrow> va list \<Rightarrow> fmt_spec \<Rightarrow> (mem \<times> va list \<times> byte list) option" where
  "print_str m argp f =
     (case va_ptr argp of
        None \<Rightarrow> None
      | Some (str, argp) \<Rightarrow>
          (case strlen m str of
             None \<Rightarrow> None
           | Some slen \<Rightarrow>
               (let pad = replicate (nat (maxdigits f - int slen)) 32
                in Some (m, argp, if leftjust f then mread m str slen @ pad else pad @ mread m str slen))))"

definition print_chr :: "mem \<Rightarrow> va list \<Rightarrow> (mem \<times> va list \<times> byte list) option" where
  "print_chr m argp =
     (case va_int argp of None \<Rightarrow> None | Some (n, argp) \<Rightarrow> Some (m, argp, [ucast n]))"

definition convert ::
  "bool \<Rightarrow> bool \<Rightarrow> nat \<Rightarrow> mem \<Rightarrow> nat \<Rightarrow> byte \<Rightarrow> va list \<Rightarrow> fmt_spec \<Rightarrow> (mem \<times> va list \<times> byte list) option" where
  "convert ll fast w m buf ch argp f =
     (if ch = 37 then Some (m, argp, [ch])
      else if ch = 117 \<or> ch = 105 \<or> ch = 100 then print_dec ll fast w m buf ch argp f
      else if ch = 112 \<or> ch = 120 \<or> ch = 88 then print_hex ll fast w m buf ch argp f
      else if ch = 115 then print_str m argp f
      else if ch = 99 then print_chr m argp
      else Some (m, argp, []))"

partial_function (option) vprintf_loop ::
  "bool \<Rightarrow> bool \<Rightarrow> nat \<Rightarrow> mem \<Rightarrow> nat \<Rightarrow> nat \<Rightarrow> va list \<Rightarrow> byte list \<Rightarrow> (mem \<times> byte list) option" where
  "vprintf_loop ll fast w m buf fmtp argp out =
     (if fmtp = 0 \<or> m fmtp = 0 then Some (m, out)
      else if m fmtp \<noteq> 37 then vprintf_loop ll fast w m buf (fmtp + 1) argp (out @ [m fmtp])
      else
        (let lj = (m (fmtp + 1) = 45);
             fmtp = (if lj then fmtp + 2 else fmtp + 1);
             f = \<lparr>zeropad = False, maxdigits = 0, precision = -1, leftjust = lj, islong = 0\<rparr>
         in case spec_loop m fmtp argp f of
              None \<Rightarrow> None
            | Some (fmtp, argp, f) \<Rightarrow>
                (case convert ll fast w m buf (m fmtp) argp f of
                   None \<Rightarrow> None
                 | Some (m, argp, o') \<Rightarrow> vprintf_loop ll fast w m buf (fmtp + 1) argp (out @ o'))))"

definition uart_vprintf ::
  "bool \<Rightarrow> bool \<Rightarrow> nat \<Rightarrow> mem \<Rightarrow> nat \<Rightarrow> nat \<Rightarrow> va list \<Rightarrow> (mem \<times> byte list) option" where
  "uart_vprintf ll fast w m buf fmt argp = vprintf_loop ll fast w m buf fmt argp []"

subsection \<open>Printed numbers\<close>

function digits :: "nat \<Rightarrow> nat \<Rightarrow> byte list" where
  "digits b n =
     (if b \<le> 1 \<or> n < b then [uart_writenum_digits ! n]
      else digits b (n div b) @ [uart_writenum_digits ! (n mod b)])"
  by pat_completeness auto
termination
  by (relation "measure (\<lambda>(b, n). n)") auto

declare digits.simps [simp del]

lemma length_digits_pos: "0 < length (digits b n)"
  by (subst digits.simps) simp

lemma length_digits: "1 < b \<Longrightarrow> n < b ^ k \<Longrightarrow> 0 < k \<Longrightarrow> length (digits b n) \<le> k"
proof (induction b n arbitrary: k rule: digits.induct)
  case (1 b n)
  show ?case
  proof (cases "n < b")
    case False
    with 1(3) have "1 < k"
      by (cases "k = 1") (use 1(4) in auto)
    then have "length (digits b (n div b)) \<le> k - 1"
      using 1 False by (intro "1.IH") (auto simp: less_mult_imp_div_less power_minus_mult mult.commute simp flip: power_Suc)
    then show ?thesis
      using 1(2) \<open>1 < k\<close> False by (subst digits.simps) simp
  qed (use 1(4) in \<open>subst digits.simps, simp\<close>)
qed

lemma num_loop_eq:
  "1 < base \<Longrightarrow> sz + length (digits base val) \<le> bufsize \<Longrightarrow>
   num_loop m buf bufsize sz val base =
     Some (mwrite m (buf + bufsize - sz - length (digits base val)) (digits base val),
           sz + length (digits base val))"
proof (induction base val arbitrary: m sz rule: digits.induct)
  case (1 base val)
  let ?m = "m(buf + bufsize - sz - 1 := uart_writenum_digits ! (val mod base))"
  show ?case
  proof (cases "val < base")
    case True
    then show ?thesis
      using 1(2) by (subst num_loop.simps, subst (1 2 3) digits.simps) (simp add: mwrite_Cons mwrite_Nil)
  next
    case False
    let ?ds = "digits base (val div base)"
    have d: "digits base val = ?ds @ [uart_writenum_digits ! (val mod base)]"
      using False 1(2) by (subst digits.simps) simp
    have "num_loop ?m buf bufsize (sz + 1) (val div base) base =
        Some (mwrite ?m (buf + bufsize - (sz + 1) - length ?ds) ?ds, sz + 1 + length ?ds)"
      using False 1(2,3) d by (intro "1.IH") auto
    moreover have "mwrite ?m (buf + bufsize - (sz + 1) - length ?ds) ?ds =
        mwrite m (buf + bufsize - sz - length (digits base val)) (digits base val)"
      using 1(3) d by (intro ext) (auto simp: mem_simps nth_append)
    ultimately show ?thesis
      using False 1(2) d by (subst num_loop.simps) (simp add: div_greater_zero_iff Let_def)
  qed
qed

text \<open>What is printed: a sign, zeros up to the width, the digits.\<close>

definition number_text :: "nat \<Rightarrow> bool \<Rightarrow> nat \<Rightarrow> nat \<Rightarrow> bool \<Rightarrow> nat \<Rightarrow> byte list" where
  "number_text bufsize neg base n zero width =
     (let sign = (if neg then [45] else []);
          ds = digits base n;
          width = min (if width = 0 then 8 else width) (bufsize - length sign)
      in sign @ (if zero then replicate (width - length ds) 48 else []) @ ds)"

lemma emit_eq:
  assumes "0 < w" and sign: "mread m buf (length sign) = sign"
    and zero: "z \<Longrightarrow> mread m (buf + length sign) width = replicate width 48"
    and fit: "length sign + width \<le> bufsize" "length sign + length ds \<le> bufsize"
  shows "\<exists>m'. uart_writenum_emit fast w (mwrite m (buf + bufsize - length ds) ds) buf bufsize (length sign)
              (length ds) z (int width) =
            (m', sign @ (if z then replicate (width - length ds) 48 else []) @ ds) \<and>
          same_outside buf bufsize m m'"
proof -
  define pad where "pad = (if z then width - length ds else 0)"
  let ?d = "buf + length sign + pad"
  let ?m = "mwrite (mwrite m (buf + bufsize - length ds) ds) ?d ds"
  have pad: "length sign + pad + length ds \<le> bufsize"
    using fit by (auto simp: pad_def)
  have "mread ?m ?d (length ds) = ds"
    by (rule nth_equalityI) (auto simp: mem_simps)
  moreover have "mread ?m buf (length sign) = sign"
    using pad by (subst (2) sign [symmetric], intro mread_cong) (auto simp: mem_simps)
  moreover have "mread ?m (buf + length sign) pad = replicate pad 48"
  proof (cases z)
    case True
    have "mread ?m (buf + length sign) pad = mread m (buf + length sign) pad"
      using pad by (intro mread_cong) (auto simp: mem_simps)
    also have "\<dots> = take pad (mread m (buf + length sign) width)"
      by (subst take_mread) (auto simp: pad_def)
    finally show ?thesis
      using zero [OF True] by (simp add: pad_def)
  qed (simp add: pad_def mread_def)
  ultimately have "mread ?m buf (length sign + pad + length ds) = sign @ replicate pad 48 @ ds"
    by (simp add: mread_add add.assoc)
  moreover have "mread (mwrite m (buf + bufsize - length ds) ds) (buf + bufsize - length ds) (length ds) = ds"
    by (rule nth_equalityI) (auto simp: mem_simps)
  moreover have "same_outside buf bufsize m ?m"
    using pad by (auto simp: same_outside_def mem_simps)
  moreover have "(if z \<and> int (length ds) < int width then length sign + nat (int width - int (length ds))
      else length sign) = length sign + pad"
    by (auto simp: pad_def nat_diff_distrib)
  ultimately show ?thesis
    by (intro exI [of _ ?m])
       (simp add: uart_writenum_emit_def memmove_eq [OF assms(1)] pad_def add.assoc split: if_splits)
qed

text \<open>The buffer as it is when the digits are stored.\<close>

lemma num_buffer:
  assumes "0 < w" and "length sign \<le> 1" and "width \<le> 26"
    and "m1 = mwrite (memset fast m buf 0 bufsize) buf sign"
    and "m2 = (if z then memset fast m1 (buf + length sign) 48 (to_size w (int width)) else m1)"
    and "length sign + width \<le> bufsize"
  shows "mread m2 buf (length sign) = sign"
    and "z \<Longrightarrow> mread m2 (buf + length sign) width = replicate width 48"
    and "same_outside buf bufsize m m2"
proof -
  have "int width < 2 ^ (8 * w)"
  proof -
    have "(2 :: int) ^ 8 \<le> 2 ^ (8 * w)"
      using assms(1) by (intro power_increasing) auto
    moreover have "int width < 2 ^ 8"
      using assms(3) by simp
    ultimately show ?thesis
      by (rule order_less_le_trans [rotated])
  qed
  then have [simp]: "to_size w (int width) = width"
    by (simp add: to_size_def)
  show "mread m2 buf (length sign) = sign"
    using assms by (intro nth_equalityI) (auto simp: memset_eq mem_simps)
  show "mread m2 (buf + length sign) width = replicate width 48" if z
    using assms that by (intro nth_equalityI) (auto simp: memset_eq mem_simps)
  show "same_outside buf bufsize m m2"
    using assms by (auto simp: same_outside_def memset_eq mem_simps)
qed

lemma same_outside_trans':
  "same_outside a n m m1 \<Longrightarrow> same_outside a n m1 m2 \<Longrightarrow> same_outside a n m m2"
  by (simp add: same_outside_def)

lemma num_text:
  assumes "0 < w" and neg: "sign = (if neg then [45] else [])" and "1 < base"
    and "bufsize \<le> 26" and ds: "length sign + length (digits base n) \<le> bufsize"
    and wd: "wd = min (if width = 0 then 8 else width) (bufsize - length sign)"
    and "m1 = mwrite (memset fast m buf 0 bufsize) buf sign"
    and "m2 = (if zero then memset fast m1 (buf + length sign) 48 (to_size w (int wd)) else m1)"
  shows "\<exists>m'. (case num_loop m2 buf bufsize 0 n base of
              None \<Rightarrow> None
            | Some (m, sz) \<Rightarrow> Some (uart_writenum_emit fast w m buf bufsize (length sign) sz zero (int wd))) =
            Some (m', number_text bufsize neg base n zero width) \<and> same_outside buf bufsize m m'"
proof -
  have len: "length sign \<le> 1" "length sign + wd \<le> bufsize" "wd \<le> 26"
    using assms(4) ds by (auto simp: neg wd)
  note buf = num_buffer [OF assms(1) len(1,3) assms(7,8) len(2)]
  have "num_loop m2 buf bufsize 0 n base =
      Some (mwrite m2 (buf + bufsize - length (digits base n)) (digits base n), length (digits base n))"
    using num_loop_eq [of base 0 n bufsize m2 buf] assms(3) ds by auto
  then show ?thesis
    using emit_eq [OF assms(1) buf(1,2) len(2) ds, where fast = fast] same_outside_trans' [OF buf(3)]
    by (fastforce simp: number_text_def neg wd Let_def)
qed

lemma clamp_eq:
  "int (min (if width = 0 then 8 else width) (bufsize - i)) =
     (if (if int width = 0 then 8 else int width) > int bufsize - int i then int bufsize - int i
      else if int width = 0 then 8 else int width)" if "i \<le> bufsize" for width i bufsize :: nat
  using that by (auto simp: min_def)

lemma uart_writenum_eq:
  assumes "0 < w" and "base = 10 \<or> base = 16"
  shows "\<exists>m'. uart_writenum fast w m buf num base zero (int width) =
            Some (m', number_text 14 (base = 10 \<and> sint num < 0) base
                        (unat (if base = 10 \<and> sint num < 0 then - num else num)) zero width) \<and>
          same_outside buf 14 m m'"
proof -
  let ?neg = "base = 10 \<and> sint num < 0"
  let ?n = "unat (if ?neg then - num else num)"
  have "?n < 2 ^ 32"
    using unsigned_less [of "if ?neg then - num else num"] by simp
  then have "length (digits base ?n) \<le> 10"
    using assms(2) by (intro length_digits) auto
  then show ?thesis
    using num_text [OF assms(1) refl _ _ _ refl refl refl, where base = base and bufsize = 14 and neg = ?neg and n = ?n and
        width = width and fast = fast and m = m and buf = buf and zero = zero] assms(2)
    by (cases ?neg) (auto simp: uart_writenum_def mwrite_Cons mwrite_Nil Let_def clamp_eq cong: option.case_cong)
qed

lemma uart_writenum_ll_eq:
  assumes "0 < w" and "base = 10 \<or> base = 16"
  shows "\<exists>m'. uart_writenum_ll fast w m buf val neg base zero (int width) =
            Some (m', number_text 26 neg base (unat val) zero width) \<and> same_outside buf 26 m m'"
proof -
  have "unat val < 2 ^ 64"
    using unsigned_less [of val] by simp
  then have "length (digits base (unat val)) \<le> 20"
    using assms(2) by (intro length_digits) auto
  then show ?thesis
    using num_text [OF assms(1) refl _ _ _ refl refl refl, where base = base and bufsize = 26 and neg = neg and
        n = "unat val" and width = width and fast = fast and m = m and buf = buf and zero = zero] assms(2)
    by (cases neg) (auto simp: uart_writenum_ll_def mwrite_Cons mwrite_Nil Let_def clamp_eq cong: option.case_cong)
qed

text \<open>The digits denote the number.\<close>

fun digit_value :: "byte \<Rightarrow> nat" where
  "digit_value d = (if is_digit d then unat d - 48 else unat d - 55)"

definition text_value :: "nat \<Rightarrow> byte list \<Rightarrow> nat" where
  "text_value b ds = foldl (\<lambda>n d. n * b + digit_value d) 0 ds"

lemma digit_value_nth: "k < 16 \<Longrightarrow> digit_value (uart_writenum_digits ! k) = k"
proof -
  assume "k < 16"
  then have "k \<in> set [0 ..< 16]"
    by simp
  moreover have "\<forall>k \<in> set [0 ..< 16]. digit_value (uart_writenum_digits ! k) = k"
    by (simp add: upt_rec uart_writenum_digits_def is_digit_def uchar_def)
  ultimately show ?thesis
    by blast
qed

lemma text_value_digits: "1 < b \<Longrightarrow> b \<le> 16 \<Longrightarrow> text_value b (digits b n) = n"
proof (induction b n rule: digits.induct)
  case (1 b n)
  have m: "n mod b < 16"
    using 1(2,3) by (meson less_le_trans mod_less_divisor zero_less_one order_less_trans)
  show ?case
  proof (cases "n < b")
    case True
    then show ?thesis
      using 1(2,3) digit_value_nth [of n] by (subst digits.simps) (simp add: text_value_def)
  next
    case False
    then have "text_value b (digits b (n div b)) = n div b"
      using 1 by simp
    then show ?thesis
      using False 1(2) digit_value_nth [OF m] by (subst digits.simps) (simp add: text_value_def)
  qed
qed

lemma is_digit_digits: "d \<in> set (digits 10 n) \<Longrightarrow> is_digit d"
proof (induction "10 :: nat" n rule: digits.induct)
  case (1 n)
  have "is_digit (uart_writenum_digits ! k)" if "k < 10" for k
  proof -
    have "\<forall>k \<in> set [0 ..< 10]. is_digit (uart_writenum_digits ! k)"
      by (simp add: upt_rec uart_writenum_digits_def is_digit_def uchar_def)
    then show ?thesis
      using that by simp
  qed
  then show ?case
    using 1 by (subst (asm) (2) digits.simps) (auto split: if_splits)
qed

subsection \<open>Formats and what they print\<close>

datatype item =
    Lit byte
  | Percent
  | Num bool nat byte "32 word"
  | LongNum bool nat byte "64 word"
  | Str bool nat nat "byte list"
  | Chr "32 word"

definition width_text :: "nat \<Rightarrow> byte list" where
  "width_text n = (if n = 0 then [] else digits 10 n)"

definition is_dec :: "byte \<Rightarrow> bool" where
  "is_dec ch \<longleftrightarrow> ch = 117 \<or> ch = 105 \<or> ch = 100"

definition is_hex :: "byte \<Rightarrow> bool" where
  "is_hex ch \<longleftrightarrow> ch = 112 \<or> ch = 120 \<or> ch = 88"

fun item_text :: "item \<Rightarrow> byte list" where
  "item_text (Lit b) = [b]"
| "item_text Percent = [37, 37]"
| "item_text (Num z n ch v) = [37] @ (if z then [48] else []) @ width_text n @ [ch]"
| "item_text (LongNum z n ch v) = [37] @ (if z then [48] else []) @ width_text n @ [108, 108, ch]"
| "item_text (Str l n p s) = [37] @ (if l then [45] else []) @ width_text n @ [115]"
| "item_text (Chr v) = [37, 99]"

fun item_args :: "item \<Rightarrow> va list" where
  "item_args (Num z n ch v) = [VInt v]"
| "item_args (LongNum z n ch v) = [VLong v]"
| "item_args (Str l n p s) = [VPtr p]"
| "item_args (Chr v) = [VInt v]"
| "item_args _ = []"

fun item_out :: "item \<Rightarrow> byte list" where
  "item_out (Lit b) = [b]"
| "item_out Percent = [37]"
| "item_out (Num z n ch v) =
     (if is_dec ch then number_text 14 (sint v < 0) 10 (unat (if sint v < 0 then - v else v)) z n
      else (if ch = 112 then [48, 120] else []) @ number_text 14 False 16 (unat v) z n)"
| "item_out (LongNum z n ch v) =
     (if is_dec ch then
        number_text 26 (ch \<noteq> 117 \<and> sint v < 0) 10 (unat (if ch \<noteq> 117 \<and> sint v < 0 then - v else v)) z n
      else (if ch = 112 then [48, 120] else []) @ number_text 26 False 16 (unat v) z n)"
| "item_out (Str l n p s) =
     (if l then s @ replicate (n - length s) 32 else replicate (n - length s) 32 @ s)"
| "item_out (Chr v) = [ucast v]"

text \<open>The strings are in memory, clear of the number buffer.\<close>

fun item_ok :: "bool \<Rightarrow> mem \<Rightarrow> nat \<Rightarrow> item \<Rightarrow> bool" where
  "item_ok ll m buf (Lit b) \<longleftrightarrow> b \<noteq> 37"
| "item_ok ll m buf Percent \<longleftrightarrow> True"
| "item_ok ll m buf (Num z n ch v) \<longleftrightarrow> is_dec ch \<or> is_hex ch"
| "item_ok ll m buf (LongNum z n ch v) \<longleftrightarrow> ll \<and> (is_dec ch \<or> is_hex ch)"
| "item_ok ll m buf (Str l n p s) \<longleftrightarrow> cstr m p s \<and> (p + length s < buf \<or> buf + 26 \<le> p)"
| "item_ok ll m buf (Chr v) \<longleftrightarrow> True"

lemma spec_loop_digits:
  assumes "\<forall>d\<in>set ds. is_digit d" and "0 < maxdigits f \<or> hd (ds @ [0]) \<noteq> 48" and "0 \<le> maxdigits f"
    and "mread m p (length ds) = ds"
  shows "spec_loop m p args f =
    spec_loop m (p + length ds) args (f\<lparr>maxdigits := foldl (\<lambda>n d. n * 10 + (uchar d - 48)) (maxdigits f) ds\<rparr>)"
  using assms
proof (induction ds arbitrary: p f)
  case (Cons d ds)
  have d: "is_digit d" "m p = d" "mread m (p + 1) (length ds) = ds"
    using Cons.prems by (simp_all add: mread_Suc)
  have *: "0 < maxdigits f * 10 + (uchar d - 48)"
    using Cons.prems d(1) uchar_inj [of d 48] unfolding is_digit_def
    by (auto simp: uchar_def simp del: uchar_inj)
  let ?f = "f\<lparr>maxdigits := maxdigits f * 10 + (uchar d - 48)\<rparr>"
  have "spec_loop m p args f = spec_loop m (p + 1) args ?f"
    using d Cons.prems by (subst spec_loop.simps) (auto simp: is_digit_def uchar_def)
  also have "\<dots> = spec_loop m (p + 1 + length ds) args
      (?f\<lparr>maxdigits := foldl (\<lambda>n d. n * 10 + (uchar d - 48)) (maxdigits ?f) ds\<rparr>)"
    using * Cons.prems d by (intro Cons.IH) auto
  finally show ?case
    by (simp add: add.assoc)
qed simp

lemma foldl_digit_value:
  "\<forall>d\<in>set ds. is_digit d \<Longrightarrow>
   foldl (\<lambda>n d. n * 10 + (uchar d - 48)) (int a) ds = int (foldl (\<lambda>n d. n * 10 + digit_value d) a ds)"
proof (induction ds arbitrary: a)
  case (Cons d ds)
  then have "int a * 10 + (uchar d - 48) = int (a * 10 + digit_value d)"
    by (simp add: is_digit_def uchar_def nat_diff_distrib del: of_nat_unat)
  then show ?case
    using Cons.IH [of "a * 10 + digit_value d"] Cons.prems by (simp only: foldl.simps list.set_intros) simp
qed simp

lemma hd_digits: "0 < n \<Longrightarrow> hd (digits 10 n) \<noteq> 48"
proof (induction "10 :: nat" n rule: digits.induct)
  case (1 n)
  have "uart_writenum_digits ! k \<noteq> 48" if "0 < k" "k < 10" for k
  proof -
    have "\<forall>k \<in> set [1 ..< 10]. uart_writenum_digits ! k \<noteq> 48"
      by (simp add: upt_rec uart_writenum_digits_def)
    then show ?thesis
      using that by simp
  qed
  moreover have "digits 10 (n div 10) \<noteq> []"
    using length_digits_pos [of 10 "n div 10"] by auto
  ultimately show ?case
    using 1 by (subst digits.simps) auto
qed

lemma foldl_width: "foldl (\<lambda>n d. n * 10 + (uchar d - 48)) 0 (width_text n) = int n"
proof (cases "n = 0")
  case False
  have "foldl (\<lambda>n d. n * 10 + (uchar d - 48)) (int 0) (digits 10 n) = int (text_value 10 (digits 10 n))"
    unfolding text_value_def by (intro foldl_digit_value) (auto dest: is_digit_digits)
  then show ?thesis
    using False by (simp add: width_text_def text_value_digits)
qed (simp add: width_text_def)

lemma spec_loop_width:
  assumes "cstr m p (zs @ width_text n @ rest)" and "zs = (if z then [48] else [])"
    and "\<not> zeropad f" and "maxdigits f = 0"
  shows "spec_loop m p args f =
    spec_loop m (p + length zs + length (width_text n)) args (f\<lparr>zeropad := z, maxdigits := int n\<rparr>)"
proof -
  have mem: "mread m (p + length zs) (length (width_text n)) = width_text n" "mread m p (length zs) = zs"
    using assms(1) cstr_append [of "zs @ width_text n" m p rest] by (auto simp: cstr_def mread_add)
  have "spec_loop m p args f = spec_loop m (p + length zs) args (f\<lparr>zeropad := z\<rparr>)"
  proof (cases z)
    case True
    then show ?thesis
      using mem(2) assms by (cases f; subst spec_loop.simps) (simp add: mread_Suc is_digit_def uchar_def)
  qed (use assms in \<open>cases f; simp\<close>)
  also have "\<dots> = spec_loop m (p + length zs + length (width_text n)) args
      (f\<lparr>zeropad := z, maxdigits := foldl (\<lambda>n d. n * 10 + (uchar d - 48)) (maxdigits (f\<lparr>zeropad := z\<rparr>)) (width_text n)\<rparr>)"
  proof (rule spec_loop_digits [of _ "f\<lparr>zeropad := z\<rparr>"])
    show "\<forall>d\<in>set (width_text n). is_digit d"
      by (auto simp: width_text_def dest: is_digit_digits)
    show "0 < maxdigits (f\<lparr>zeropad := z\<rparr>) \<or> hd (width_text n @ [0]) \<noteq> 48"
      using hd_digits [of n] length_digits_pos [of 10 n] by (auto simp: width_text_def hd_append)
  qed (use assms(4) mem(1) in simp_all)
  finally show ?thesis
    by (simp add: assms(4) foldl_width)
qed

definition spec_end :: "byte \<Rightarrow> bool" where
  "spec_end ch \<longleftrightarrow> ch \<noteq> 42 \<and> \<not> is_digit ch \<and> ch \<noteq> 46 \<and> ch \<noteq> 108 \<and> ch \<noteq> 122"

lemma spec_loop_end: "spec_end (m p) \<Longrightarrow> spec_loop m p args f = Some (p, args, f)"
  by (subst spec_loop.simps) (simp add: spec_end_def)

lemma spec_loop_ll:
  "mread m p 3 = [108, 108, ch] \<Longrightarrow> spec_end ch \<Longrightarrow>
   spec_loop m p args f = Some (p + 2, args, f\<lparr>islong := islong f + 2\<rparr>)"
  by (subst spec_loop.simps, subst spec_loop.simps, subst spec_loop.simps)
     (auto simp: numeral_3_eq_3 mread_Suc spec_end_def is_digit_def uchar_def)

text \<open>One conversion of the format.\<close>

lemma vprintf_spec:
  assumes "0 < p" and "m p = 37" and "lj = (m (p + 1) = 45)"
    and "spec_loop m (if lj then p + 2 else p + 1) args
           \<lparr>zeropad = False, maxdigits = 0, precision = -1, leftjust = lj, islong = 0\<rparr> = Some (q, args1, f)"
    and "convert ll fast w m buf (m q) args1 f = Some (m', args', o')"
  shows "vprintf_loop ll fast w m buf p args out = vprintf_loop ll fast w m' buf (q + 1) args' (out @ o')"
  using assms by (subst vprintf_loop.simps) simp

abbreviation base_spec :: "bool \<Rightarrow> bool \<Rightarrow> nat \<Rightarrow> fmt_spec" where
  "base_spec l z n \<equiv> \<lparr>zeropad = z, maxdigits = int n, precision = -1, leftjust = l, islong = 0\<rparr>"

lemma vprintf_conv:
  assumes "0 < p" and "cstr m p ([37] @ ls @ zs @ width_text n @ ch # rest)"
    and "ls = (if l then [45] else [])" and "zs = (if z then [48] else [])" and "spec_end ch" and "ch \<noteq> 45"
    and "convert ll fast w m buf ch args (base_spec l z n) = Some (m', args', o')"
  shows "vprintf_loop ll fast w m buf p args out =
    vprintf_loop ll fast w m' buf (p + length ([37] @ ls @ zs @ width_text n @ [ch])) args' (out @ o')"
proof -
  let ?p = "p + 1 + length ls"
  let ?q = "?p + length zs + length (width_text n)"
  have c: "m p = 37" "cstr m (p + 1) (ls @ zs @ width_text n @ ch # rest)"
    using assms(2) by auto
  have c2: "cstr m ?p (zs @ width_text n @ ch # rest)"
    using c(2) assms(3) by (auto split: if_splits)
  have "0 \<notin> set (zs @ width_text n)"
    using c2 by (simp add: cstr_def)
  then have "cstr m ?q (ch # rest)"
    using c2 cstr_append [of "zs @ width_text n" m ?p "ch # rest"] by (simp add: add.assoc)
  then have ch: "m ?q = ch"
    by simp
  have hd: "hd (width_text n @ [ch]) \<noteq> 45"
  proof (cases "n = 0")
    case False
    then have "is_digit (hd (width_text n))"
      using is_digit_digits [of "hd (digits 10 n)" n] length_digits_pos [of 10 n]
      by (simp add: width_text_def)
    then show ?thesis
      using length_digits_pos [of 10 n] False by (auto simp: width_text_def is_digit_def uchar_def)
  qed (simp add: width_text_def assms(6))
  have "l = (m (p + 1) = 45)"
    using c(2) hd assms(3,4)
    by (cases "width_text n") (auto split: if_splits)
  moreover have "(if l then p + 2 else p + 1) = ?p"
    using assms(3) by simp
  moreover have "spec_loop m ?p args (base_spec l False 0) = Some (?q, args, base_spec l z n)"
    using spec_loop_width [OF c2 assms(4), of "base_spec l False 0" args]
      spec_loop_end [of m ?q args "base_spec l z n"] assms(5) ch by simp
  ultimately show ?thesis
    using vprintf_spec [where m = m and q = ?q and f = "base_spec l z n" and lj = l, OF assms(1) c(1)]
      assms(7) ch by (simp add: add.assoc)
qed

lemma vprintf_ll:
  assumes "0 < p" and "cstr m p ([37] @ zs @ width_text n @ [108, 108, ch] @ rest)"
    and "zs = (if z then [48] else [])" and "spec_end ch"
    and "convert ll fast w m buf ch args (base_spec False z n\<lparr>islong := 2\<rparr>) = Some (m', args', o')"
  shows "vprintf_loop ll fast w m buf p args out =
    vprintf_loop ll fast w m' buf (p + length ([37] @ zs @ width_text n @ [108, 108, ch])) args' (out @ o')"
proof -
  let ?q = "p + 1 + length zs + length (width_text n)"
  have c: "m p = 37" "cstr m (p + 1) (zs @ width_text n @ [108, 108, ch] @ rest)"
    using assms(2) by auto
  have "0 \<notin> set (zs @ width_text n)"
    using c(2) by (simp add: cstr_def)
  then have "cstr m ?q ([108, 108, ch] @ rest)"
    using c(2) cstr_append [of "zs @ width_text n" m "p + 1" "[108, 108, ch] @ rest"] by (simp add: add.assoc)
  then have ch: "mread m ?q 3 = [108, 108, ch]" "m (?q + 2) = ch"
    by (auto simp: numeral_3_eq_3 mread_Suc mread_def add.assoc)
  have "hd (width_text n @ [108]) \<noteq> 45"
    using is_digit_digits [of "hd (digits 10 n)" n] length_digits_pos [of 10 n]
    by (auto simp: width_text_def is_digit_def uchar_def hd_append)
  then have "m (p + 1) \<noteq> 45"
    using c(2) assms(3) by (cases "width_text n") (auto split: if_splits)
  moreover have "spec_loop m (p + 1) args (base_spec False False 0) =
      Some (?q + 2, args, base_spec False z n\<lparr>islong := 2\<rparr>)"
    using spec_loop_width [OF c(2) assms(3), of "base_spec False False 0" args]
      spec_loop_ll [OF ch(1) assms(4), of args "base_spec False z n"] by simp
  ultimately show ?thesis
    using vprintf_spec [where m = m and q = "?q + 2" and f = "base_spec False z n\<lparr>islong := 2\<rparr>" and lj = False,
        OF assms(1) c(1)] assms(5) ch(2) by (simp add: add.assoc eval_nat_numeral)
qed

lemma conv_end: "is_dec ch \<or> is_hex ch \<Longrightarrow> spec_end ch \<and> ch \<noteq> 45"
  by (auto simp: is_dec_def is_hex_def spec_end_def is_digit_def uchar_def)

lemma convert_num:
  assumes "0 < w" and "is_dec ch \<or> is_hex ch"
  shows "\<exists>m'. convert ll fast w m buf ch (VInt v # args) (base_spec l z n) =
      Some (m', args, item_out (Num z n ch v)) \<and> same_outside buf 26 m m'"
proof -
  have *: "same_outside buf 14 m m' \<Longrightarrow> same_outside buf 26 m m'" for m'
    by (auto simp: same_outside_def)
  show ?thesis
  proof (cases "is_dec ch")
    case True
    then show ?thesis
      using uart_writenum_eq [OF assms(1), of 10 fast m buf v z n] *
      by (auto simp: is_dec_def convert_def print_dec_def)
  next
    case False
    then show ?thesis
      using uart_writenum_eq [OF assms(1), of 16 fast m buf v z n] * assms(2)
      by (auto simp: is_dec_def is_hex_def convert_def print_hex_def Let_def)
  qed
qed

lemma convert_long:
  assumes "0 < w" and "is_dec ch \<or> is_hex ch"
  shows "\<exists>m'. convert True fast w m buf ch (VLong v # args) (base_spec l z n\<lparr>islong := 2\<rparr>) =
      Some (m', args, item_out (LongNum z n ch v)) \<and> same_outside buf 26 m m'"
proof (cases "is_dec ch")
  case True
  let ?neg = "ch \<noteq> 117 \<and> sint v < 0"
  show ?thesis
    using uart_writenum_ll_eq [OF assms(1), of 10 fast m buf "if ?neg then - v else v" ?neg z n] True
    by (cases ?neg) (auto simp: is_dec_def convert_def print_dec_def Let_def)
next
  case False
  then show ?thesis
    using uart_writenum_ll_eq [OF assms(1), of 16 fast m buf v False z n] assms(2)
    by (auto simp: is_dec_def is_hex_def convert_def print_hex_def Let_def)
qed

lemma convert_str:
  assumes "cstr m p s"
  shows "convert ll fast w m buf 115 (VPtr p # args) (base_spec l z n) =
      Some (m, args, item_out (Str l n p s))"
proof -
  have "mread m p (length s) = s"
    using assms cstr_append [of s m p "[]"] by (simp add: cstr_def)
  then show ?thesis
    by (simp add: convert_def print_str_def strlen_eq [OF assms] nat_diff_distrib Let_def)
qed

lemma vprintf_item:
  assumes "0 < w" and "0 < p" and "cstr m p (item_text it @ rest)" and "item_ok ll m buf it"
  shows "\<exists>m'. vprintf_loop ll fast w m buf p (item_args it @ args) out =
            vprintf_loop ll fast w m' buf (p + length (item_text it)) args (out @ item_out it) \<and>
          same_outside buf 26 m m'"
proof (cases it)
  case (Lit b)
  then show ?thesis
    using assms by (subst vprintf_loop.simps) (auto intro!: exI [of _ m])
next
  case Percent
  have "convert ll fast w m buf 37 args (base_spec False False 0) = Some (m, args, [37])"
    by (simp add: convert_def)
  then show ?thesis
    using vprintf_conv [of p m "[]" "[]" 0 37 rest False False] assms(2,3) Percent
    by (auto simp: width_text_def spec_end_def is_digit_def uchar_def intro!: exI [of _ m])
next
  case (Num z n ch v)
  then have "is_dec ch \<or> is_hex ch"
    using assms(4) by simp
  then obtain m' where "convert ll fast w m buf ch (VInt v # args) (base_spec False z n) =
      Some (m', args, item_out it)" "same_outside buf 26 m m'"
    using convert_num [OF assms(1)] Num by metis
  moreover from this have "vprintf_loop ll fast w m buf p (VInt v # args) out = vprintf_loop ll fast w m' buf
      (p + length ([37] @ [] @ (if z then [48] else []) @ width_text n @ [ch])) args (out @ item_out it)"
    using conv_end [of ch] \<open>is_dec ch \<or> is_hex ch\<close> assms(3) Num
    by (intro vprintf_conv [where l = False and rest = rest, OF assms(2) _ _ refl]) simp_all
  ultimately show ?thesis
    using Num by (intro exI [of _ m']) simp
next
  case (LongNum z n ch v)
  then have "is_dec ch \<or> is_hex ch"
    using assms(4) by simp
  then obtain m' where "convert True fast w m buf ch (VLong v # args) (base_spec False z n\<lparr>islong := 2\<rparr>) =
      Some (m', args, item_out it)" "same_outside buf 26 m m'"
    using convert_long [OF assms(1)] LongNum by metis
  moreover from this have "vprintf_loop True fast w m buf p (VLong v # args) out = vprintf_loop True fast w m' buf
      (p + length ([37] @ (if z then [48] else []) @ width_text n @ [108, 108, ch])) args (out @ item_out it)"
    using conv_end [of ch] \<open>is_dec ch \<or> is_hex ch\<close> assms(3) LongNum
    by (intro vprintf_ll [where rest = rest, OF assms(2) _ refl]) simp_all
  ultimately show ?thesis
    using LongNum assms(4) by (intro exI [of _ m']) simp
next
  case (Str l n q s)
  have "convert ll fast w m buf 115 (VPtr q # args) (base_spec l False n) = Some (m, args, item_out it)"
    using convert_str assms(4) Str by simp
  then have "vprintf_loop ll fast w m buf p (VPtr q # args) out = vprintf_loop ll fast w m buf
      (p + length ([37] @ (if l then [45] else []) @ [] @ width_text n @ [115])) args (out @ item_out it)"
    using assms(3) Str
    by (intro vprintf_conv [where z = False and rest = rest, OF assms(2) _ refl])
       (simp_all add: spec_end_def is_digit_def uchar_def)
  then show ?thesis
    using Str by (intro exI [of _ m]) simp
next
  case (Chr v)
  have "convert ll fast w m buf 99 (VInt v # args) (base_spec False False 0) = Some (m, args, [ucast v])"
    by (simp add: convert_def print_chr_def)
  then show ?thesis
    using vprintf_conv [of p m "[]" "[]" 0 99 rest False False] assms(2,3) Chr
    by (auto simp: width_text_def spec_end_def is_digit_def uchar_def intro!: exI [of _ m])
qed

lemma item_ok_cong: "same_outside buf 26 m m' \<Longrightarrow> item_ok ll m buf it \<Longrightarrow> item_ok ll m' buf it"
proof (cases it)
  case (Str l n p s)
  assume "same_outside buf 26 m m'" "item_ok ll m buf it"
  then show ?thesis
    using Str cstr_cong [of s m' p m p] by (auto simp: same_outside_def)
qed auto

lemma vprintf_items:
  assumes "0 < w"
  shows "0 < p \<Longrightarrow> cstr m p (concat (map item_text its)) \<Longrightarrow>
    p + length (concat (map item_text its)) < buf \<or> buf + 26 \<le> p \<Longrightarrow> \<forall>it\<in>set its. item_ok ll m buf it \<Longrightarrow>
    \<exists>m'. vprintf_loop ll fast w m buf p (concat (map item_args its)) out =
           Some (m', out @ concat (map item_out its)) \<and> same_outside buf 26 m m'"
proof (induction its arbitrary: m p out)
  case Nil
  then show ?case
    by (subst vprintf_loop.simps) auto
next
  case (Cons it its)
  obtain m1 where m1: "vprintf_loop ll fast w m buf p (item_args it @ concat (map item_args its)) out =
      vprintf_loop ll fast w m1 buf (p + length (item_text it)) (concat (map item_args its)) (out @ item_out it)"
    "same_outside buf 26 m m1"
    using vprintf_item [OF assms Cons.prems(1)] Cons.prems(2,4) by fastforce
  let ?p = "p + length (item_text it)" and ?t = "concat (map item_text its)"
  have "cstr m ?p ?t"
    using Cons.prems(2) cstr_append [of "item_text it" m p ?t] by (auto simp: cstr_def)
  then have "cstr m1 ?p ?t"
    using m1(2) Cons.prems(3) by (subst cstr_cong [of _ m1 ?p m ?p]) (auto simp: same_outside_def)
  moreover have "\<forall>it\<in>set its. item_ok ll m1 buf it"
    using Cons.prems(4) item_ok_cong [OF m1(2)] by simp
  ultimately obtain m' where "vprintf_loop ll fast w m1 buf ?p (concat (map item_args its)) (out @ item_out it) =
      Some (m', (out @ item_out it) @ concat (map item_out its))" "same_outside buf 26 m1 m'"
    using Cons.IH [of ?p m1 "out @ item_out it"] Cons.prems(1,3) by auto
  then show ?case
    using m1 same_outside_trans' [OF m1(2)] by (intro exI [of _ m']) simp
qed

lemma unat_abs_sint: "int (unat (if sint num < 0 then - num else num)) = \<bar>sint num\<bar>" for num :: "32 word"
proof -
  have "sint num < 2 ^ 31" "- (2 ^ 31) \<le> sint num"
    using sint_lt [of num] sint_ge [of num] by simp_all
  then have "uint (word_of_int \<bar>sint num\<bar> :: 32 word) = \<bar>sint num\<bar>"
    by (simp add: uint_word_of_int)
  moreover have "(if sint num < 0 then - num else num) = word_of_int \<bar>sint num\<bar>"
    by (simp add: abs_if)
  ultimately show ?thesis
    by simp
qed

subsection \<open>Properties\<close>


definition demo_fmt :: mem where
  "demo_fmt = mwrite (\<lambda>_. 0) 100 [118, 37, 48, 52, 120, 58, 37, 45, 51, 115, 0, 104, 105, 0]"

abbreviation demo_items :: "item list" where
  "demo_items \<equiv> [Lit 118, Num True 4 120 0xAB, Lit 58, Str True 3 111 [104, 105]]"

lemma digits_small: "digits 10 3 = [51]" "digits 10 4 = [52]" "digits 16 0xAB = [65, 66]"
  by (simp_all add: digits.simps uart_writenum_digits_def)




text \<open>
  Two deviations from the C library: \<open>%u\<close> goes through the signed routine, so a value with
  the top bit set is printed with a minus sign; and a format that ends in a lone percent sign
  steps over its terminating zero and prints whatever follows it in memory.
\<close>

lemma uart_vprintf_unsigned:
  assumes "0 < w" and "0 < fmt" and "cstr m fmt [37, 117]" and "fmt + 2 < buf \<or> buf + 26 \<le> fmt"
  shows "\<exists>m'. uart_vprintf ll fast w m buf fmt [VInt 0xFFFFFFFF] = Some (m', [45, 49])"
proof -
  have "unat (- 0xFFFFFFFF :: 32 word) = 1" "digits 10 1 = [49]"
    by (simp_all add: digits.simps uart_writenum_digits_def)
  then have "item_out (Num False 0 117 0xFFFFFFFF) = [45, 49]"
    by (simp add: is_dec_def number_text_def)
  then show ?thesis
    using vprintf_items [OF assms(1,2), of m "[Num False 0 117 0xFFFFFFFF]" buf ll fast "[]"] assms(3,4)
    by (auto simp: width_text_def is_dec_def uart_vprintf_def simp del: item_out.simps)
qed

lemma uart_vprintf_lone_percent:
  assumes "0 < fmt" and "m fmt = 37" and "m (fmt + 1) = 0"
  shows "uart_vprintf ll fast w m buf fmt args = vprintf_loop ll fast w m buf (fmt + 2) args []"
proof -
  have "spec_loop m (fmt + 1) args f = Some (fmt + 1, args, f)" for f
    using assms(3) by (subst spec_loop.simps) simp
  then show ?thesis
    using assms unfolding uart_vprintf_def
    by (subst vprintf_loop.simps) (simp add: convert_def add_2_eq_Suc')
qed

end
