(* ===== verification/Delta.thy ===== *)
theory Delta
  imports Prelude
begin

text \<open>
  Incremental updates (\<open>src/delta.c\<close>): \<open>wb_patch\<close> with and without the cache of external
  flash, \<open>wb_diff\<close>, and the loop of the sign tool that collects a patch
  (\<open>tools/keytools/sign.c\<close>, \<open>base_diff\<close>). The output of \<open>wb_diff\<close> is shown to be a sequence
  of literals and blocks that are good where they are used.
\<close>

subsection \<open>The patch format\<close>

definition ESC :: byte where
  "ESC = 0x7f"

definition BLOCK_HDR_SIZE :: nat where
  "BLOCK_HDR_SIZE = 6"

definition BLOCK_OFF_MAX :: nat where
  "BLOCK_OFF_MAX = 0xFFFFFF"

definition DELTA_PATCH_BLOCK_SIZE :: nat where
  "DELTA_PATCH_BLOCK_SIZE = 1024"

definition block_hdr :: "nat \<Rightarrow> nat \<Rightarrow> byte list" where
  "block_hdr blk_start match_len =
     [ESC, of_nat (blk_start div 65536), of_nat (blk_start div 256), of_nat blk_start,
      of_nat (match_len div 256), of_nat match_len]"

subsection \<open>Applying a patch\<close>

text \<open>
  \<open>ext\<close> is \<open>EXT_FLASH\<close>: the patch is then read through a cache of
  \<open>DELTA_PATCH_BLOCK_SIZE\<close> bytes.
\<close>

record patch_ctx =
  src_base :: nat
  src_size :: nat
  patch_base :: nat
  patch_size :: nat
  p_off :: nat
  matching :: bool
  blk_sz :: nat
  blk_off :: nat
  patch_cache :: "nat \<Rightarrow> byte"
  patch_cache_start :: nat

definition wb_patch_init :: "bool \<Rightarrow> nat \<Rightarrow> nat \<Rightarrow> nat \<Rightarrow> nat \<Rightarrow> patch_ctx option" where
  "wb_patch_init ext src ssz patch psz =
     (if ssz = 0 \<or> psz = 0 then None
      else Some \<lparr>src_base = src, src_size = ssz, patch_base = patch, patch_size = psz, p_off = 0,
                 matching = False, blk_sz = 0, blk_off = 0, patch_cache = (\<lambda>_. 0),
                 patch_cache_start = (if ext then 0xFFFFFFFF else 0)\<rparr>)"

definition patch_read_cache :: "bool \<Rightarrow> mem \<Rightarrow> patch_ctx \<Rightarrow> patch_ctx \<times> (nat \<Rightarrow> byte)" where
  "patch_read_cache ext fl ctx =
     (if ext then
        (if patch_cache_start ctx \<noteq> 0xFFFFFFFF \<and> patch_cache_start ctx = p_off ctx then
           (ctx, patch_cache ctx)
         else if patch_cache_start ctx \<noteq> 0xFFFFFFFF \<and>
             p_off ctx < u32 (patch_cache_start ctx + (DELTA_PATCH_BLOCK_SIZE - BLOCK_HDR_SIZE)) then
           (ctx, \<lambda>i. patch_cache ctx (p_off ctx - patch_cache_start ctx + i))
         else
           (let cache = (\<lambda>i. if i < DELTA_PATCH_BLOCK_SIZE then fl (patch_base ctx + p_off ctx + i)
                             else patch_cache ctx i)
            in (ctx\<lparr>patch_cache_start := p_off ctx, patch_cache := cache\<rparr>, cache)))
      else (ctx, \<lambda>i. fl (patch_base ctx + p_off ctx + i)))"

text \<open>
  \<open>out\<close> holds the bytes stored at \<open>dst\<close>; its length is \<open>dst_off\<close>. The source and the patch
  are in the flash \<open>fl\<close>.
\<close>

definition resume_block :: "mem \<Rightarrow> nat \<Rightarrow> patch_ctx \<Rightarrow> byte list \<Rightarrow> (patch_ctx \<times> byte list) option" where
  "resume_block fl len ctx out =
     (let resume_sz = (if blk_sz ctx > len then len else blk_sz ctx)
      in if blk_off ctx > src_size ctx \<or> resume_sz > src_size ctx - blk_off ctx then None
         else
           Some (if blk_sz ctx > len then ctx\<lparr>blk_sz := blk_sz ctx - len, blk_off := blk_off ctx + len\<rparr>
                 else ctx\<lparr>blk_off := 0, blk_sz := 0, matching := False\<rparr>,
                 out @ mread fl (src_base ctx + blk_off ctx) resume_sz))"

definition start_block ::
  "mem \<Rightarrow> nat \<Rightarrow> nat \<Rightarrow> nat \<Rightarrow> patch_ctx \<Rightarrow> byte list \<Rightarrow> (patch_ctx \<times> byte list) option" where
  "start_block fl len src_off sz ctx out =
     (if src_off > src_size ctx \<or> sz > src_size ctx - src_off then None
      else
        (let room = len - length out;
             copy_sz = (if sz > room then room else sz);
             ctx = ctx\<lparr>matching := True\<rparr>;
             ctx = (if sz > room then ctx\<lparr>blk_off := src_off + copy_sz, blk_sz := sz - copy_sz\<rparr> else ctx);
             out = out @ mread fl (src_base ctx + src_off) copy_sz;
             ctx = (if sz = copy_sz then ctx\<lparr>matching := False, blk_off := 0\<rparr> else ctx)
         in Some (ctx\<lparr>p_off := p_off ctx + BLOCK_HDR_SIZE\<rparr>, out)))"

lemma patch_read_cache_fields:
  "patch_read_cache ext fl ctx = (ctx', pp) \<Longrightarrow>
   src_base ctx' = src_base ctx \<and> src_size ctx' = src_size ctx \<and> patch_base ctx' = patch_base ctx \<and>
   patch_size ctx' = patch_size ctx \<and> p_off ctx' = p_off ctx \<and> matching ctx' = matching ctx \<and>
   blk_sz ctx' = blk_sz ctx \<and> blk_off ctx' = blk_off ctx"
  by (auto simp: patch_read_cache_def Let_def split: if_splits)

lemma resume_block_measure:
  assumes "resume_block fl len ctx out = Some (ctx', out')" and "matching ctx" and "length out < len"
  shows "patch_size ctx' = patch_size ctx \<and> p_off ctx' = p_off ctx \<and>
    (if matching ctx' then 1 else 0) + (len - length out') < 1 + (len - length out)"
  using assms by (auto simp: resume_block_def Let_def split: if_splits)

lemma start_block_measure:
  assumes "start_block fl len src_off sz ctx out = Some (ctx', out')"
  shows "patch_size ctx' = patch_size ctx \<and> p_off ctx' = p_off ctx + 6 \<and> length out \<le> length out'"
  using assms by (auto simp: start_block_def Let_def BLOCK_HDR_SIZE_def split: if_splits)

text \<open>The body of the loop; the flag is \<open>False\<close> where the function returns \<open>-1\<close>.\<close>

definition patch_step :: "bool \<Rightarrow> mem \<Rightarrow> nat \<Rightarrow> patch_ctx \<Rightarrow> byte list \<Rightarrow> bool \<times> patch_ctx \<times> byte list" where
  "patch_step ext fl len ctx out =
     (case patch_read_cache ext fl ctx of (ctx, pp) \<Rightarrow>
        if matching ctx then
          (case resume_block fl len ctx out of
             None \<Rightarrow> (False, ctx, out)
           | Some (ctx, out) \<Rightarrow> (True, ctx, out))
        else if pp 0 = ESC then
          (if patch_size ctx - p_off ctx < 2 then (False, ctx, out)
           else if pp 1 = ESC then (True, ctx\<lparr>p_off := p_off ctx + 2\<rparr>, out @ [ESC])
           else if patch_size ctx - p_off ctx < BLOCK_HDR_SIZE then (False, ctx, out)
           else
             (case start_block fl len (unat (pp 1) * 65536 + unat (pp 2) * 256 + unat (pp 3))
                     (unat (pp 4) * 256 + unat (pp 5)) ctx out of
                None \<Rightarrow> (False, ctx, out)
              | Some (ctx, out) \<Rightarrow> (True, ctx, out)))
        else (True, ctx\<lparr>p_off := p_off ctx + 1\<rparr>, out @ [pp 0]))"

abbreviation patch_left :: "nat \<Rightarrow> patch_ctx \<Rightarrow> byte list \<Rightarrow> nat" where
  "patch_left len ctx out \<equiv> (patch_size ctx - p_off ctx) + (if matching ctx then 1 else 0) + (len - length out)"

lemma patch_step_measure:
  assumes "patch_step ext fl len ctx out = (True, ctx', out')" and "matching ctx \<or> p_off ctx < patch_size ctx"
    and "length out < len"
  shows "patch_left len ctx' out' < patch_left len ctx out"
proof -
  obtain c1 pp where rd: "patch_read_cache ext fl ctx = (c1, pp)"
    by fastforce
  show ?thesis
    using assms patch_read_cache_fields [OF rd]
    by (auto simp: patch_step_def rd BLOCK_HDR_SIZE_def dest!: resume_block_measure start_block_measure
        split: if_splits option.splits)
qed

function wb_patch_loop :: "bool \<Rightarrow> mem \<Rightarrow> nat \<Rightarrow> patch_ctx \<Rightarrow> byte list \<Rightarrow> int \<times> patch_ctx \<times> byte list" where
  "wb_patch_loop ext fl len ctx out =
     (if (matching ctx \<or> p_off ctx < patch_size ctx) \<and> length out < len then
        (case patch_step ext fl len ctx out of
           (ok, ctx, out) \<Rightarrow> if ok then wb_patch_loop ext fl len ctx out else (-1, ctx, out))
      else (int (length out), ctx, out))"
  by pat_completeness auto
termination
  by (relation "measure (\<lambda>(ext, fl, len, ctx, out). patch_left len ctx out)")
     (auto dest!: patch_step_measure [OF sym] split: if_splits)

declare wb_patch_loop.simps [simp del]

definition wb_patch :: "bool \<Rightarrow> mem \<Rightarrow> patch_ctx \<Rightarrow> nat \<Rightarrow> int \<times> patch_ctx \<times> byte list" where
  "wb_patch ext fl ctx len =
     (if len < BLOCK_HDR_SIZE then (-1, ctx, []) else wb_patch_loop ext fl len ctx [])"

subsection \<open>Making a patch\<close>

text \<open>
  The images \<open>a\<close> and \<open>b\<close> are byte lists, \<open>ss\<close> is \<open>wolfboot_sector_size\<close>, \<open>out\<close> the bytes
  stored in the patch buffer of \<open>len\<close> bytes, whose length is the \<open>p_off\<close> of this function.
\<close>

datatype search = Found nat "byte list" | NotFound | TooFar

function extend_a ::
  "byte list \<Rightarrow> byte list \<Rightarrow> nat \<Rightarrow> nat \<Rightarrow> nat \<Rightarrow> nat \<Rightarrow> nat \<Rightarrow> nat \<times> nat" where
  "extend_a a b ss b_start pa off_b match_len =
     (if pa < length a \<and> off_b < length b \<and> a ! pa = b ! off_b then
        (if pa + 1 \<ge> length a then (off_b, match_len)
         else if b_start div ss < (off_b + 1) div ss then (off_b, match_len)
         else extend_a a b ss b_start (pa + 1) (off_b + 1) (u16 (match_len + 1)))
      else (off_b, match_len))"
  by pat_completeness auto
termination
  by (relation "measure (\<lambda>(a, b, ss, b_start, pa, off_b, match_len). length a - pa)") auto

function search_a ::
  "byte list \<Rightarrow> byte list \<Rightarrow> nat \<Rightarrow> nat \<Rightarrow> nat \<Rightarrow> nat \<Rightarrow> nat \<Rightarrow> search" where
  "search_a a b ss off_b poff len pa =
     (if pa < length a \<and> poff < len then
        (if length a - pa < BLOCK_HDR_SIZE then NotFound
         else if length b - off_b < BLOCK_HDR_SIZE then NotFound
         else if ss - off_b mod ss < BLOCK_HDR_SIZE then NotFound
         else if take BLOCK_HDR_SIZE (drop pa a) = take BLOCK_HDR_SIZE (drop off_b b) then
           (if pa > BLOCK_OFF_MAX then TooFar
            else if pa div 65536 mod 256 = unat ESC then search_a a b ss off_b poff len (pa + 1)
            else
              (let (off_b', match_len) =
                     extend_a a b ss off_b (pa + BLOCK_HDR_SIZE) (off_b + BLOCK_HDR_SIZE) BLOCK_HDR_SIZE
               in Found off_b' (block_hdr pa match_len)))
         else search_a a b ss off_b poff len (pa + 1))
      else NotFound)"
  by pat_completeness auto
termination
  by (relation "measure (\<lambda>(a, b, ss, off_b, poff, len, pa). length a - pa)") auto

function extend_b :: "byte list \<Rightarrow> nat \<Rightarrow> nat \<Rightarrow> nat \<Rightarrow> nat \<Rightarrow> nat \<times> nat" where
  "extend_b b pb_limit pb off_b match_len =
     (if pb < pb_limit \<and> match_len < 65535 \<and> off_b < length b \<and> b ! pb = b ! off_b then
        (if pb + 1 \<ge> pb_limit then (off_b, match_len)
         else extend_b b pb_limit (pb + 1) (off_b + 1) (u16 (match_len + 1)))
      else (off_b, match_len))"
  by pat_completeness auto
termination
  by (relation "measure (\<lambda>(b, pb_limit, pb, off_b, match_len). pb_limit - pb)") auto

function search_b ::
  "byte list \<Rightarrow> nat \<Rightarrow> nat \<Rightarrow> nat \<Rightarrow> nat \<Rightarrow> nat \<Rightarrow> nat \<Rightarrow> search" where
  "search_b b ss off_b pb_end poff len pb =
     (if pb < pb_end \<and> poff < len then
        (if length b - off_b < BLOCK_HDR_SIZE then NotFound
         else if length b - pb < BLOCK_HDR_SIZE then NotFound
         else if ss > pb_end - pb then NotFound
         else if take BLOCK_HDR_SIZE (drop pb b) = take BLOCK_HDR_SIZE (drop off_b b) then
           (if pb > BLOCK_OFF_MAX then TooFar
            else if pb div 65536 mod 256 = unat ESC then search_b b ss off_b pb_end poff len (pb + 1)
            else
              (let (off_b', match_len) =
                     extend_b b pb_end (pb + BLOCK_HDR_SIZE) (off_b + BLOCK_HDR_SIZE) BLOCK_HDR_SIZE
               in Found off_b' (block_hdr pb match_len)))
         else search_b b ss off_b pb_end poff len (pb + 1))
      else NotFound)"
  by pat_completeness auto
termination
  by (relation "measure (\<lambda>(b, ss, off_b, pb_end, poff, len, pb). pb_end - pb)") auto

declare extend_a.simps [simp del] search_a.simps [simp del] extend_b.simps [simp del] search_b.simps [simp del]

lemma extend_a_ge: "extend_a a b ss b_start pa off_b ml = (off', ml') \<Longrightarrow> off_b \<le> off'"
proof (induction a b ss b_start pa off_b ml rule: extend_a.induct)
  case (1 a b ss b_start pa off_b match_len)
  then show ?case
    by (subst (asm) (2) extend_a.simps) (auto split: if_splits)
qed

lemma extend_b_ge: "extend_b b lim pb off_b ml = (off', ml') \<Longrightarrow> off_b \<le> off'"
proof (induction b lim pb off_b ml rule: extend_b.induct)
  case (1 b lim pb off_b match_len)
  then show ?case
    by (subst (asm) (2) extend_b.simps) (auto split: if_splits)
qed

definition hit_a :: "byte list \<Rightarrow> byte list \<Rightarrow> nat \<Rightarrow> nat \<Rightarrow> nat \<Rightarrow> nat \<Rightarrow> byte list \<Rightarrow> bool" where
  "hit_a a b ss off_b p off' h \<longleftrightarrow>
     BLOCK_HDR_SIZE \<le> length a - p \<and> BLOCK_HDR_SIZE \<le> length b - off_b \<and> BLOCK_HDR_SIZE \<le> ss - off_b mod ss \<and>
     take BLOCK_HDR_SIZE (drop p a) = take BLOCK_HDR_SIZE (drop off_b b) \<and>
     p \<le> BLOCK_OFF_MAX \<and> p div 65536 mod 256 \<noteq> unat ESC \<and>
     (case extend_a a b ss off_b (p + BLOCK_HDR_SIZE) (off_b + BLOCK_HDR_SIZE) BLOCK_HDR_SIZE of
        (o1, ml) \<Rightarrow> off' = o1 \<and> h = block_hdr p ml)"

definition hit_b :: "byte list \<Rightarrow> nat \<Rightarrow> nat \<Rightarrow> nat \<Rightarrow> nat \<Rightarrow> nat \<Rightarrow> byte list \<Rightarrow> bool" where
  "hit_b b ss off_b pb_end p off' h \<longleftrightarrow>
     p < pb_end \<and> ss \<le> pb_end - p \<and> BLOCK_HDR_SIZE \<le> length b - p \<and> BLOCK_HDR_SIZE \<le> length b - off_b \<and>
     take BLOCK_HDR_SIZE (drop p b) = take BLOCK_HDR_SIZE (drop off_b b) \<and>
     p \<le> BLOCK_OFF_MAX \<and> p div 65536 mod 256 \<noteq> unat ESC \<and>
     (case extend_b b pb_end (p + BLOCK_HDR_SIZE) (off_b + BLOCK_HDR_SIZE) BLOCK_HDR_SIZE of
        (o1, ml) \<Rightarrow> off' = o1 \<and> h = block_hdr p ml)"

lemma search_a_hit:
  "search_a a b ss off_b poff len pa = Found off' h \<Longrightarrow> \<exists>p\<ge>pa. hit_a a b ss off_b p off' h"
proof (induction "length a - pa" arbitrary: pa rule: less_induct)
  case less
  show ?case
  proof (cases "search_a a b ss off_b poff len (pa + 1) = Found off' h \<and> pa < length a")
    case True
    then obtain p where "p \<ge> pa + 1" "hit_a a b ss off_b p off' h"
      using less.hyps [of "pa + 1"] by (auto simp: diff_less_mono2)
    then show ?thesis
      by (intro exI [of _ p]) simp
  next
    case False
    then have "hit_a a b ss off_b pa off' h"
      using less.prems unfolding hit_a_def
      by (subst (asm) search_a.simps) (simp split: if_split_asm prod.split_asm)
    then show ?thesis
      by blast
  qed
qed

lemma search_b_hit:
  "search_b b ss off_b pb_end poff len pb = Found off' h \<Longrightarrow> \<exists>p\<ge>pb. hit_b b ss off_b pb_end p off' h"
proof (induction "pb_end - pb" arbitrary: pb rule: less_induct)
  case less
  show ?case
  proof (cases "search_b b ss off_b pb_end poff len (pb + 1) = Found off' h \<and> pb < pb_end")
    case True
    then obtain p where "p \<ge> pb + 1" "hit_b b ss off_b pb_end p off' h"
      using less.hyps [of "pb + 1"] by (auto simp: diff_less_mono2)
    then show ?thesis
      by (intro exI [of _ p]) simp
  next
    case False
    then have "hit_b b ss off_b pb_end pb off' h"
      using less.prems unfolding hit_b_def
      by (subst (asm) search_b.simps) (simp split: if_split_asm prod.split_asm)
    then show ?thesis
      by blast
  qed
qed

lemma search_a_gt: "search_a a b ss off_b poff len pa = Found off' h \<Longrightarrow> off_b < off'"
  by (auto simp: BLOCK_HDR_SIZE_def hit_a_def dest!: search_a_hit extend_a_ge split: prod.splits)

lemma search_b_gt: "search_b b ss off_b pb_end poff len pb = Found off' h \<Longrightarrow> off_b < off'"
  by (auto simp: BLOCK_HDR_SIZE_def hit_b_def dest!: search_b_hit extend_b_ge split: prod.splits)

function diff_tail :: "byte list \<Rightarrow> nat \<Rightarrow> nat \<Rightarrow> byte list \<Rightarrow> int \<times> nat \<times> byte list" where
  "diff_tail b len off_b out =
     (if length out < len - BLOCK_HDR_SIZE \<and> off_b < length b then
        (if b ! off_b = ESC then
           (if length out + 1 \<ge> len - BLOCK_HDR_SIZE then (int (length out), off_b, out)
            else diff_tail b len (off_b + 1) (out @ [ESC, ESC]))
         else diff_tail b len (off_b + 1) (out @ [b ! off_b]))
      else (int (length out), off_b, out))"
  by pat_completeness auto
termination
  by (relation "measure (\<lambda>(b, len, off_b, out). length b - off_b)") auto

function diff_loop ::
  "byte list \<Rightarrow> byte list \<Rightarrow> nat \<Rightarrow> nat \<Rightarrow> nat \<Rightarrow> byte list \<Rightarrow> int \<times> nat \<times> byte list" where
  "diff_loop a b ss len off_b out =
     (if off_b + BLOCK_HDR_SIZE < length b \<and> len > length out + BLOCK_HDR_SIZE then
        (if length out + BLOCK_HDR_SIZE > len then (int (length out), off_b, out)
         else
           (case search_a a b ss off_b (length out) len (ss * (off_b div ss)) of
              TooFar \<Rightarrow> (-1, off_b, out)
            | Found off_b' hdr \<Rightarrow> diff_loop a b ss len off_b' (out @ hdr)
            | NotFound \<Rightarrow>
                (case search_b b ss off_b (off_b div ss * ss) (length out) len 0 of
                   TooFar \<Rightarrow> (-1, off_b, out)
                 | Found off_b' hdr \<Rightarrow> diff_loop a b ss len off_b' (out @ hdr)
                 | NotFound \<Rightarrow>
                     if b ! off_b = ESC then
                       (if length out + 1 \<ge> len - BLOCK_HDR_SIZE then diff_tail b len off_b out
                        else diff_loop a b ss len (off_b + 1) (out @ [ESC, ESC]))
                     else diff_loop a b ss len (off_b + 1) (out @ [b ! off_b]))))
      else diff_tail b len off_b out)"
  by pat_completeness auto
termination
  by (relation "measure (\<lambda>(a, b, ss, len, off_b, out). length b - off_b)")
     (auto dest!: search_a_gt search_b_gt)

declare diff_tail.simps [simp del] diff_loop.simps [simp del]

definition wb_diff :: "byte list \<Rightarrow> byte list \<Rightarrow> nat \<Rightarrow> nat \<Rightarrow> nat \<Rightarrow> int \<times> nat \<times> byte list" where
  "wb_diff a b ss off_b len =
     (if off_b \<ge> length b then (0, off_b, [])
      else if len < BLOCK_HDR_SIZE then (-1, off_b, [])
      else diff_loop a b ss len off_b [])"

text \<open>
  The sign tool collects the patch in blocks of one sector; \<open>None\<close> is a failure, or a call of
  \<open>wb_diff\<close> that makes no progress for ever.
\<close>

partial_function (option) base_diff_loop ::
  "byte list \<Rightarrow> byte list \<Rightarrow> nat \<Rightarrow> nat \<Rightarrow> nat \<Rightarrow> byte list \<Rightarrow> byte list option" where
  "base_diff_loop a b ss blksz off_b patch =
     (case wb_diff a b ss off_b blksz of
        (r, off_b, dest) \<Rightarrow>
          if r < 0 then None
          else if r > 0 then base_diff_loop a b ss blksz off_b (patch @ dest)
          else Some (patch @ dest))"

subsection \<open>What a patch means\<close>

datatype tok = Lit byte | Copy nat nat

fun enc :: "tok \<Rightarrow> byte list" where
  "enc (Lit x) = (if x = ESC then [ESC, ESC] else [x])"
| "enc (Copy off sz) = block_hdr off sz"

fun tok_len :: "tok \<Rightarrow> nat" where
  "tok_len (Lit x) = 1"
| "tok_len (Copy off sz) = sz"

text \<open>
  A block copied to offset \<open>o\<close> of the new image comes either from the old image, at or after
  the start of the sector that holds \<open>o\<close> and within that sector; or from the part of the new
  image before that sector.
\<close>

definition copy_ok :: "byte list \<Rightarrow> byte list \<Rightarrow> nat \<Rightarrow> nat \<Rightarrow> nat \<Rightarrow> nat \<Rightarrow> bool" where
  "copy_ok a b ss q off sz \<longleftrightarrow>
     q + sz \<le> length b \<and>
     (q div ss * ss \<le> off \<and> off + sz \<le> length a \<and> q + sz \<le> (q div ss + 1) * ss \<and>
        (\<forall>i < sz. a ! (off + i) = b ! (q + i)) \<or>
      off + sz \<le> q div ss * ss \<and> (\<forall>i < sz. b ! (off + i) = b ! (q + i)))"

fun tok_ok :: "byte list \<Rightarrow> byte list \<Rightarrow> nat \<Rightarrow> nat \<Rightarrow> tok \<Rightarrow> bool" where
  "tok_ok a b ss q (Lit x) \<longleftrightarrow> q < length b \<and> x = b ! q"
| "tok_ok a b ss q (Copy off sz) \<longleftrightarrow>
     0 < sz \<and> sz < 65536 \<and> off < 16777216 \<and> off div 65536 \<noteq> 127 \<and> copy_ok a b ss q off sz"

fun toks_ok :: "byte list \<Rightarrow> byte list \<Rightarrow> nat \<Rightarrow> nat \<Rightarrow> tok list \<Rightarrow> nat \<Rightarrow> bool" where
  "toks_ok a b ss q [] o1 \<longleftrightarrow> o1 = q"
| "toks_ok a b ss q (t # ts) o1 \<longleftrightarrow> tok_ok a b ss q t \<and> toks_ok a b ss (q + tok_len t) ts o1"

lemma toks_ok_append:
  "toks_ok a b ss q (ts @ ts') o2 \<longleftrightarrow> (\<exists>o1. toks_ok a b ss q ts o1 \<and> toks_ok a b ss o1 ts' o2)"
  by (induction ts arbitrary: q) auto

lemma extend_a_spec:
  "extend_a a b ss b_start pa off_b ml = (off', ml') \<Longrightarrow> 0 < ss \<Longrightarrow>
   e = (b_start div ss + 1) * ss \<Longrightarrow> off_b \<le> e \<Longrightarrow> ml + e < 65536 + off_b \<Longrightarrow>
   pa \<le> length a \<Longrightarrow> off_b \<le> length b \<Longrightarrow>
   \<exists>k. off' = off_b + k \<and> ml' = ml + k \<and> off' \<le> e \<and> off' \<le> length b \<and>
       pa + k \<le> length a \<and> (\<forall>i<k. a ! (pa + i) = b ! (off_b + i))"
proof (induction a b ss b_start pa off_b ml rule: extend_a.induct)
  case (1 a b ss b_start pa off_b ml)
  show ?case
  proof (cases "pa < length a \<and> off_b < length b \<and> a ! pa = b ! off_b \<and> \<not> pa + 1 \<ge> length a \<and>
      \<not> b_start div ss < (off_b + 1) div ss")
    case True
    then have "off_b + 1 < e"
      using 1(3) unfolding 1(4) by (simp add: not_less div_less_iff_less_mult [symmetric] less_Suc_eq_le del: mult_Suc)
    moreover have "u16 (ml + 1) = ml + 1"
      using 1(6) calculation by (simp add: u16_def)
    moreover have "extend_a a b ss b_start (pa + 1) (off_b + 1) (u16 (ml + 1)) = (off', ml')"
      using 1(2) True by (subst (asm) extend_a.simps) simp
    ultimately obtain k where k: "off' = off_b + 1 + k" "ml' = ml + 1 + k" "off' \<le> e"
      "off' \<le> length b" "pa + 1 + k \<le> length a" "\<forall>i<k. a ! (pa + 1 + i) = b ! (off_b + 1 + i)"
      using "1.IH" True 1(3,4,6) by auto
    have "\<forall>i<k + 1. a ! (pa + i) = b ! (off_b + i)"
      using k(6) True by (auto simp: less_Suc_eq_0_disj)
    then show ?thesis
      using k by (intro exI [of _ "k + 1"]) auto
  next
    case False
    then have "off' = off_b" "ml' = ml"
      using 1(2) by (subst (asm) extend_a.simps; auto split: if_splits)+
    then show ?thesis
      using 1(5,7,8) by auto
  qed
qed

lemma extend_b_spec:
  "extend_b b lim pb off_b ml = (off', ml') \<Longrightarrow> ml < 65536 \<Longrightarrow> pb \<le> lim \<Longrightarrow> off_b \<le> length b \<Longrightarrow>
   \<exists>k. off' = off_b + k \<and> ml' = ml + k \<and> ml' < 65536 \<and> off' \<le> length b \<and> pb + k \<le> lim \<and>
       (\<forall>i<k. b ! (pb + i) = b ! (off_b + i))"
proof (induction b lim pb off_b ml rule: extend_b.induct)
  case (1 b lim pb off_b ml)
  show ?case
  proof (cases "pb < lim \<and> ml < 65535 \<and> off_b < length b \<and> b ! pb = b ! off_b \<and> \<not> pb + 1 \<ge> lim")
    case True
    moreover have u: "u16 (ml + 1) = ml + 1"
      using True by (simp add: u16_def)
    moreover have "extend_b b lim (pb + 1) (off_b + 1) (u16 (ml + 1)) = (off', ml')"
      using 1(2) True by (subst (asm) extend_b.simps) simp
    ultimately obtain k where k: "off' = off_b + 1 + k" "ml' = ml + 1 + k" "ml' < 65536"
      "off' \<le> length b" "pb + 1 + k \<le> lim" "\<forall>i<k. b ! (pb + 1 + i) = b ! (off_b + 1 + i)"
      using "1.IH" by auto
    have "\<forall>i<k + 1. b ! (pb + i) = b ! (off_b + i)"
      using k(6) True by (auto simp: less_Suc_eq_0_disj)
    then show ?thesis
      using k by (intro exI [of _ "k + 1"]) auto
  next
    case False
    then have "off' = off_b" "ml' = ml"
      using 1(2) by (subst (asm) extend_b.simps; auto split: if_splits)+
    then show ?thesis
      using 1(3-5) by auto
  qed
qed

text \<open>Every block header that the search emits is a good token.\<close>

lemma take_drop_nth:
  "take n (drop p a) = take n (drop q b) \<Longrightarrow> n \<le> length a - p \<Longrightarrow> n \<le> length b - q \<Longrightarrow> i < n \<Longrightarrow>
   a ! (p + i) = b ! (q + i)"
proof -
  assume "take n (drop p a) = take n (drop q b)" "n \<le> length a - p" "n \<le> length b - q" "i < n"
  then have "take n (drop p a) ! i = take n (drop q b) ! i" "p + i < length a" "q + i < length b"
    by simp_all
  then show ?thesis
    using \<open>i < n\<close> by simp
qed

lemma eq_append:
  fixes q :: nat
  assumes "\<forall>i<n. a ! (p + i) = b ! (q + i)" and "\<forall>i<k. a ! (p + n + i) = b ! (q + n + i)" and "i < n + k"
  shows "a ! (p + i) = b ! (q + i)"
proof (cases "i < n")
  case False
  then have "i - n < k"
    using assms(3) by simp
  then have "a ! (p + n + (i - n)) = b ! (q + n + (i - n))"
    using assms(2) by blast
  then show ?thesis
    using False by simp
qed (use assms in simp)

lemma ESC_eq [simp]: "unat ESC = 127"
  by (simp add: ESC_def)

lemma search_a_ok:
  assumes "search_a a b ss q poff len (ss * (q div ss)) = Found off' h" and "ss < 65536"
  shows "\<exists>off sz. h = enc (Copy off sz) \<and> off' = q + sz \<and> tok_ok a b ss q (Copy off sz)"
proof -
  obtain p where p: "p \<ge> q div ss * ss" "hit_a a b ss q p off' h"
    using search_a_hit [OF assms(1)] by (auto simp: mult.commute)
  obtain o1 ml where e: "extend_a a b ss q (p + 6) (q + 6) 6 = (o1, ml)"
    by fastforce
  have h: "6 \<le> length a - p" "6 \<le> length b - q" "6 \<le> ss - q mod ss" "take 6 (drop p a) = take 6 (drop q b)"
    "p \<le> 0xFFFFFF" "p div 65536 mod 256 \<noteq> 127" "off' = o1" "h = block_hdr p ml"
    using p(2) e by (auto simp: hit_a_def BLOCK_HDR_SIZE_def BLOCK_OFF_MAX_def)
  define e' where "e' = (q div ss + 1) * ss"
  have "q div ss * ss + q mod ss = q" "e' = q div ss * ss + ss"
    by (simp_all add: e'_def)
  then have q: "q + 6 \<le> e'" "e' \<le> q + ss"
    using h(3) by linarith+
  have "0 < ss" "6 + e' < 65536 + (q + 6)" "p + 6 \<le> length a" "q + 6 \<le> length b"
    using h(1-3) q assms(2) by simp_all
  then obtain k where k: "o1 = q + 6 + k" "ml = 6 + k" "o1 \<le> e'" "o1 \<le> length b" "p + 6 + k \<le> length a"
    "\<forall>i<k. a ! (p + 6 + i) = b ! (q + 6 + i)"
    using extend_a_spec [OF e _ e'_def q(1)] by auto
  have "\<forall>i<6. a ! (p + i) = b ! (q + i)"
    using take_drop_nth [OF h(4) h(1,2)] by blast
  then have "\<forall>i<6 + k. a ! (p + i) = b ! (q + i)"
    using eq_append [OF _ k(6)] by blast
  moreover have "p div 65536 \<noteq> 127"
    using h(6) by auto
  moreover have "ml < 65536"
    using k(1-3) q(2) assms(2) by linarith
  ultimately have "tok_ok a b ss q (Copy p ml)"
    using k p(1) h(5) by (auto simp: copy_ok_def e'_def)
  then show ?thesis
    using h(7,8) k(1,2) by (intro exI [of _ p] exI [of _ ml]) simp
qed

lemma search_b_ok:
  assumes "search_b b ss q (q div ss * ss) poff len 0 = Found off' h" and "6 \<le> ss"
  shows "\<exists>off sz. h = enc (Copy off sz) \<and> off' = q + sz \<and> tok_ok a b ss q (Copy off sz)"
proof -
  define e' where "e' = q div ss * ss"
  obtain p where p: "hit_b b ss q e' p off' h"
    using search_b_hit [OF assms(1)] by (auto simp: e'_def)
  obtain o1 ml where e: "extend_b b e' (p + 6) (q + 6) 6 = (o1, ml)"
    by fastforce
  have h: "p < e'" "ss \<le> e' - p" "6 \<le> length b - p" "6 \<le> length b - q" "take 6 (drop p b) = take 6 (drop q b)"
    "p \<le> 0xFFFFFF" "p div 65536 mod 256 \<noteq> 127" "off' = o1" "h = block_hdr p ml"
    using p e by (auto simp: hit_b_def BLOCK_HDR_SIZE_def BLOCK_OFF_MAX_def)
  have "p + 6 \<le> e'" "q + 6 \<le> length b"
    using h(1,2,4) assms(2) by simp_all
  then obtain k where k: "o1 = q + 6 + k" "ml = 6 + k" "ml < 65536" "o1 \<le> length b" "p + 6 + k \<le> e'"
    "\<forall>i<k. b ! (p + 6 + i) = b ! (q + 6 + i)"
    using extend_b_spec [OF e] by auto
  have "\<forall>i<6. b ! (p + i) = b ! (q + i)"
    using take_drop_nth [OF h(5) h(3,4)] by blast
  then have "\<forall>i<6 + k. b ! (p + i) = b ! (q + i)"
    using eq_append [OF _ k(6)] by blast
  moreover have "p div 65536 \<noteq> 127"
    using h(7) by auto
  ultimately have "tok_ok a b ss q (Copy p ml)"
    using k h(6) by (auto simp: copy_ok_def e'_def)
  then show ?thesis
    using h(8,9) k(1,2) by (intro exI [of _ p] exI [of _ ml]) simp
qed

text \<open>So the output of \<open>wb_diff\<close> is a sequence of good tokens.\<close>

definition emits :: "byte list \<Rightarrow> byte list \<Rightarrow> nat \<Rightarrow> nat \<Rightarrow> byte list \<Rightarrow> nat \<Rightarrow> bool" where
  "emits a b ss q out q' \<longleftrightarrow> (\<exists>ts. out = concat (map enc ts) \<and> toks_ok a b ss q ts q')"

lemma emits_Nil [simp]: "emits a b ss q [] q"
  by (auto simp: emits_def intro: exI [of _ "[]"])

lemma emits_tok: "emits a b ss q out q1 \<Longrightarrow> tok_ok a b ss q1 t \<Longrightarrow> emits a b ss q (out @ enc t) (q1 + tok_len t)"
  unfolding emits_def by (elim exE conjE, rule exI [of _ "_ @ [t]"]) (auto simp: toks_ok_append)

lemma emits_append: "emits a b ss q out q1 \<Longrightarrow> emits a b ss q1 out' q2 \<Longrightarrow> emits a b ss q (out @ out') q2"
  unfolding emits_def by (elim exE conjE, rule exI [of _ "_ @ _"]) (auto simp: toks_ok_append)

lemma emits_lit:
  "emits a b ss q out q1 \<Longrightarrow> q1 < length b \<Longrightarrow>
   emits a b ss q (out @ (if b ! q1 = ESC then [ESC, ESC] else [b ! q1])) (q1 + 1)"
  using emits_tok [of a b ss q out q1 "Lit (b ! q1)"] by simp

lemma diff_tail_emits:
  "diff_tail b len off_b out = (r, off', out') \<Longrightarrow> emits a b ss q out off_b \<Longrightarrow>
   emits a b ss q out' off' \<and> r = int (length out') \<and> off_b \<le> off' \<and> length out \<le> length out' \<and>
   (off_b < length b \<and> length out + 1 < len - BLOCK_HDR_SIZE \<longrightarrow> off_b < off' \<and> length out < length out')"
proof (induction b len off_b out rule: diff_tail.induct)
  case (1 b len off_b out)
  show ?case
  proof (cases "length out < len - BLOCK_HDR_SIZE \<and> off_b < length b \<and>
      \<not> (b ! off_b = ESC \<and> length out + 1 \<ge> len - BLOCK_HDR_SIZE)")
    case True
    let ?out = "out @ (if b ! off_b = ESC then [ESC, ESC] else [b ! off_b])"
    have "diff_tail b len (off_b + 1) ?out = (r, off', out')"
      using 1(3) True by (subst (asm) diff_tail.simps) (auto split: if_splits)
    moreover have "emits a b ss q ?out (off_b + 1)"
      using 1(4) True by (intro emits_lit) auto
    ultimately have "emits a b ss q out' off' \<and> r = int (length out') \<and> off_b + 1 \<le> off' \<and>
        length ?out \<le> length out'"
      using 1(1,2) True by (cases "b ! off_b = ESC") auto
    moreover have "length out < length ?out"
      by simp
    ultimately show ?thesis
      by linarith
  next
    case False
    then have "r = int (length out)" "off' = off_b" "out' = out"
      using 1(3) by (subst (asm) diff_tail.simps; auto split: if_splits)+
    then show ?thesis
      using False 1(4) by auto
  qed
qed

lemma diff_loop_emits:
  assumes ss: "6 \<le> ss" "ss < 65536"
  shows "diff_loop a b ss len off_b out = (r, off', out') \<Longrightarrow> 0 \<le> r \<Longrightarrow> emits a b ss q out off_b \<Longrightarrow>
   emits a b ss q out' off' \<and> r = int (length out') \<and> off_b \<le> off' \<and> length out \<le> length out' \<and>
   (off_b < length b \<and> length out + 1 < len - BLOCK_HDR_SIZE \<longrightarrow> off_b < off' \<and> length out < length out')"
proof (induction "length b - off_b" arbitrary: off_b out rule: less_induct)
  case less
  have step: ?case if "diff_loop a b ss len (off_b + tok_len t) (out @ enc t) = (r, off', out')"
    "tok_ok a b ss off_b t" "off_b < length b" "0 < tok_len t" for t
  proof -
    have "0 < length (enc t)"
      by (cases t) (simp_all add: block_hdr_def)
    moreover have "emits a b ss q (out @ enc t) (off_b + tok_len t)"
      using less.prems(3) that(2) by (rule emits_tok)
    then have "emits a b ss q out' off' \<and> r = int (length out') \<and> off_b + tok_len t \<le> off' \<and>
        length (out @ enc t) \<le> length out'"
      using less.hyps [OF _ that(1) less.prems(2)] that(3,4) by (simp add: diff_less_mono2)
    moreover have "length (out @ enc t) = length out + length (enc t)"
      by simp
    ultimately show ?thesis
      using that(4) by linarith
  qed
  show ?case
  proof (cases "off_b + BLOCK_HDR_SIZE < length b \<and> len > length out + BLOCK_HDR_SIZE \<and>
      diff_loop a b ss len off_b out \<noteq> diff_tail b len off_b out")
    case False
    then have "diff_tail b len off_b out = (r, off', out')"
      using less.prems(1) by (metis diff_loop.simps)
    then show ?thesis
      using diff_tail_emits less.prems(3) by blast
  next
    case True
    then have off: "off_b < length b"
      by simp
    show ?thesis
    proof (cases "search_a a b ss off_b (length out) len (ss * (off_b div ss))")
      case (Found o1 h)
      then obtain t where "h = enc t" "o1 = off_b + tok_len t" "tok_ok a b ss off_b t" "0 < tok_len t"
        using search_a_ok [OF Found ss(2)] by (metis tok_len.simps(2) tok_ok.simps(2))
      then show ?thesis
        using less.prems(1) True Found off by (intro step [of t]) (simp_all add: diff_loop.simps [of a b ss len off_b out])
    next
      case TooFar
      then show ?thesis
        using less.prems(1,2) True by (simp add: diff_loop.simps [of a b ss len off_b out])
    next
      case NotFound
      note nf = NotFound
      show ?thesis
      proof (cases "search_b b ss off_b (off_b div ss * ss) (length out) len 0")
        case (Found o1 h)
        then obtain t where "h = enc t" "o1 = off_b + tok_len t" "tok_ok a b ss off_b t" "0 < tok_len t"
          using search_b_ok [OF Found ss(1)] by (metis tok_len.simps(2) tok_ok.simps(2))
        then show ?thesis
          using less.prems(1) True Found nf off
          by (intro step [of t]) (simp_all add: diff_loop.simps [of a b ss len off_b out])
      next
        case TooFar
        then show ?thesis
          using less.prems(1,2) True nf by (simp add: diff_loop.simps [of a b ss len off_b out])
      next
        case NotFound
        then have "diff_loop a b ss len (off_b + 1) (out @ enc (Lit (b ! off_b))) = (r, off', out')"
          using less.prems(1) True nf
          by (simp add: diff_loop.simps [of a b ss len off_b out] split: if_splits)
        then show ?thesis
          using off by (intro step [of "Lit (b ! off_b)"]) simp_all
      qed
    qed
  qed
qed

lemma wb_diff_emits:
  assumes "6 \<le> ss" "ss < 65536" and "wb_diff a b ss q len = (r, q', out)" and "0 \<le> r"
  shows "emits a b ss q out q' \<and> r = int (length out) \<and> q \<le> q' \<and>
    (q < length b \<and> 7 < len \<longrightarrow> q < q' \<and> 0 < r)"
proof (cases "length b \<le> q")
  case False
  then have "diff_loop a b ss len q [] = (r, q', out)" "6 \<le> len"
    using assms(3,4) by (simp_all add: wb_diff_def BLOCK_HDR_SIZE_def split: if_splits)
  then show ?thesis
    using diff_loop_emits [OF assms(1,2) _ assms(4) emits_Nil, of a b len q q' out] False
    by (auto simp: BLOCK_HDR_SIZE_def)
qed (use assms in \<open>simp add: wb_diff_def\<close>)

lemma emits_le: "emits a b ss q out q' \<Longrightarrow> q \<le> length b \<Longrightarrow> q' \<le> length b"
proof -
  have "toks_ok a b ss q ts q' \<Longrightarrow> q \<le> length b \<Longrightarrow> q' \<le> length b" for ts
  proof (induction ts arbitrary: q)
    case (Cons t ts)
    then show ?case
      by (cases t) (auto simp: copy_ok_def)
  qed simp
  then show "emits a b ss q out q' \<Longrightarrow> q \<le> length b \<Longrightarrow> q' \<le> length b"
    by (auto simp: emits_def)
qed

text \<open>Images of up to 16 MB keep every block within the reach of its 24-bit offset.\<close>

lemma search_a_near: "length a \<le> 2 ^ 24 \<Longrightarrow> search_a a b ss off_b poff len pa \<noteq> TooFar"
proof (induction "length a - pa" arbitrary: pa rule: less_induct)
  case less
  have "pa < length a \<Longrightarrow> search_a a b ss off_b poff len (pa + 1) \<noteq> TooFar"
    using less by (simp add: diff_less_mono2)
  then show ?case
    using less.prems by (subst search_a.simps) (auto simp: BLOCK_OFF_MAX_def split: prod.splits)
qed

lemma search_b_near: "pb_end \<le> 2 ^ 24 \<Longrightarrow> search_b b ss off_b pb_end poff len pb \<noteq> TooFar"
proof (induction "pb_end - pb" arbitrary: pb rule: less_induct)
  case less
  have "pb < pb_end \<Longrightarrow> search_b b ss off_b pb_end poff len (pb + 1) \<noteq> TooFar"
    using less by (simp add: diff_less_mono2)
  then show ?case
    using less.prems by (subst search_b.simps) (auto simp: BLOCK_OFF_MAX_def split: prod.splits)
qed

lemma diff_tail_nonneg: "0 \<le> fst (diff_tail b len off_b out)"
proof (induction b len off_b out rule: diff_tail.induct)
  case (1 b len off_b out)
  then show ?case
    by (subst diff_tail.simps) simp
qed

lemma diff_loop_near:
  assumes "length a \<le> 2 ^ 24" "length b \<le> 2 ^ 24"
  shows "0 \<le> fst (diff_loop a b ss len off_b out)"
proof (induction "length b - off_b" arbitrary: off_b out rule: less_induct)
  case less
  show ?case
  proof (cases "off_b + BLOCK_HDR_SIZE < length b")
    case True
    then have *: "off_b < length b"
      by simp
    have "off_b div ss * ss \<le> off_b"
      by simp
    then have "off_b div ss * ss \<le> 2 ^ 24"
      using * assms(2) by linarith
    note near = search_a_near [OF assms(1)] search_b_near [OF this]
    have IH: "off_b < o1 \<Longrightarrow> 0 \<le> fst (diff_loop a b ss len o1 out1)" for o1 out1
      using * by (intro less) simp
    show ?thesis
      using near search_a_gt search_b_gt
      by (subst diff_loop.simps) (auto simp: diff_tail_nonneg intro!: IH split: search.splits)
  qed (subst diff_loop.simps, simp add: diff_tail_nonneg)
qed

lemma wb_diff_near:
  "length a \<le> 2 ^ 24 \<Longrightarrow> length b \<le> 2 ^ 24 \<Longrightarrow> 6 \<le> len \<Longrightarrow> 0 \<le> fst (wb_diff a b ss q len)"
  using diff_loop_near by (simp add: wb_diff_def BLOCK_HDR_SIZE_def)

text \<open>The sign tool ends with a patch for the whole image.\<close>

lemma base_diff_emits:
  assumes "6 \<le> ss" "ss < 65536" and "7 < blksz" and "length a \<le> 2 ^ 24" "length b \<le> 2 ^ 24"
  shows "emits a b ss 0 patch q \<Longrightarrow> q \<le> length b \<Longrightarrow>
    \<exists>p. base_diff_loop a b ss blksz q patch = Some p \<and> emits a b ss 0 p (length b)"
proof (induction "length b - q" arbitrary: q patch rule: less_induct)
  case less
  obtain r q' out where w: "wb_diff a b ss q blksz = (r, q', out)"
    by (metis prod_cases3)
  have "0 \<le> r"
    using wb_diff_near [OF assms(4,5), of blksz ss q] assms(3) w by simp
  note e = wb_diff_emits [OF assms(1,2) w this]
  have q': "emits a b ss 0 (patch @ out) q'"
    using emits_append less.prems(1) e by blast
  then have le: "q' \<le> length b"
    by (rule emits_le) simp
  show ?case
  proof (cases "q < length b")
    case True
    then have "q < q'" "0 < r"
      using e assms(3) by auto
    then have "\<exists>p. base_diff_loop a b ss blksz q' (patch @ out) = Some p \<and> emits a b ss 0 p (length b)"
      using True by (intro less.hyps [OF _ q' le]) simp
    then show ?thesis
      using \<open>0 < r\<close> by (subst base_diff_loop.simps) (simp add: w)
  next
    case False
    then have "wb_diff a b ss q blksz = (0, q, [])" "q = length b"
      using less.prems(2) by (simp_all add: wb_diff_def)
    then show ?thesis
      using less.prems(1) by (subst base_diff_loop.simps) simp
  qed
qed

end
