(* ===== verification/Patch.thy ===== *)
theory Patch
  imports Delta
begin

text \<open>
  Applying a patch in place (\<open>src/delta.c\<close>): a source whose first sectors have been replaced
  by the new image still serves the rest of the patch, so patching sector by sector turns
  the old image into the new one.
\<close>

subsection \<open>Applying a patch in place\<close>

definition window :: "byte list \<Rightarrow> nat \<Rightarrow> nat \<Rightarrow> byte list" where
  "window b q n = take n (drop q b)"

lemma length_window [simp]: "q + n \<le> length b \<Longrightarrow> length (window b q n) = n"
  by (simp add: window_def)

lemma window_add: "window b q (n + k) = window b q n @ window b (q + n) k"
  by (simp add: window_def take_add) (simp add: add.commute)

lemma window_eqI: "length xs = n \<Longrightarrow> q + n \<le> length b \<Longrightarrow> (\<And>i. i < n \<Longrightarrow> xs ! i = b ! (q + i)) \<Longrightarrow> xs = window b q n"
  by (intro nth_equalityI) (auto simp: window_def)

lemma window_0 [simp]: "window b q 0 = []"
  by (simp add: window_def)

lemma window_Suc: "q < length b \<Longrightarrow> window b q (Suc 0) = [b ! q]"
  by (simp add: window_def take_Suc hd_drop_conv_nth)

text \<open>
  The source while sector \<open>k\<close> is patched: the sectors before it are new, the others still
  old.
\<close>

definition hybrid :: "byte list \<Rightarrow> byte list \<Rightarrow> nat \<Rightarrow> nat \<Rightarrow> mem \<Rightarrow> nat \<Rightarrow> bool" where
  "hybrid a b ss k fl base \<longleftrightarrow>
     (\<forall>i < min (k * ss) (length b). fl (base + i) = b ! i) \<and>
     (\<forall>i. k * ss \<le> i \<and> i < length a \<longrightarrow> fl (base + i) = a ! i)"

fun fits :: "nat \<Rightarrow> tok \<Rightarrow> bool" where
  "fits S (Lit x) \<longleftrightarrow> True"
| "fits S (Copy off sz) \<longleftrightarrow> off + sz \<le> S"

definition patch_state :: "byte list \<Rightarrow> byte list \<Rightarrow> nat \<Rightarrow> byte list \<Rightarrow> patch_ctx \<Rightarrow> nat \<Rightarrow> bool" where
  "patch_state a b ss P ctx q \<longleftrightarrow>
     patch_size ctx = length P \<and> p_off ctx \<le> length P \<and>
     (\<exists>ts. drop (p_off ctx) P = concat (map enc ts) \<and> (\<forall>t\<in>set ts. fits (src_size ctx) t) \<and>
        (if matching ctx then
           0 < blk_sz ctx \<and> blk_off ctx + blk_sz ctx \<le> src_size ctx \<and>
           copy_ok a b ss q (blk_off ctx) (blk_sz ctx) \<and> toks_ok a b ss (q + blk_sz ctx) ts (length b)
         else toks_ok a b ss q ts (length b)))"

lemma copy_ok_shift:
  assumes "copy_ok a b ss q off sz" and "k < sz" and "0 < ss"
  shows "copy_ok a b ss (q + k) (off + k) (sz - k)"
proof (cases "q div ss * ss \<le> off \<and> off + sz \<le> length a \<and> q + sz \<le> (q div ss + 1) * ss \<and>
    (\<forall>i < sz. a ! (off + i) = b ! (q + i))")
  case True
  have "q + k < (q div ss + 1) * ss"
    using True assms(2) by linarith
  then have "(q + k) div ss = q div ss"
    using assms(3) by (metis add.commute add_leD2 div_le_mono div_less_iff_less_mult le_add1 le_antisym less_Suc_eq_le plus_1_eq_Suc)
  then show ?thesis
    using True assms(1,2) by (auto simp: copy_ok_def add.assoc)
next
  case False
  then have c: "off + sz \<le> q div ss * ss" "\<forall>i < sz. b ! (off + i) = b ! (q + i)" "q + sz \<le> length b"
    using assms(1) by (auto simp: copy_ok_def)
  have "q div ss * ss \<le> (q + k) div ss * ss"
    by (simp add: div_le_mono)
  then have "off + sz \<le> (q + k) div ss * ss"
    using c(1) by linarith
  then show ?thesis
    using c assms(2) by (auto simp: copy_ok_def add.assoc)
qed

lemma copy_bytes:
  assumes "hybrid a b ss k fl base" and "copy_ok a b ss q off sz" and "q div ss = k" and "n \<le> sz"
  shows "mread fl (base + off) n = window b q n"
proof (rule window_eqI)
  show "q + n \<le> length b"
    using assms(2,4) by (simp add: copy_ok_def)
  fix i
  assume "i < n"
  then have i: "i < sz"
    using assms(4) by simp
  have "fl (base + (off + i)) = b ! (q + i)"
  proof (cases "k * ss \<le> off \<and> off + sz \<le> length a \<and> (\<forall>i < sz. a ! (off + i) = b ! (q + i))")
    case True
    then show ?thesis
      using assms(1) i by (simp add: hybrid_def)
  next
    case False
    then have c: "off + sz \<le> k * ss" "\<forall>i < sz. b ! (off + i) = b ! (q + i)" "q + sz \<le> length b"
      using assms(2,3) by (auto simp: copy_ok_def)
    have "k * ss \<le> q"
      using assms(3) by auto
    then show ?thesis
      using assms(1) c i by (simp add: hybrid_def)
  qed
  then show "mread fl (base + off) n ! i = b ! (q + i)"
    using \<open>i < n\<close> by (simp add: add.assoc)
qed simp

lemma toks_ok_le: "toks_ok a b ss q ts q' \<Longrightarrow> q \<le> q'"
  by (induction ts arbitrary: q) (force)+

text \<open>Decoding a header.\<close>

lemma block_hdr_decode:
  assumes "off < 16777216" and "sz < 65536"
  shows "unat (block_hdr off sz ! 1) * 65536 + unat (block_hdr off sz ! 2) * 256 + unat (block_hdr off sz ! 3) = off"
    and "unat (block_hdr off sz ! 4) * 256 + unat (block_hdr off sz ! 5) = sz"
proof -
  have "off div 65536 < 256" "sz div 256 < 256"
    using assms by (simp_all add: div_less_iff_less_mult)
  moreover have "off div 256 div 256 = off div 65536"
    by (simp add: div_mult2_eq [symmetric])
  moreover have "off div 256 * 256 + off mod 256 = off"
    by (rule div_mult_mod_eq)
  moreover have "off div 256 div 256 * 256 + off div 256 mod 256 = off div 256"
    by (rule div_mult_mod_eq)
  moreover have "unat (block_hdr off sz ! 1) * 65536 + unat (block_hdr off sz ! 2) * 256 + unat (block_hdr off sz ! 3) =
      off div 65536 * 65536 + off div 256 mod 256 * 256 + off mod 256"
    using calculation(1) by (simp add: block_hdr_def unat_of_nat_byte)
  ultimately show "unat (block_hdr off sz ! 1) * 65536 + unat (block_hdr off sz ! 2) * 256 + unat (block_hdr off sz ! 3) = off"
    by linarith
  show "unat (block_hdr off sz ! 4) * 256 + unat (block_hdr off sz ! 5) = sz"
    using \<open>sz div 256 < 256\<close> div_mult_mod_eq [of sz 256] by (simp add: block_hdr_def unat_of_nat_byte)
qed

lemma block_hdr_not_ESC: "off < 16777216 \<Longrightarrow> off div 65536 \<noteq> 127 \<Longrightarrow> block_hdr off sz ! 1 \<noteq> ESC"
proof
  assume *: "off < 16777216" "off div 65536 \<noteq> 127" "block_hdr off sz ! 1 = ESC"
  then have "unat (of_nat (off div 65536) :: byte) = 127"
    by (simp add: block_hdr_def)
  moreover have "off div 65536 < 256"
    using *(1) by (simp add: div_less_iff_less_mult)
  ultimately show False
    using *(2) by (simp add: unat_of_nat_byte)
qed

subsection \<open>The patch loop\<close>

definition frame :: "patch_ctx \<Rightarrow> patch_ctx \<Rightarrow> bool" where
  "frame ctx ctx' \<longleftrightarrow> src_base ctx' = src_base ctx \<and> src_size ctx' = src_size ctx \<and>
     patch_base ctx' = patch_base ctx \<and> patch_size ctx' = patch_size ctx"

lemma frame_refl [simp]: "frame ctx ctx"
  by (simp add: frame_def)

lemma frame_trans: "frame ctx ctx1 \<Longrightarrow> frame ctx1 ctx2 \<Longrightarrow> frame ctx ctx2"
  by (simp add: frame_def)

lemma drop_length_le:
  assumes "drop p P = xs @ ys" and "xs \<noteq> []"
  shows "p + length xs \<le> length P"
proof -
  have "length P - p = length xs + length ys"
    using assms(1) by (metis length_append length_drop)
  moreover have "0 < length xs"
    using assms(2) by simp
  ultimately show ?thesis
    by linarith
qed

lemma patch_byte:
  assumes "mread fl pb (length P) = P" and "drop p P = xs @ ys" and "i < length xs"
  shows "fl (pb + p + i) = xs ! i"
proof -
  have "p + i < length P"
    using drop_length_le [OF assms(2)] assms(3) by fastforce
  then have "fl (pb + (p + i)) = P ! (p + i)"
    using assms(1) mread_nth [of "p + i" "length P" fl pb] by simp
  also have "\<dots> = drop p P ! i"
    using \<open>p + i < length P\<close> by simp
  finally show ?thesis
    using assms(2,3) by (simp add: nth_append add.assoc)
qed

lemma drop_add_append: "drop p P = xs @ ys \<Longrightarrow> drop (p + length xs) P = ys"
  by (metis add.commute append_eq_conv_conj drop_drop)

text \<open>One literal.\<close>

lemma patch_lit:
  assumes "mread fl (patch_base ctx) (length P) = P" and "patch_size ctx = length P"
    and "drop (p_off ctx) P = enc (Lit x) @ ys" and "\<not> matching ctx" and "length out < len"
  shows "wb_patch_loop False fl len ctx out =
    wb_patch_loop False fl len (ctx\<lparr>p_off := p_off ctx + length (enc (Lit x))\<rparr>) (out @ [x])"
proof -
  let ?p = "patch_base ctx + p_off ctx"
  have le: "p_off ctx + length (enc (Lit x)) \<le> length P"
    using assms(3) by (intro drop_length_le) auto
  have b0: "fl ?p = x"
    using patch_byte [OF assms(1,3), of 0] by (auto split: if_splits)
  have b1: "x = ESC \<Longrightarrow> fl (Suc ?p) = ESC"
    using patch_byte [OF assms(1,3), of 1] by auto
  show ?thesis
  proof (cases "x = ESC")
    case True
    then have "\<not> length P - p_off ctx < 2" "p_off ctx < length P"
      using le by simp_all
    then show ?thesis
      using True assms(2,4,5) b0 b1
      by (subst wb_patch_loop.simps) (simp add: patch_step_def patch_read_cache_def add_2_eq_Suc')
  next
    case False
    then show ?thesis
      using assms(2,4,5) le b0 by (subst wb_patch_loop.simps) (simp add: patch_step_def patch_read_cache_def)
  qed
qed

text \<open>One block: copied whole, or cut where the buffer is full.\<close>

lemma patch_copy:
  assumes "mread fl (patch_base ctx) (length P) = P" and "patch_size ctx = length P"
    and "drop (p_off ctx) P = enc (Copy off sz) @ ys" and "\<not> matching ctx" and "length out < len"
    and "off < 16777216" and "sz < 65536" and "off div 65536 \<noteq> 127"
  shows "wb_patch_loop False fl len ctx out =
    (case start_block fl len off sz ctx out of
       None \<Rightarrow> (-1, ctx, out) | Some (ctx, out) \<Rightarrow> wb_patch_loop False fl len ctx out)"
proof -
  let ?p = "patch_base ctx + p_off ctx"
  have le: "\<not> length P - p_off ctx < 6" "p_off ctx < length P"
    using drop_length_le [OF assms(3)] by (simp_all add: block_hdr_def)
  have b: "fl (?p + i) = block_hdr off sz ! i" if "i < 6" for i
    using patch_byte [OF assms(1,3), of i] that by (simp add: block_hdr_def)
  have b0: "fl ?p = ESC"
    using b [of 0] by (simp add: block_hdr_def)
  have b1: "fl (?p + 1) \<noteq> ESC"
    using b [of 1] block_hdr_not_ESC [OF assms(6,8)] by simp
  show ?thesis
    using assms(2,4,5) le b0 b1 b [of 1] b [of 2] b [of 3] b [of 4] b [of 5]
      block_hdr_decode [OF assms(6,7)]
    by (subst wb_patch_loop.simps) (simp add: patch_step_def patch_read_cache_def BLOCK_HDR_SIZE_def not_less
        split: option.split prod.split)
qed

lemma patch_full: "len \<le> length out \<Longrightarrow> wb_patch_loop ext fl len ctx out = (int (length out), ctx, out)"
  by (subst wb_patch_loop.simps) simp

lemma fits_block:
  "off + sz \<le> src_size ctx \<Longrightarrow> \<not> matching ctx \<Longrightarrow> length out < len \<Longrightarrow>
   start_block fl len off sz ctx out =
     (if sz > len - length out then
        Some (ctx\<lparr>matching := True, blk_off := off + (len - length out), blk_sz := sz - (len - length out),
                  p_off := p_off ctx + 6\<rparr>,
              out @ mread fl (src_base ctx + off) (len - length out))
      else Some (ctx\<lparr>blk_off := 0, p_off := p_off ctx + 6\<rparr>, out @ mread fl (src_base ctx + off) sz))"
  by (cases ctx) (simp add: start_block_def BLOCK_HDR_SIZE_def Let_def)

lemma patch_loop_toks:
  assumes fl: "hybrid a b ss k fl (src_base ctx)" "mread fl (patch_base ctx) (length P) = P"
    and sec: "k * ss \<le> q0" "q0 + len \<le> (k + 1) * ss" and "0 < ss"
  shows "patch_size ctx = length P \<Longrightarrow> p_off ctx \<le> length P \<Longrightarrow> \<not> matching ctx \<Longrightarrow>
    drop (p_off ctx) P = concat (map enc ts) \<Longrightarrow> \<forall>t\<in>set ts. fits (src_size ctx) t \<Longrightarrow>
    toks_ok a b ss (q0 + length out) ts (length b) \<Longrightarrow> length out \<le> len \<Longrightarrow> out = window b q0 (length out) \<Longrightarrow>
    \<exists>ctx' n. wb_patch_loop False fl len ctx out = (int n, ctx', window b q0 n) \<and> frame ctx ctx' \<and>
      n = min len (length b - q0) \<and> patch_state a b ss P ctx' (q0 + n)"
  using fl
proof (induction ts arbitrary: ctx out)
  case Nil
  then have "p_off ctx = length P" "q0 + length out = length b"
    by auto
  moreover from this have "patch_state a b ss P ctx (q0 + length out)"
    using Nil by (auto simp: patch_state_def intro!: exI [of _ "[]"])
  ultimately show ?case
    using Nil by (subst wb_patch_loop.simps) (intro exI [of _ ctx] exI [of _ "length out"], auto)
next
  case (Cons t ts)
  have q: "q0 + length out \<le> length b"
    using Cons.prems(6) by (rule toks_ok_le)
  show ?case
  proof (cases "length out < len")
    case False
    then have "length out = len" "wb_patch_loop False fl len ctx out = (int (length out), ctx, out)"
      using Cons.prems(7) patch_full [of len out] by simp_all
    moreover have "patch_state a b ss P ctx (q0 + length out)"
      using Cons.prems unfolding patch_state_def by (auto intro!: exI [of _ "t # ts"])
    ultimately show ?thesis
      using q Cons.prems(8) by (intro exI [of _ ctx] exI [of _ "length out"]) simp
  next
    case True
    have k: "(q0 + length out) div ss = k"
      using sec True assms(5) by (intro div_nat_eqI) (auto simp: mult.commute)
    have tok: "tok_ok a b ss (q0 + length out) t" "toks_ok a b ss (q0 + length out + tok_len t) ts (length b)"
      using Cons.prems(6) by simp_all
    have d: "drop (p_off ctx) P = enc t @ concat (map enc ts)"
      using Cons.prems(4) by simp
    have ne: "enc t \<noteq> []"
      by (cases t) (simp_all add: block_hdr_def)
    note d' = drop_add_append [OF d] drop_length_le [OF d ne]
    show ?thesis
    proof (cases t)
      case (Lit x)
      let ?ctx = "ctx\<lparr>p_off := p_off ctx + length (enc t)\<rparr>"
      have out: "out @ [x] = window b q0 (length (out @ [x]))"
        using Cons.prems(8) tok(1) Lit window_add [of b q0 "length out" 1] by (simp add: window_Suc)
      have "\<exists>ctx' n. wb_patch_loop False fl len ?ctx (out @ [x]) = (int n, ctx', window b q0 n) \<and>
          frame ?ctx ctx' \<and> n = min len (length b - q0) \<and> patch_state a b ss P ctx' (q0 + n)"
        using Cons.prems True tok(2) d' Lit by (intro Cons.IH [OF _ _ _ _ _ _ _ out]) simp_all
      then show ?thesis
        using patch_lit [OF Cons.prems(10,1) d [unfolded Lit] Cons.prems(3) True] Lit
        by (simp add: frame_def)
    next
      case (Copy off sz)
      have c: "off < 16777216" "sz < 65536" "off div 65536 \<noteq> 127" "copy_ok a b ss (q0 + length out) off sz" "0 < sz"
        "off + sz \<le> src_size ctx"
        using tok(1) Copy Cons.prems(5) by simp_all
      note bytes = copy_bytes [OF Cons.prems(9) c(4) k]
      note step = patch_copy [OF Cons.prems(10,1) d [unfolded Copy] Cons.prems(3) True c(1-3)]
      have len: "length (enc t) = 6"
        by (simp add: Copy block_hdr_def)
      show ?thesis
      proof (cases "sz > len - length out")
        case True
        let ?r = "len - length out"
        let ?ctx = "ctx\<lparr>matching := True, blk_off := off + ?r, blk_sz := sz - ?r, p_off := p_off ctx + 6\<rparr>"
        have "copy_ok a b ss (q0 + length out + ?r) (off + ?r) (sz - ?r)"
          using c(4) True assms(5) by (rule copy_ok_shift)
        moreover have "q0 + length out + ?r = q0 + len"
          using \<open>length out < len\<close> by simp
        ultimately have "patch_state a b ss P ?ctx (q0 + len)"
          using Cons.prems(1,5) d' tok(2) True c(5,6) len Copy unfolding patch_state_def
          by (auto simp: ac_simps intro!: exI [of _ ts])
        moreover have "window b q0 len = out @ mread fl (src_base ctx + off) ?r"
          using window_add [of b q0 "length out" ?r] Cons.prems(7,8) bytes [of ?r] True by simp
        moreover from this have "wb_patch_loop False fl len ctx out = (int len, ?ctx, window b q0 len)"
          using step True \<open>length out < len\<close> Cons.prems(3) c(6) by (simp add: fits_block patch_full)
        moreover have "q0 + length out + sz \<le> length b"
          using c(4) by (simp add: copy_ok_def)
        then have "q0 + len \<le> length b"
          using True \<open>length out < len\<close> by linarith
        ultimately show ?thesis
          by (intro exI [of _ ?ctx] exI [of _ len]) (simp add: frame_def)
      next
        case False
        let ?ctx = "ctx\<lparr>blk_off := 0, p_off := p_off ctx + 6\<rparr>"
        let ?out = "out @ mread fl (src_base ctx + off) sz"
        have out: "?out = window b q0 (length ?out)"
        proof -
          have "?out = window b q0 (length out + sz)"
            using Cons.prems(8) window_add [of b q0 "length out" sz] bytes [of sz] by simp
          moreover have "length ?out = length out + sz"
            by simp
          ultimately show ?thesis
            by argo
        qed
        have "\<exists>ctx' n. wb_patch_loop False fl len ?ctx ?out = (int n, ctx', window b q0 n) \<and>
            frame ?ctx ctx' \<and> n = min len (length b - q0) \<and> patch_state a b ss P ctx' (q0 + n)"
          using Cons.prems False True tok(2) d' len Copy
          by (intro Cons.IH [OF _ _ _ _ _ _ _ out]) (simp_all add: add.assoc)
        then show ?thesis
          using step False \<open>length out < len\<close> Cons.prems(3) c(6) by (simp add: fits_block frame_def)
      qed
    qed
  qed
qed

text \<open>One call, whatever the state of a block cut by the previous one.\<close>

lemma wb_patch_ok:
  assumes st: "patch_state a b ss P ctx q"
    and fl: "hybrid a b ss k fl (src_base ctx)" "mread fl (patch_base ctx) (length P) = P"
    and sec: "k * ss \<le> q" "q + len \<le> (k + 1) * ss" "0 < ss" "6 \<le> len" and q: "q \<le> length b"
  shows "\<exists>ctx' n. wb_patch False fl ctx len = (int n, ctx', window b q n) \<and> frame ctx ctx' \<and>
      n = min len (length b - q) \<and> patch_state a b ss P ctx' (q + n)"
proof -
  obtain ts where ts: "drop (p_off ctx) P = concat (map enc ts)" "\<forall>t\<in>set ts. fits (src_size ctx) t"
    and sz: "patch_size ctx = length P" "p_off ctx \<le> length P"
    and m: "if matching ctx then
        0 < blk_sz ctx \<and> blk_off ctx + blk_sz ctx \<le> src_size ctx \<and>
        copy_ok a b ss q (blk_off ctx) (blk_sz ctx) \<and> toks_ok a b ss (q + blk_sz ctx) ts (length b)
      else toks_ok a b ss q ts (length b)"
    using st by (auto simp: patch_state_def)
  have patch: "wb_patch False fl ctx len = wb_patch_loop False fl len ctx []"
    using sec(4) by (simp add: wb_patch_def BLOCK_HDR_SIZE_def)
  show ?thesis
  proof (cases "matching ctx")
    case False
    then show ?thesis
      using patch_loop_toks [OF fl sec(1,2,3) sz False ts, of "[]"] m patch by simp
  next
    case True
    then have c: "0 < blk_sz ctx" "blk_off ctx + blk_sz ctx \<le> src_size ctx"
      "copy_ok a b ss q (blk_off ctx) (blk_sz ctx)" "toks_ok a b ss (q + blk_sz ctx) ts (length b)"
      using m by simp_all
    have k: "q div ss = k"
      using sec by (intro div_nat_eqI) (auto simp: mult.commute)
    note bytes = copy_bytes [OF fl(1) c(3) k]
    show ?thesis
    proof (cases "blk_sz ctx > len")
      case True
      let ?ctx = "ctx\<lparr>blk_sz := blk_sz ctx - len, blk_off := blk_off ctx + len\<rparr>"
      have "patch_state a b ss P ?ctx (q + len)"
        using copy_ok_shift [OF c(3) True sec(3)] c True ts sz \<open>matching ctx\<close> unfolding patch_state_def
        by (auto intro!: exI [of _ ts])
      moreover have le: "q + len \<le> length b" "\<not> src_size ctx - blk_off ctx < len"
        using c(2,3) True by (auto simp: copy_ok_def)
      moreover have "wb_patch_loop False fl len ctx [] = (int len, ?ctx, window b q len)"
        using True c(2) \<open>matching ctx\<close> bytes [of len] sec(4) le
        by (subst wb_patch_loop.simps) (simp add: patch_step_def patch_read_cache_def resume_block_def patch_full)
      ultimately show ?thesis
        using patch by (intro exI [of _ ?ctx] exI [of _ len]) (simp add: frame_def)
    next
      case False
      let ?ctx = "ctx\<lparr>blk_off := 0, blk_sz := 0, matching := False\<rparr>"
      let ?out = "mread fl (src_base ctx + blk_off ctx) (blk_sz ctx)"
      have le: "\<not> src_size ctx < blk_off ctx" "\<not> src_size ctx - blk_off ctx < blk_sz ctx"
        using c(2) by simp_all
      have qb: "q + blk_sz ctx \<le> length b"
        using c(3) by (simp add: copy_ok_def)
      have "wb_patch_loop False fl len ctx [] = wb_patch_loop False fl len ?ctx ?out"
        using False \<open>matching ctx\<close> sec(4) le
        by (subst wb_patch_loop.simps) (simp add: patch_step_def patch_read_cache_def resume_block_def Let_def)
      moreover have "\<exists>ctx' n. wb_patch_loop False fl len ?ctx ?out = (int n, ctx', window b q n) \<and>
          frame ?ctx ctx' \<and> n = min len (length b - q) \<and> patch_state a b ss P ctx' (q + n)"
        using fl sec sz ts c False bytes [of "blk_sz ctx"] qb
        by (intro patch_loop_toks [of a b ss k fl ?ctx P q len ts ?out]) simp_all
      ultimately show ?thesis
        using patch by (simp add: frame_def)
    qed
  qed
qed

subsection \<open>Patching sector by sector\<close>

lemma wb_patch_loop_ret: "wb_patch_loop ext fl len ctx out = (r, ctx', out') \<Longrightarrow> r = -1 \<or> r = int (length out')"
proof (induction ext fl len ctx out rule: wb_patch_loop.induct)
  case (1 ext fl len ctx out)
  then show ?case
    using wb_patch_loop.simps [of ext fl len ctx out]
    by (cases "patch_step ext fl len ctx out") (auto split: if_splits)
qed

lemma wb_patch_ret: "wb_patch ext fl ctx len = (r, ctx', out) \<Longrightarrow> r = -1 \<or> r = int (length out)"
  using wb_patch_loop_ret by (auto simp: wb_patch_def split: if_splits)

text \<open>
  The two loops of \<open>wolfBoot_delta_update\<close>, reduced to their effect on the source: a sector
  is filled by calls of \<open>wb_patch\<close> for blocks of \<open>blk\<close> bytes, and then replaces the source
  sector.
\<close>

function patch_fill ::
  "bool \<Rightarrow> mem \<Rightarrow> nat \<Rightarrow> nat \<Rightarrow> patch_ctx \<Rightarrow> byte list \<Rightarrow> (patch_ctx \<times> byte list) option" where
  "patch_fill ext fl ss blk ctx acc =
     (if length acc < ss then
        (case wb_patch ext fl ctx blk of
           (ret, ctx, out) \<Rightarrow>
             if ret > 0 then patch_fill ext fl ss blk ctx (acc @ out)
             else if ret = 0 then Some (ctx, acc) else None)
      else Some (ctx, acc))"
  by pat_completeness auto
termination
  by (relation "measure (\<lambda>(ext, fl, ss, blk, ctx, acc). ss - length acc)")
     (auto dest!: wb_patch_ret [OF sym] simp: diff_less_mono2)

declare patch_fill.simps [simp del]

fun patch_sectors ::
  "bool \<Rightarrow> nat \<Rightarrow> nat \<Rightarrow> nat \<Rightarrow> nat \<Rightarrow> patch_ctx \<Rightarrow> mem \<Rightarrow> mem option" where
  "patch_sectors ext ss blk k 0 ctx fl = Some fl"
| "patch_sectors ext ss blk k (Suc n) ctx fl =
     (case patch_fill ext fl ss blk ctx [] of
        None \<Rightarrow> None
      | Some (ctx, data) \<Rightarrow>
          patch_sectors ext ss blk (k + 1) n ctx (mwrite fl (src_base ctx + k * ss) data))"

lemma wb_patch_done:
  assumes "patch_state a b ss P ctx (length b)" and "6 \<le> len"
  shows "wb_patch False fl ctx len = (0, ctx, [])"
proof -
  obtain ts where ts: "drop (p_off ctx) P = concat (map enc ts)" "patch_size ctx = length P" "p_off ctx \<le> length P"
    and m: "if matching ctx then 0 < blk_sz ctx \<and> copy_ok a b ss (length b) (blk_off ctx) (blk_sz ctx)
      else toks_ok a b ss (length b) ts (length b)"
    using assms(1) by (auto simp: patch_state_def split: if_splits)
  have "\<not> matching ctx"
    using m by (auto simp: copy_ok_def)
  moreover have "ts = []"
  proof (cases ts)
    case (Cons t ts')
    then have "tok_ok a b ss (length b) t"
      using m calculation by simp
    then show ?thesis
      by (cases t) (auto simp: copy_ok_def)
  qed
  then have "p_off ctx = length P"
    using ts by simp
  ultimately show ?thesis
    using assms(2) ts(2) by (simp add: wb_patch_def BLOCK_HDR_SIZE_def, subst wb_patch_loop.simps) simp
qed

lemma patch_fill_ok:
  assumes "0 < ss" "6 \<le> blk" "ss = j * blk" "k * ss \<le> length b"
  shows "patch_state a b ss P ctx (k * ss + i * blk) \<Longrightarrow> hybrid a b ss k fl (src_base ctx) \<Longrightarrow>
    mread fl (patch_base ctx) (length P) = P \<Longrightarrow> i \<le> j \<Longrightarrow> k * ss + i * blk \<le> length b \<Longrightarrow>
    acc = window b (k * ss) (i * blk) \<Longrightarrow>
    \<exists>ctx' n. patch_fill False fl ss blk ctx acc = Some (ctx', window b (k * ss) n) \<and> frame ctx ctx' \<and>
      n = min ss (length b - k * ss) \<and> patch_state a b ss P ctx' (k * ss + n)"
proof (induction "j - i" arbitrary: i ctx acc)
  case 0
  then show ?case
    using assms by (subst patch_fill.simps) (auto simp: frame_def)
next
  case (Suc d)
  have "i * blk + blk \<le> ss"
    using Suc.hyps(2) assms(3) mult_le_mono1 [of "i + 1" j blk] by (simp add: add.commute)
  then have len: "length acc < ss" "k * ss + i * blk + blk \<le> (k + 1) * ss"
    using Suc.prems(5,6) assms(2) by simp_all
  obtain ctx1 n1 where p: "wb_patch False fl ctx blk = (int n1, ctx1, window b (k * ss + i * blk) n1)"
    "frame ctx ctx1" "n1 = min blk (length b - (k * ss + i * blk))"
    "patch_state a b ss P ctx1 (k * ss + i * blk + n1)"
    using wb_patch_ok [OF Suc.prems(1-3) _ len(2) assms(1,2) Suc.prems(5)] by auto
  have acc: "acc @ window b (k * ss + i * blk) n1 = window b (k * ss) (i * blk + n1)"
    using Suc.prems(6) window_add [of b "k * ss" "i * blk" n1] by simp
  show ?case
  proof (cases "n1 = blk")
    case True
    have "\<exists>ctx' n. patch_fill False fl ss blk ctx1 (acc @ window b (k * ss + i * blk) n1) =
        Some (ctx', window b (k * ss) n) \<and> frame ctx1 ctx' \<and> n = min ss (length b - k * ss) \<and>
        patch_state a b ss P ctx' (k * ss + n)"
    proof (rule Suc.hyps(1) [of "i + 1"])
      show "hybrid a b ss k fl (src_base ctx1)" "mread fl (patch_base ctx1) (length P) = P"
        using Suc.prems(2,3) p(2) by (simp_all add: frame_def)
      show "k * ss + (i + 1) * blk \<le> length b"
        using True p(3) Suc.prems(5) assms(2) by simp
    qed (use Suc.hyps(2) Suc.prems p(4) True acc in \<open>simp_all add: ac_simps\<close>)
    then show ?thesis
      using p(1,2) len(1) True assms(2) frame_trans [OF p(2)] by (subst patch_fill.simps) auto
  next
    case False
    then have n1: "k * ss + i * blk + n1 = length b" "n1 < blk"
      using p(3) Suc.prems(5) by auto
    have fin: "i * blk + n1 = min ss (length b - k * ss)"
      using n1 \<open>i * blk + blk \<le> ss\<close> by simp
    have nil: "wb_patch False fl ctx1 blk = (0, ctx1, [])"
      using p(4) n1(1) assms(2) by (intro wb_patch_done) simp_all
    have "patch_fill False fl ss blk ctx1 (window b (k * ss) (i * blk + n1)) =
        Some (ctx1, window b (k * ss) (i * blk + n1))"
      using nil by (subst patch_fill.simps) simp
    then have "patch_fill False fl ss blk ctx acc = Some (ctx1, window b (k * ss) (i * blk + n1))"
      using p(1) len(1) acc by (subst patch_fill.simps) auto
    then show ?thesis
      using p(2,4) fin by (intro exI [of _ ctx1] exI [of _ "i * blk + n1"]) (simp add: add.assoc)
  qed
qed

lemma patch_fill_any:
  assumes "0 < ss" "6 \<le> blk" "ss = j * blk"
    and st: "patch_state a b ss P ctx (min (k * ss) (length b))" and "hybrid a b ss k fl (src_base ctx)"
    and "mread fl (patch_base ctx) (length P) = P"
  shows "\<exists>ctx' n. patch_fill False fl ss blk ctx [] = Some (ctx', window b (k * ss) n) \<and> frame ctx ctx' \<and>
      n = min ss (length b - k * ss) \<and> patch_state a b ss P ctx' (min ((k + 1) * ss) (length b))"
proof (cases "k * ss \<le> length b")
  case True
  then show ?thesis
    using patch_fill_ok [OF assms(1-3) True, of a P ctx 0 fl "[]"] st assms(5,6)
    by (auto simp: min_def add.commute)
next
  case False
  then have "patch_state a b ss P ctx (length b)"
    using st by simp
  then have "patch_fill False fl ss blk ctx [] = Some (ctx, [])"
    using wb_patch_done assms(1,2) by (subst patch_fill.simps) simp
  then show ?thesis
    using False \<open>patch_state a b ss P ctx (length b)\<close>
    by (intro exI [of _ ctx] exI [of _ 0]) (simp add: min_def)
qed

lemma hybrid_step:
  assumes "hybrid a b ss k fl base" and "n = min ss (length b - k * ss)"
  shows "hybrid a b ss (k + 1) (mwrite fl (base + k * ss) (window b (k * ss) n)) base"
proof -
  have len: "length (window b (k * ss) n) = n"
    using assms(2) by (simp add: window_def)
  have "mwrite fl (base + k * ss) (window b (k * ss) n) (base + i) = b ! i" if "i < min ((k + 1) * ss) (length b)" for i
  proof (cases "i < k * ss")
    case True
    then show ?thesis
      using assms(1) that len by (simp add: hybrid_def mem_simps)
  next
    case False
    then have "i - k * ss < n" "k * ss \<le> i" "i < k * ss + n"
      using that assms(2) by auto
    then show ?thesis
      using that len by (simp add: mem_simps) (simp add: window_def)
  qed
  moreover have "mwrite fl (base + k * ss) (window b (k * ss) n) (base + i) = a ! i"
    if "(k + 1) * ss \<le> i" "i < length a" for i
  proof -
    have "k * ss + n \<le> i" "k * ss \<le> i"
      using that(1) assms(2) by auto
    then show ?thesis
      using assms(1) that(2) len by (simp add: hybrid_def mem_simps)
  qed
  ultimately show ?thesis
    by (simp add: hybrid_def)
qed

lemma patch_sectors_ok:
  assumes "0 < ss" "6 \<le> blk" "ss = j * blk"
  shows "patch_state a b ss P ctx (min (k * ss) (length b)) \<Longrightarrow> hybrid a b ss k fl (src_base ctx) \<Longrightarrow>
    mread fl (patch_base ctx) (length P) = P \<Longrightarrow>
    patch_base ctx + length P \<le> src_base ctx \<or> src_base ctx + (k + n) * ss \<le> patch_base ctx \<Longrightarrow>
    \<exists>fl'. patch_sectors False ss blk k n ctx fl = Some fl' \<and> hybrid a b ss (k + n) fl' (src_base ctx) \<and>
      same_outside (src_base ctx + k * ss) (n * ss) fl fl'"
proof (induction n arbitrary: k ctx fl)
  case 0
  then show ?case
    by (simp add: same_outside_def)
next
  case (Suc n)
  obtain ctx1 m where p: "patch_fill False fl ss blk ctx [] = Some (ctx1, window b (k * ss) m)" "frame ctx ctx1"
    "m = min ss (length b - k * ss)" "patch_state a b ss P ctx1 (min ((k + 1) * ss) (length b))"
    using patch_fill_any [OF assms Suc.prems(1-3)] by blast
  have base: "src_base ctx1 = src_base ctx" "patch_base ctx1 = patch_base ctx"
    using p(2) by (simp_all add: frame_def)
  let ?fl = "mwrite fl (src_base ctx + k * ss) (window b (k * ss) m)"
  have len: "length (window b (k * ss) m) \<le> ss"
    using p(3) by (simp add: window_def)
  have out: "same_outside (src_base ctx + k * ss) ss fl ?fl"
    using len by (auto simp: same_outside_def mem_simps)
  have "src_base ctx + (k + Suc n) * ss = src_base ctx + k * ss + ss + n * ss"
    by (simp add: algebra_simps)
  then have "patch_base ctx + length P \<le> src_base ctx + k * ss \<or> src_base ctx + k * ss + ss \<le> patch_base ctx"
    using Suc.prems(4) by linarith
  then have "mread ?fl (patch_base ctx) (length P) = mread fl (patch_base ctx) (length P)"
    using len by (intro mread_cong) (auto simp: mem_simps)
  moreover have "hybrid a b ss (k + 1) ?fl (src_base ctx1)"
    using hybrid_step [OF Suc.prems(2) p(3)] base by simp
  ultimately obtain fl' where "patch_sectors False ss blk (k + 1) n ctx1 ?fl = Some fl'"
    "hybrid a b ss (k + 1 + n) fl' (src_base ctx1)" "same_outside (src_base ctx1 + (k + 1) * ss) (n * ss) ?fl fl'"
    using Suc.IH [OF p(4)] Suc.prems(3,4) base by auto
  then show ?case
    using p(1) base out by (auto simp: same_outside_def algebra_simps)
qed

subsection \<open>The round trip\<close>

text \<open>
  Blocks taken from the new image reach up to the sector that is being written; the patch
  code accepts them only within the size of the source it was given.
\<close>

lemma toks_fit:
  "toks_ok a b ss q ts (length b) \<Longrightarrow> length a \<le> S \<Longrightarrow> length b \<le> S \<Longrightarrow> \<forall>t\<in>set ts. fits S t"
proof (induction ts arbitrary: q)
  case (Cons t ts)
  have "fits S t"
  proof (cases t)
    case (Copy off sz)
    then have "copy_ok a b ss q off sz"
      using Cons.prems(1) by simp
    moreover have "q div ss * ss \<le> q"
      by simp
    ultimately have "off + sz \<le> S"
      using Cons.prems(2,3) unfolding copy_ok_def by linarith
    then show ?thesis
      using Copy by simp
  qed simp
  then show ?case
    using Cons by auto
qed simp

lemma roundtrip:
  assumes ss: "6 \<le> ss" "ss < 65536" and blk: "ss = j * blk" "6 \<le> blk" and blksz: "7 < blksz"
    and len: "length a \<le> 2 ^ 24" "length b \<le> 2 ^ 24" "length a \<le> S" "length b \<le> S" "0 < S" "0 < length b"
    and n: "length b \<le> n * ss"
  shows "\<exists>P. base_diff_loop a b ss blksz 0 [] = Some P \<and>
    (\<forall>src patch fl. mread fl src (length a) = a \<longrightarrow> mread fl patch (length P) = P \<longrightarrow>
       patch + length P \<le> src \<or> src + n * ss \<le> patch \<longrightarrow>
       (\<exists>ctx fl'. wb_patch_init False src S patch (length P) = Some ctx \<and>
          patch_sectors False ss blk 0 n ctx fl = Some fl' \<and> mread fl' src (length b) = b \<and>
          same_outside src (n * ss) fl fl'))"
proof -
  have ss0: "0 < ss"
    using ss(1) by simp
  obtain P where P: "base_diff_loop a b ss blksz 0 [] = Some P" "emits a b ss 0 P (length b)"
    using base_diff_emits [OF ss blksz len(1,2) emits_Nil] by auto
  obtain ts where ts: "P = concat (map enc ts)" "toks_ok a b ss 0 ts (length b)"
    using P(2) by (auto simp: emits_def)
  have "ts \<noteq> []"
    using ts(2) len(6) by auto
  then have P0: "0 < length P"
    by (cases ts; cases "hd ts") (auto simp: ts(1) block_hdr_def)
  have "\<exists>ctx fl'. wb_patch_init False src S patch (length P) = Some ctx \<and>
      patch_sectors False ss blk 0 n ctx fl = Some fl' \<and> mread fl' src (length b) = b \<and>
      same_outside src (n * ss) fl fl'"
    if fl: "mread fl src (length a) = a" "mread fl patch (length P) = P"
      "patch + length P \<le> src \<or> src + n * ss \<le> patch" for src patch fl
  proof -
    let ?ctx = "\<lparr>src_base = src, src_size = S, patch_base = patch, patch_size = length P, p_off = 0,
        matching = False, blk_sz = 0, blk_off = 0, patch_cache = (\<lambda>_. 0), patch_cache_start = 0\<rparr>"
    have init: "wb_patch_init False src S patch (length P) = Some ?ctx"
      using P0 len(5) by (simp add: wb_patch_init_def)
    have "patch_state a b ss P ?ctx (min (0 * ss) (length b))"
      using ts toks_fit [OF ts(2) len(3,4)] by (auto simp: patch_state_def)
    moreover have "hybrid a b ss 0 fl (src_base ?ctx)"
      using fl(1) mread_nth [of _ "length a" fl src] by (auto simp: hybrid_def)
    ultimately obtain fl' where fl': "patch_sectors False ss blk 0 n ?ctx fl = Some fl'"
      "hybrid a b ss (0 + n) fl' (src_base ?ctx)" "same_outside (src_base ?ctx + 0 * ss) (n * ss) fl fl'"
      using patch_sectors_ok [OF ss0 blk(2,1), of a b P ?ctx 0 fl n] fl(2,3) by auto
    have "mread fl' src (length b) = b"
      using fl'(2) n by (intro nth_equalityI) (auto simp: hybrid_def min_def)
    then show ?thesis
      using init fl' by auto
  qed
  then show ?thesis
    using P(1) by blast
qed

end
