(* ===== verification/Delta_Props.thy ===== *)
theory Delta_Props
  imports Patch
begin

text \<open>
  What the patch code may rely on and what it promises: the cache of external flash is
  transparent, the buffers and ranges are respected, and a patch made by the sign tool turns
  the old image into the new one.
\<close>

subsection \<open>What the patch code reads\<close>

text \<open>
  Two runs of the patch loop, with or without the cache, agree if the flash agrees on the
  source and on the patch.
\<close>

definition core :: "patch_ctx \<Rightarrow> patch_ctx" where
  "core ctx = ctx\<lparr>patch_cache := (\<lambda>_. 0), patch_cache_start := 0\<rparr>"

definition cache_ok :: "bool \<Rightarrow> mem \<Rightarrow> patch_ctx \<Rightarrow> bool" where
  "cache_ok ext fl ctx \<longleftrightarrow> ext \<longrightarrow>
     patch_size ctx + DELTA_PATCH_BLOCK_SIZE < 2 ^ 32 \<and>
     (patch_cache_start ctx = 0xFFFFFFFF \<or>
      patch_cache_start ctx \<le> p_off ctx \<and>
      (\<forall>i < DELTA_PATCH_BLOCK_SIZE. patch_cache_start ctx + i < patch_size ctx \<longrightarrow>
         patch_cache ctx i = fl (patch_base ctx + patch_cache_start ctx + i)))"

definition agree :: "mem \<Rightarrow> mem \<Rightarrow> patch_ctx \<Rightarrow> bool" where
  "agree fl fl' ctx \<longleftrightarrow>
     (\<forall>i < src_size ctx. fl (src_base ctx + i) = fl' (src_base ctx + i)) \<and>
     (\<forall>i < patch_size ctx. fl (patch_base ctx + i) = fl' (patch_base ctx + i))"

lemma core_eq_iff:
  "core c = core c' \<longleftrightarrow>
   src_base c = src_base c' \<and> src_size c = src_size c' \<and> patch_base c = patch_base c' \<and>
   patch_size c = patch_size c' \<and> p_off c = p_off c' \<and> matching c = matching c' \<and>
   blk_sz c = blk_sz c' \<and> blk_off c = blk_off c'"
  by (cases c; cases c') (simp add: core_def)

text \<open>A valid cache serves the next six bytes of the patch.\<close>

lemma read_cache_hit:
  assumes "patch_read_cache True fl ctx = (c1, pp)" and "cache_ok True fl ctx" and "p_off ctx < patch_size ctx"
    and hit: "patch_cache_start ctx \<noteq> 0xFFFFFFFF" "p_off ctx < patch_cache_start ctx + 1018"
  shows "\<forall>i<6. p_off ctx + i < patch_size ctx \<longrightarrow> pp i = fl (patch_base ctx + p_off ctx + i)"
proof -
  let ?st = "patch_cache_start ctx"
  have c: "?st \<le> p_off ctx" "\<And>i. i < 1024 \<Longrightarrow> ?st + i < patch_size ctx \<Longrightarrow> patch_cache ctx i = fl (patch_base ctx + ?st + i)"
    "patch_size ctx + 1024 < 2 ^ 32"
    using assms(2) hit by (auto simp: cache_ok_def DELTA_PATCH_BLOCK_SIZE_def)
  have "u32 (?st + 1018) = ?st + 1018"
    using c(1,3) assms(3) by (intro u32_id) simp
  then have "pp = (\<lambda>i. patch_cache ctx (p_off ctx - ?st + i))"
    using assms(1) hit
    by (auto simp: patch_read_cache_def DELTA_PATCH_BLOCK_SIZE_def BLOCK_HDR_SIZE_def split: if_splits)
  moreover have "patch_cache ctx (p_off ctx - ?st + i) = fl (patch_base ctx + p_off ctx + i)"
    if "i < 6" "p_off ctx + i < patch_size ctx" for i
  proof -
    have "p_off ctx - ?st + i < 1024" "?st + (p_off ctx - ?st + i) < patch_size ctx"
      using c(1) hit that by linarith+
    from c(2) [OF this] show ?thesis
      using c(1) by (simp add: add.assoc)
  qed
  ultimately show ?thesis
    by simp
qed

lemma read_cache_ok:
  assumes "patch_read_cache ext fl ctx = (c1, pp)" and "cache_ok ext fl ctx" and "p_off ctx < patch_size ctx"
  shows "\<forall>i<6. p_off ctx + i < patch_size ctx \<longrightarrow> pp i = fl (patch_base ctx + p_off ctx + i)"
proof (cases "ext \<and> patch_cache_start ctx \<noteq> 0xFFFFFFFF \<and> p_off ctx < patch_cache_start ctx + 1018")
  case True
  then show ?thesis
    using read_cache_hit [of fl ctx c1 pp] assms by simp
next
  case False
  have "patch_cache_start ctx \<noteq> 0xFFFFFFFF \<Longrightarrow> ext \<Longrightarrow> u32 (patch_cache_start ctx + 1018) = patch_cache_start ctx + 1018"
    using assms(2,3) by (intro u32_id) (auto simp: cache_ok_def DELTA_PATCH_BLOCK_SIZE_def)
  then show ?thesis
    using assms(1) False
    by (auto simp: patch_read_cache_def DELTA_PATCH_BLOCK_SIZE_def BLOCK_HDR_SIZE_def Let_def split: if_splits)
qed

lemma read_cache_core: "patch_read_cache ext fl ctx = (c1, pp) \<Longrightarrow> core c1 = core ctx"
  by (auto simp: core_eq_iff dest: patch_read_cache_fields)

lemma read_cache_keeps:
  "patch_read_cache ext fl ctx = (c1, pp) \<Longrightarrow> cache_ok ext fl ctx \<Longrightarrow> p_off ctx \<le> patch_size ctx \<Longrightarrow> cache_ok ext fl c1"
  by (auto simp: patch_read_cache_def cache_ok_def DELTA_PATCH_BLOCK_SIZE_def Let_def split: if_splits)

lemma cache_ok_upd:
  "cache_ok ext fl c \<Longrightarrow> patch_cache d = patch_cache c \<Longrightarrow> patch_cache_start d = patch_cache_start c \<Longrightarrow>
   patch_base d = patch_base c \<Longrightarrow> patch_size d = patch_size c \<Longrightarrow> p_off c \<le> p_off d \<Longrightarrow> cache_ok ext fl d"
  by (auto simp: cache_ok_def)

text \<open>The two runs.\<close>

definition twins :: "bool \<Rightarrow> mem \<Rightarrow> bool \<Rightarrow> mem \<Rightarrow> patch_ctx \<Rightarrow> patch_ctx \<Rightarrow> bool" where
  "twins ext fl ext' fl' c c' \<longleftrightarrow>
     core c = core c' \<and> cache_ok ext fl c \<and> cache_ok ext' fl' c' \<and> agree fl fl' c \<and> p_off c \<le> patch_size c"

lemma twins_upd:
  assumes "twins ext fl ext' fl' c c'" and "core d = core d'" and "p_off c \<le> p_off d" "p_off d \<le> patch_size d"
    and "frame c d" and "patch_cache d = patch_cache c" "patch_cache_start d = patch_cache_start c"
    and "patch_cache d' = patch_cache c'" "patch_cache_start d' = patch_cache_start c'"
  shows "twins ext fl ext' fl' d d'"
proof -
  have "cache_ok ext fl d"
    using assms by (intro cache_ok_upd [of ext fl c d]) (auto simp: twins_def frame_def)
  moreover have "cache_ok ext' fl' d'"
    using assms by (intro cache_ok_upd [of ext' fl' c' d']) (auto simp: twins_def frame_def core_eq_iff)
  ultimately show ?thesis
    using assms(1,2,4,5) by (simp add: twins_def agree_def frame_def)
qed

lemma twins_read:
  assumes "twins ext fl ext' fl' c c'" and "patch_read_cache ext fl c = (d, pp)" "patch_read_cache ext' fl' c' = (d', pp')"
  shows "twins ext fl ext' fl' d d'"
    and "\<And>i. p_off c < patch_size c \<Longrightarrow> i < 6 \<Longrightarrow> p_off c + i < patch_size c \<Longrightarrow> pp' i = pp i"
proof -
  have "p_off c' \<le> patch_size c'"
    using assms(1) by (simp add: twins_def core_eq_iff)
  then show "twins ext fl ext' fl' d d'"
    using assms read_cache_keeps [OF assms(2)] read_cache_keeps [OF assms(3)]
      read_cache_core [OF assms(2)] read_cache_core [OF assms(3)] patch_read_cache_fields [OF assms(2)]
    by (simp add: twins_def agree_def)
  show "pp' i = pp i" if "p_off c < patch_size c" "i < 6" "p_off c + i < patch_size c" for i
  proof -
    have "pp i = fl (patch_base c + (p_off c + i))" "pp' i = fl' (patch_base c + (p_off c + i))"
      using read_cache_ok [OF assms(2)] read_cache_ok [OF assms(3)] assms(1) that
      by (simp_all add: twins_def core_eq_iff add.assoc)
    then show ?thesis
      using assms(1) that(3) by (simp add: twins_def agree_def)
  qed
qed

lemma mread_agree:
  "agree fl fl' c \<Longrightarrow> off + n \<le> src_size c \<Longrightarrow> mread fl (src_base c + off) n = mread fl' (src_base c + off) n"
  by (intro mread_cong) (simp add: agree_def add.assoc)

lemma twins_fields:
  assumes "twins ext fl ext' fl' c c'"
  shows "src_base c' = src_base c" "src_size c' = src_size c" "patch_base c' = patch_base c"
    "patch_size c' = patch_size c" "p_off c' = p_off c" "matching c' = matching c" "blk_sz c' = blk_sz c"
    "blk_off c' = blk_off c"
  using assms by (simp_all add: twins_def core_eq_iff)

lemma twins_resume:
  assumes "twins ext fl ext' fl' c c'"
  shows "case resume_block fl len c out of
      None \<Rightarrow> resume_block fl' len c' out = None
    | Some (d, o1) \<Rightarrow> \<exists>d'. resume_block fl' len c' out = Some (d', o1) \<and> twins ext fl ext' fl' d d'"
proof -
  let ?n = "if blk_sz c > len then len else blk_sz c"
  let ?d = "\<lambda>c. if blk_sz c > len then c\<lparr>blk_sz := blk_sz c - len, blk_off := blk_off c + len\<rparr>
      else c\<lparr>blk_off := 0, blk_sz := 0, matching := False\<rparr>"
  note eq = twins_fields [OF assms]
  show ?thesis
  proof (cases "blk_off c > src_size c \<or> ?n > src_size c - blk_off c")
    case True
    then show ?thesis
      by (simp only: resume_block_def eq Let_def if_True option.case)
  next
    case False
    then have "mread fl (src_base c + blk_off c) ?n = mread fl' (src_base c + blk_off c) ?n"
      using assms by (intro mread_agree) (auto simp: twins_def)
    then have "resume_block fl len c out = Some (?d c, out @ mread fl (src_base c + blk_off c) ?n)"
      "resume_block fl' len c' out = Some (?d c', out @ mread fl (src_base c + blk_off c) ?n)"
      using False by (simp_all only: resume_block_def eq Let_def if_False)
    moreover have "twins ext fl ext' fl' (?d c) (?d c')"
      using assms by (intro twins_upd [OF assms]) (simp_all add: core_eq_iff eq frame_def twins_def)
    ultimately show ?thesis
      by simp
  qed
qed

lemma twins_start:
  assumes "twins ext fl ext' fl' c c'" and "p_off c + 6 \<le> patch_size c"
  shows "case start_block fl len off sz c out of
      None \<Rightarrow> start_block fl' len off sz c' out = None
    | Some (d, o1) \<Rightarrow> \<exists>d'. start_block fl' len off sz c' out = Some (d', o1) \<and> twins ext fl ext' fl' d d'"
proof -
  let ?room = "len - length out"
  let ?n = "if sz > ?room then ?room else sz"
  let ?d = "\<lambda>c. if sz > ?room then
        c\<lparr>matching := True, blk_off := off + ?room, blk_sz := sz - ?room, p_off := p_off c + 6\<rparr>
      else c\<lparr>matching := False, blk_off := 0, p_off := p_off c + 6\<rparr>"
  note eq = twins_fields [OF assms(1)]
  show ?thesis
  proof (cases "off > src_size c \<or> sz > src_size c - off")
    case True
    then show ?thesis
      by (simp add: start_block_def eq)
  next
    case False
    then have m: "mread fl (src_base c + off) ?n = mread fl' (src_base c + off) ?n"
      using assms(1) by (intro mread_agree) (auto simp: twins_def)
    have "start_block fl len off sz c out = Some (?d c, out @ mread fl (src_base c + off) ?n)"
      "start_block fl' len off sz c' out = Some (?d c', out @ mread fl (src_base c + off) ?n)"
      using False m by (cases "sz > ?room"; simp add: start_block_def eq Let_def BLOCK_HDR_SIZE_def)+
    moreover have "twins ext fl ext' fl' (?d c) (?d c')"
      using assms by (intro twins_upd [OF assms(1)]) (simp_all add: core_eq_iff eq frame_def)
    ultimately show ?thesis
      by simp
  qed
qed

lemma twins_step:
  assumes tw: "twins ext fl ext' fl' c c'" and "matching c \<or> p_off c < patch_size c"
    and st: "patch_step ext fl len c out = (ok, d, o1)"
  shows "\<exists>d'. patch_step ext' fl' len c' out = (ok, d', o1) \<and> twins ext fl ext' fl' d d'"
proof -
  obtain c1 pp c1' pp' where rd: "patch_read_cache ext fl c = (c1, pp)" "patch_read_cache ext' fl' c' = (c1', pp')"
    by fastforce
  note tw1 = twins_read [OF tw rd]
  have f: "matching c1 = matching c" "patch_size c1 = patch_size c" "p_off c1 = p_off c"
    "matching c1' = matching c" "patch_size c1' = patch_size c" "p_off c1' = p_off c"
    using patch_read_cache_fields [OF rd(1)] patch_read_cache_fields [OF rd(2)] tw
    by (simp_all add: twins_def core_eq_iff)
  show ?thesis
  proof (cases "matching c")
    case True
    then show ?thesis
      using st f rd twins_resume [OF tw1(1), of len out] tw1(1)
      by (auto simp: patch_step_def split: option.splits)
  next
    case False
    then have po: "p_off c < patch_size c"
      using assms(2) by simp
    have lit: "twins ext fl ext' fl' (c1\<lparr>p_off := p_off c + n\<rparr>) (c1'\<lparr>p_off := p_off c + n\<rparr>)"
      if "p_off c + n \<le> patch_size c" for n
      using that f tw1(1) by (intro twins_upd [OF tw1(1)]) (auto simp: core_eq_iff frame_def twins_def)
    have pp: "pp' i = pp i" if "i < 6" "i < patch_size c - p_off c" for i
      using tw1(2) [OF po that(1)] that(2) by simp
    show ?thesis
    proof (cases "patch_size c - p_off c < 6")
      case True
      then show ?thesis
        using st f rd False tw1(1) pp [of 0] pp [of 1] lit [of 1] lit [of 2] po
        by (auto simp: patch_step_def BLOCK_HDR_SIZE_def split: if_splits)
    next
      case 6: False
      then have "pp' 0 = pp 0" "pp' 1 = pp 1" "pp' 2 = pp 2" "pp' 3 = pp 3" "pp' 4 = pp 4" "pp' 5 = pp 5"
        by (simp_all add: pp)
      moreover have "p_off c1 + 6 \<le> patch_size c1"
        using 6 f by simp
      note sb = twins_start [OF tw1(1) this, of len "unat (pp 1) * 65536 + unat (pp 2) * 256 + unat (pp 3)"
          "unat (pp 4) * 256 + unat (pp 5)" out]
      ultimately show ?thesis
        using st f rd False 6 tw1(1) lit [of 1] lit [of 2] sb
        by (cases "pp 0 = ESC"; cases "pp 1 = ESC")
          (auto simp: patch_step_def BLOCK_HDR_SIZE_def split: option.splits)
    qed
  qed
qed

lemma twins_loop:
  "twins ext fl ext' fl' c c' \<Longrightarrow> wb_patch_loop ext fl len c out = (r, d, o1) \<Longrightarrow>
   \<exists>d'. wb_patch_loop ext' fl' len c' out = (r, d', o1) \<and> twins ext fl ext' fl' d d'"
proof (induction ext fl len c out arbitrary: c' rule: wb_patch_loop.induct)
  case (1 ext fl len c out)
  have eq: "matching c' = matching c" "p_off c' = p_off c" "patch_size c' = patch_size c"
    using 1(2) by (simp_all add: twins_def core_eq_iff)
  show ?case
  proof (cases "(matching c \<or> p_off c < patch_size c) \<and> length out < len")
    case True
    obtain ok d1 o2 where st: "patch_step ext fl len c out = (ok, d1, o2)"
      by (metis prod_cases3)
    then obtain d1' where "patch_step ext' fl' len c' out = (ok, d1', o2)" "twins ext fl ext' fl' d1 d1'"
      using twins_step [OF 1(2)] True by blast
    then show ?thesis
      using 1 True st eq wb_patch_loop.simps [of ext fl len c out] wb_patch_loop.simps [of ext' fl' len c' out]
      by (cases ok) auto
  next
    case False
    then show ?thesis
      using 1(2,3) eq wb_patch_loop.simps [of ext fl len c out] wb_patch_loop.simps [of ext' fl' len c' out]
      by (simp only: if_False) auto
  qed
qed

lemma twins_flash:
  "twins ext fl ext' fl' c c' \<Longrightarrow> mread fl1 (patch_base c) (patch_size c) = mread fl (patch_base c) (patch_size c) \<Longrightarrow>
   mread fl1' (patch_base c) (patch_size c) = mread fl' (patch_base c) (patch_size c) \<Longrightarrow>
   mread fl1' (src_base c) (src_size c) = mread fl1 (src_base c) (src_size c) \<Longrightarrow> twins ext fl1 ext' fl1' c c'"
  by (auto simp: twins_def cache_ok_def agree_def core_eq_iff mread_eq_iff add.assoc)

lemma twins_patch:
  "twins ext fl ext' fl' c c' \<Longrightarrow> wb_patch ext fl c len = (r, d, out) \<Longrightarrow>
   \<exists>d'. wb_patch ext' fl' c' len = (r, d', out) \<and> twins ext fl ext' fl' d d'"
  using twins_loop by (auto simp: wb_patch_def split: if_splits)

lemma twins_init:
  "wb_patch_init True src ssz patch psz = Some c \<Longrightarrow> psz + DELTA_PATCH_BLOCK_SIZE < 2 ^ 32 \<Longrightarrow>
   \<exists>c'. wb_patch_init False src ssz patch psz = Some c' \<and> twins True fl False fl c c'"
  by (auto simp: wb_patch_init_def twins_def cache_ok_def agree_def core_eq_iff split: if_splits)

text \<open>The bounds of the two buffers.\<close>

lemma patch_step_bound:
  assumes "patch_step ext fl len c out = (ok, d, o1)" and "length out < len" and "matching c \<longrightarrow> out = []"
  shows "length o1 \<le> len \<and> (ok \<longrightarrow> matching d \<longrightarrow> length o1 = len)"
proof -
  obtain c1 pp where rd: "patch_read_cache ext fl c = (c1, pp)"
    by fastforce
  have r: "matching c1 \<Longrightarrow> resume_block fl len c1 out = Some (d, o1) \<Longrightarrow> length o1 \<le> len \<and> (matching d \<longrightarrow> length o1 = len)"
    using assms(2,3) patch_read_cache_fields [OF rd] by (auto simp: resume_block_def Let_def split: if_splits)
  have s: "start_block fl len off sz c1 out = Some (d, o1) \<Longrightarrow> \<not> matching c1 \<Longrightarrow>
      length o1 \<le> len \<and> (matching d \<longrightarrow> length o1 = len)" for off sz
    using assms(2) by (auto simp: start_block_def Let_def split: if_splits)
  show ?thesis
    using assms(1,2) rd r s by (auto simp: patch_step_def split: if_splits option.splits)
qed

lemma wb_patch_loop_bound:
  "wb_patch_loop ext fl len c out = (r, d, o1) \<Longrightarrow> length out \<le> len \<Longrightarrow>
   matching c \<longrightarrow> out = [] \<or> length out = len \<Longrightarrow> length o1 \<le> len"
proof (induction ext fl len c out rule: wb_patch_loop.induct)
  case (1 ext fl len c out)
  obtain ok c2 o2 where st: "patch_step ext fl len c out = (ok, c2, o2)"
    by (metis prod_cases3)
  show ?case
  proof (cases "(matching c \<or> p_off c < patch_size c) \<and> length out < len")
    case True
    then show ?thesis
      using 1 st patch_step_bound [OF st] wb_patch_loop.simps [of ext fl len c out] by (cases ok) auto
  next
    case False
    then have "wb_patch_loop ext fl len c out = (int (length out), c, out)"
      by (subst wb_patch_loop.simps) (simp only: if_False)
    then show ?thesis
      using 1(2,3) by simp
  qed
qed

lemma hit_len: "length (block_hdr off sz) = 6"
  by (simp add: block_hdr_def)

lemma diff_tail_bound:
  "diff_tail b len q out = (r, q', o1) \<Longrightarrow> length out \<le> len \<Longrightarrow> length o1 \<le> len"
proof (induction b len q out rule: diff_tail.induct)
  case (1 b len q out)
  then show ?case
    using diff_tail.simps [of b len q out] by (auto split: if_splits)
qed

lemma search_len:
  "search_a a b ss q p len pa = Found q' h \<Longrightarrow> length h = 6"
  "search_b b ss q e p len pb = Found q' h \<Longrightarrow> length h = 6"
  by (auto simp: hit_a_def hit_b_def hit_len dest!: search_a_hit search_b_hit split: prod.splits)

lemma diff_loop_bound:
  "diff_loop a b ss len q out = (r, q', o1) \<Longrightarrow> length out \<le> len \<Longrightarrow> length o1 \<le> len"
proof (induction a b ss len q out rule: diff_loop.induct)
  case (1 a b ss len q out)
  show ?case
  proof (cases "q + BLOCK_HDR_SIZE < length b \<and> len > length out + BLOCK_HDR_SIZE")
    case True
    then show ?thesis
      using 1 diff_loop.simps [of a b ss len q out] diff_tail_bound [of b len q out]
      by (auto simp: BLOCK_HDR_SIZE_def search_len split: if_splits search.splits)
  next
    case False
    then have "diff_tail b len q out = (r, q', o1)"
      using "1.prems"(1) by (subst (asm) diff_loop.simps) (simp only: if_False)
    then show ?thesis
      using "1.prems"(2) by (rule diff_tail_bound)
  qed
qed

subsection \<open>Properties\<close>

definition demo_old :: "byte list" where
  "demo_old = [1, 2, 3, 4, 5, 6, 7, 8]"

definition demo_new :: "byte list" where
  "demo_new = [9, 2, 3, 4, 5, 6, 7, 8]"

lemma demo_length: "length demo_old = 8" "length demo_new = 8"
  by (simp_all add: demo_old_def demo_new_def)

text \<open>
  C12. The patch that the sign tool makes from \<open>a\<close> to \<open>b\<close>, applied in place sector by sector to
  a flash that holds \<open>a\<close>, leaves \<open>b\<close> there and changes nothing outside the sectors written;
  both ends return. The images are at most 16 MB, and the source size given to the patch code
  covers both of them.
\<close>

theorem delta_roundtrip:
  assumes "6 \<le> ss" "ss < 65536" and "ss = j * blk" "6 \<le> blk" and "7 < blksz"
    and "length a \<le> 2 ^ 24" "length b \<le> 2 ^ 24" "length a \<le> S" "length b \<le> S" "0 < S" "0 < length b"
    and "length b \<le> n * ss"
  shows "\<exists>P. base_diff_loop a b ss blksz 0 [] = Some P \<and>
    (\<forall>src patch fl. mread fl src (length a) = a \<longrightarrow> mread fl patch (length P) = P \<longrightarrow>
       patch + length P \<le> src \<or> src + n * ss \<le> patch \<longrightarrow>
       (\<exists>ctx fl'. wb_patch_init False src S patch (length P) = Some ctx \<and>
          patch_sectors False ss blk 0 n ctx fl = Some fl' \<and> mread fl' src (length b) = b \<and>
          same_outside src (n * ss) fl fl'))"
  by (rule roundtrip [OF assms])

theorem delta_roundtrip_witness:
  "\<exists>P ctx fl'. base_diff_loop demo_old demo_new 8 8 0 [] = Some P \<and>
     patch_sectors False 8 8 0 1 ctx (mwrite (mwrite (\<lambda>_. 0) 0 demo_old) 100 P) = Some fl' \<and>
     mread fl' 0 8 = demo_new"
proof -
  have "\<exists>P. base_diff_loop demo_old demo_new 8 8 0 [] = Some P \<and>
    (\<forall>src patch fl. mread fl src 8 = demo_old \<longrightarrow> mread fl patch (length P) = P \<longrightarrow>
       patch + length P \<le> src \<or> src + 1 * 8 \<le> patch \<longrightarrow>
       (\<exists>ctx fl'. wb_patch_init False src 8 patch (length P) = Some ctx \<and>
          patch_sectors False 8 8 0 1 ctx fl = Some fl' \<and> mread fl' src 8 = demo_new \<and>
          same_outside src (1 * 8) fl fl'))"
    by (rule delta_roundtrip [of 8 1 8 8 demo_old demo_new 8 1, unfolded demo_length]) simp_all
  then obtain P where P: "base_diff_loop demo_old demo_new 8 8 0 [] = Some P"
    and rt: "\<forall>src patch fl. mread fl src 8 = demo_old \<longrightarrow> mread fl patch (length P) = P \<longrightarrow>
       patch + length P \<le> src \<or> src + 1 * 8 \<le> patch \<longrightarrow>
       (\<exists>ctx fl'. wb_patch_init False src 8 patch (length P) = Some ctx \<and>
          patch_sectors False 8 8 0 1 ctx fl = Some fl' \<and> mread fl' src 8 = demo_new \<and>
          same_outside src (1 * 8) fl fl')"
    by (elim exE conjE)
  let ?fl = "mwrite (mwrite (\<lambda>_. 0) 0 demo_old) 100 P"
  have old: "mread ?fl 0 8 = demo_old"
    by (subst mread_mwrite_other) (simp_all add: mread_mwrite_same demo_length)
  have "\<exists>ctx fl'. wb_patch_init False 0 8 100 (length P) = Some ctx \<and>
      patch_sectors False 8 8 0 1 ctx ?fl = Some fl' \<and> mread fl' 0 8 = demo_new \<and> same_outside 0 (1 * 8) ?fl fl'"
    using rt old by (intro rt [rule_format]) (simp_all add: mread_mwrite_same)
  then show ?thesis
    using P by blast
qed



fun patch_calls :: "bool \<Rightarrow> mem list \<Rightarrow> nat \<Rightarrow> patch_ctx \<Rightarrow> (int \<times> byte list) list" where
  "patch_calls ext [] len ctx = []"
| "patch_calls ext (fl # fls) len ctx =
     (case wb_patch ext fl ctx len of (r, ctx, out) \<Rightarrow> (r, out) # patch_calls ext fls len ctx)"

lemma patch_step_frame: "patch_step ext fl len c out = (ok, d, o1) \<Longrightarrow> frame c d"
proof -
  assume st: "patch_step ext fl len c out = (ok, d, o1)"
  obtain c1 pp where rd: "patch_read_cache ext fl c = (c1, pp)"
    by fastforce
  show ?thesis
    using st patch_read_cache_fields [OF rd]
    by (auto simp: patch_step_def rd frame_def resume_block_def start_block_def Let_def split: if_splits)
qed

lemma wb_patch_loop_frame: "wb_patch_loop ext fl len c out = (r, d, o1) \<Longrightarrow> frame c d"
proof (induction ext fl len c out rule: wb_patch_loop.induct)
  case (1 ext fl len c out)
  obtain ok c2 o2 where st: "patch_step ext fl len c out = (ok, c2, o2)"
    by (metis prod_cases3)
  show ?case
    using 1 st wb_patch_loop.simps [of ext fl len c out] frame_trans [OF patch_step_frame [OF st]]
      patch_step_frame [OF st] by (auto split: if_splits)
qed

lemma wb_patch_frame: "wb_patch ext fl c len = (r, d, out) \<Longrightarrow> frame c d"
  using wb_patch_loop_frame by (auto simp: wb_patch_def split: if_splits)

lemma twins_calls:
  "twins ext fl0 ext' fl0 c c' \<Longrightarrow>
   \<forall>fl\<in>set fls. mread fl (patch_base c) (patch_size c) = mread fl0 (patch_base c) (patch_size c) \<Longrightarrow>
   patch_calls ext fls len c = patch_calls ext' fls len c'"
proof (induction fls arbitrary: c c')
  case (Cons fl fls)
  obtain r d out where w: "wb_patch ext fl c len = (r, d, out)"
    by (metis prod_cases3)
  have tw: "twins ext fl ext' fl c c'"
    using Cons.prems by (intro twins_flash [OF Cons.prems(1)]) simp_all
  obtain d' where w': "wb_patch ext' fl c' len = (r, d', out)" "twins ext fl ext' fl d d'"
    using twins_patch [OF tw w] by blast
  have "frame c d"
    using w by (rule wb_patch_frame)
  then have "patch_calls ext fls len d = patch_calls ext' fls len d'"
    using Cons.prems(2) by (intro Cons.IH twins_flash [OF w'(2)]) (simp_all add: frame_def)
  then show ?case
    using w w'(1) by simp
qed simp

text \<open>
  C35. Reading the patch through the cache of external flash makes no difference: started on the
  same patch, the two builds of \<open>wb_patch\<close> return the same bytes and the same result, call after
  call, while the source is rewritten between the calls and the patch is left alone.
\<close>

theorem wb_patch_cached:
  assumes "wb_patch_init True src ssz patch psz = Some c" and "wb_patch_init False src ssz patch psz = Some c'"
    and "psz + DELTA_PATCH_BLOCK_SIZE < 2 ^ 32" and "\<forall>fl\<in>set fls. mread fl patch psz = mread fl0 patch psz"
  shows "patch_calls True fls len c = patch_calls False fls len c'"
proof -
  have "twins True fl0 False fl0 c c'"
    using twins_init [OF assms(1,3)] assms(2) by auto
  moreover have "patch_base c = patch" "patch_size c = psz"
    using assms(1) by (auto simp: wb_patch_init_def split: if_splits)
  ultimately show ?thesis
    using assms(4) by (intro twins_calls [of True fl0 False]) simp_all
qed

theorem wb_patch_cached_witness:
  "\<exists>c c'. wb_patch_init True 0 4 8 3 = Some c \<and> wb_patch_init False 0 4 8 3 = Some c' \<and>
     patch_calls True [\<lambda>_. 1, \<lambda>x. if x < 4 then 2 else 1] 6 c = patch_calls False [\<lambda>_. 1, \<lambda>x. if x < 4 then 2 else 1] 6 c'"
proof -
  obtain c c' where c: "wb_patch_init True 0 4 8 3 = Some c" "wb_patch_init False 0 4 8 3 = Some c'"
    by (simp add: wb_patch_init_def)
  have "\<forall>fl\<in>set [\<lambda>_. 1, \<lambda>x. if x < 4 then 2 else 1]. mread fl 8 3 = mread (\<lambda>_. 1) 8 3"
    by (simp add: mread_def)
  then show ?thesis
    using wb_patch_cached [OF c, of "[\<lambda>_. 1, \<lambda>x. if x < 4 then 2 else 1]" "\<lambda>_. 1" 6] c
    by (simp add: DELTA_PATCH_BLOCK_SIZE_def)
qed

subsection \<open>Images of different sizes\<close>

text \<open>
  The patch code checks every block against the size of the source, and is given the size of
  the image found in BOOT. If the new image is larger, a block taken from a part of the new
  image beyond that size is refused in the middle of the update; if it is smaller, an update
  resumed after its first sector gives the smaller size of the new header, and blocks of the
  old image beyond it are refused.
\<close>

lemmas diff_eval = wb_diff_def diff_loop.simps diff_tail.simps search_a.simps search_b.simps
  extend_a.simps extend_b.simps BLOCK_HDR_SIZE_def BLOCK_OFF_MAX_def ESC_def block_hdr_def

lemmas patch_eval = wb_patch_def wb_patch_loop.simps patch_step_def patch_read_cache_def resume_block_def
  start_block_def patch_fill.simps BLOCK_HDR_SIZE_def ESC_def Let_def

definition grow_old :: "byte list" where
  "grow_old = [1, 2, 3, 4, 5, 6]"

definition grow_new :: "byte list" where
  "grow_new = [11, 12, 13, 14, 15, 16, 21, 22, 23, 24, 25, 26, 21, 22, 23, 24, 25, 26, 9]"

definition grow_patch :: "byte list" where
  "grow_patch = [11, 12, 13, 14, 15, 16, 21, 22, 23, 24, 25, 26, 127, 0, 0, 6, 0, 6, 9]"

lemma delta_larger_image:
  "base_diff_loop grow_old grow_new 6 64 0 [] = Some grow_patch \<and>
   (\<exists>ctx. wb_patch_init False 0 (length grow_old) 100 (length grow_patch) = Some ctx \<and>
     patch_sectors False 6 6 0 4 ctx (mwrite (mwrite (\<lambda>_. 0) 0 grow_old) 100 grow_patch) = None)"
proof -
  have "wb_diff grow_old grow_new 6 0 64 = (19, 19, grow_patch)"
    by (simp add: diff_eval grow_old_def grow_new_def grow_patch_def)
  moreover have "wb_diff grow_old grow_new 6 19 64 = (0, 19, [])"
    by (simp add: wb_diff_def grow_new_def)
  ultimately have "base_diff_loop grow_old grow_new 6 64 0 [] = Some grow_patch"
    by (subst base_diff_loop.simps, simp, subst base_diff_loop.simps, simp)
  moreover have "\<exists>ctx. wb_patch_init False 0 (length grow_old) 100 (length grow_patch) = Some ctx \<and>
     patch_sectors False 6 6 0 4 ctx (mwrite (mwrite (\<lambda>_. 0) 0 grow_old) 100 grow_patch) = None"
    by (simp add: wb_patch_init_def grow_old_def grow_patch_def numeral_eq_Suc) (simp add: patch_eval mem_simps)
  ultimately show ?thesis
    by blast
qed

definition shrink_old :: "byte list" where
  "shrink_old = [1, 2, 3, 4, 5, 6, 21, 22, 23, 24, 25, 26, 31, 32, 33, 34, 35, 36]"

definition shrink_new :: "byte list" where
  "shrink_new = [1, 2, 3, 4, 5, 6, 31, 32, 33, 34, 35, 36, 7]"

definition shrink_patch :: "byte list" where
  "shrink_patch = [127, 0, 0, 0, 0, 6, 127, 0, 0, 12, 0, 6, 7]"

lemma delta_resumed_smaller_image:
  "base_diff_loop shrink_old shrink_new 6 64 0 [] = Some shrink_patch \<and>
   (\<exists>ctx. wb_patch_init False 0 (length shrink_new) 100 (length shrink_patch) = Some ctx \<and>
     patch_sectors False 6 6 0 3 ctx (mwrite (mwrite (\<lambda>_. 0) 0 shrink_old) 100 shrink_patch) = None)"
proof -
  have "wb_diff shrink_old shrink_new 6 0 64 = (13, 13, shrink_patch)"
    by (simp add: diff_eval shrink_old_def shrink_new_def shrink_patch_def)
  moreover have "wb_diff shrink_old shrink_new 6 13 64 = (0, 13, [])"
    by (simp add: wb_diff_def shrink_new_def)
  ultimately have "base_diff_loop shrink_old shrink_new 6 64 0 [] = Some shrink_patch"
    by (subst base_diff_loop.simps, simp, subst base_diff_loop.simps, simp)
  moreover have "\<exists>ctx. wb_patch_init False 0 (length shrink_new) 100 (length shrink_patch) = Some ctx \<and>
     patch_sectors False 6 6 0 3 ctx (mwrite (mwrite (\<lambda>_. 0) 0 shrink_old) 100 shrink_patch) = None"
    by (simp add: wb_patch_init_def shrink_new_def shrink_patch_def numeral_eq_Suc)
       (simp add: patch_eval mem_simps shrink_old_def mread_def upt_rec)
  ultimately show ?thesis
    by blast
qed

end
