(* ===== verification/DeltaUpdate.thy ===== *)
theory DeltaUpdate
  imports Swap Delta_Props
begin

section \<open>Delta updates (\<open>src/update_flash.c\<close>)\<close>

text \<open>
  \<open>wolfBoot_delta_update\<close> applies the patch in UPDATE to BOOT, one sector at a time through
  the SWAP sector, and records its progress in the sector flags. The build has internal flash
  and no encryption, as in the other theories of the update; the digest is SHA-256.
\<close>

definition DELTA_BLOCK_SIZE :: nat where
  "DELTA_BLOCK_SIZE = 1024"

text \<open>The checks before the patch is applied, up to \<open>wb_patch_init\<close>; \<open>None\<close> if refused.\<close>

definition delta_init ::
  "cfg \<Rightarrow> mem \<Rightarrow> wolfBoot_image \<Rightarrow> wolfBoot_image \<Rightarrow> bool \<Rightarrow> bool \<Rightarrow> patch_ctx option" where
  "delta_init c m boot update is_inverse resume =
     (case wolfBoot_get_delta_info c m PART_UPDATE is_inverse of
        None \<Rightarrow> None
      | Some (img_offset, img_size, delta_base_hash, delta_base_hash_sz) \<Rightarrow>
          (let delta_img_size = le32_at m img_size;
               delta_img_offset = (if is_inverse then le32_at m img_offset else IMAGE_HEADER_SIZE c);
               cur_v = wolfBoot_current_firmware_version c m;
               upd_v = wolfBoot_update_firmware_version c m;
               delta_base_v = wolfBoot_get_diffbase_version c m PART_UPDATE;
               init = wb_patch_init False (img_hdr boot) (u32 (fw_size boot + IMAGE_HEADER_SIZE c))
                        (img_hdr update + delta_img_offset) delta_img_size
           in if delta_base_hash_sz \<noteq> WOLFBOOT_SHA_DIGEST_SIZE \<and> delta_base_hash_sz \<noteq> 0 then None
              else
                (let delta_base_hash = (if delta_base_hash_sz = 0 then 0 else delta_base_hash);
                     (base_hash_sz, base_hash) =
                       wolfBoot_find_header c m (img_hdr boot + IMAGE_HEADER_OFFSET) HDR_SHA256
                 in if is_inverse then
                      (if resume \<or> cur_v = upd_v \<and> delta_base_v \<le> cur_v \<or> cur_v = delta_base_v \<and> upd_v \<ge> cur_v
                       then init else None)
                    else if \<not> resume \<and> cur_v \<noteq> delta_base_v then None
                    else if \<not> resume \<and> delta_base_hash \<noteq> 0 \<and>
                        (base_hash = 0 \<or> base_hash_sz \<noteq> WOLFBOOT_SHA_DIGEST_SIZE \<or>
                         wolfBoot_hardened_CT_compare (mread m base_hash WOLFBOOT_SHA_DIGEST_SIZE)
                           (mread m delta_base_hash WOLFBOOT_SHA_DIGEST_SIZE) WOLFBOOT_SHA_DIGEST_SIZE \<noteq> 0) then None
                    else init)))"

text \<open>Filling the SWAP sector, and passing over a sector that was patched before.\<close>

partial_function (option) delta_fill ::
  "cfg \<Rightarrow> 's hal \<Rightarrow> wolfBoot_image \<Rightarrow> patch_ctx \<Rightarrow> nat \<Rightarrow> 's \<Rightarrow> (int \<times> patch_ctx \<times> 's) option" where
  "delta_fill c H swap ctx len s =
     (if len < WOLFBOOT_SECTOR_SIZE c then
        (case wb_patch False (flash_mem H s) ctx DELTA_BLOCK_SIZE of
           (ret, ctx, delta_blk) \<Rightarrow>
             if ret > 0 then
               delta_fill c H swap ctx (len + nat ret) (snd (wb_flash_write H swap len (take (nat ret) delta_blk) s))
             else Some (ret, ctx, s))
      else Some (0, ctx, s))"

partial_function (option) delta_skip ::
  "cfg \<Rightarrow> mem \<Rightarrow> patch_ctx \<Rightarrow> nat \<Rightarrow> (int \<times> patch_ctx) option" where
  "delta_skip c m ctx len =
     (if len < WOLFBOOT_SECTOR_SIZE c then
        (case wb_patch False m ctx DELTA_BLOCK_SIZE of
           (ret, ctx, delta_blk) \<Rightarrow>
             if ret > 0 then delta_skip c m ctx (len + nat ret) else Some (ret, ctx))
      else Some (0, ctx))"

definition delta_sector ::
  "cfg \<Rightarrow> 's hal \<Rightarrow> wolfBoot_image \<Rightarrow> wolfBoot_image \<Rightarrow> patch_ctx \<Rightarrow> nat \<Rightarrow> 's \<Rightarrow> (int \<times> patch_ctx \<times> 's) option" where
  "delta_sector c H boot swap ctx sector s =
     (let (fl, s) = wolfBoot_get_update_sector_flag c H sector s
      in case
           (if fl = None \<or> fl = Some SECT_FLAG_NEW then
              (case delta_fill c H swap ctx 0 (snd (wb_flash_erase H swap 0 (WOLFBOOT_SECTOR_SIZE c) s)) of
                 None \<Rightarrow> None
               | Some (ret, ctx, s) \<Rightarrow>
                   if ret < 0 then Some (ret, ctx, SECT_FLAG_NEW, s)
                   else Some (0, ctx, SECT_FLAG_SWAPPING,
                              snd (wolfBoot_set_update_sector_flag c H sector SECT_FLAG_SWAPPING s)))
            else
              (case delta_skip c (flash_mem H s) ctx 0 of
                 None \<Rightarrow> None
               | Some (ret, ctx) \<Rightarrow> Some (if ret < 0 then ret else 0, ctx, the fl, s))) of
           None \<Rightarrow> None
         | Some (ret, ctx, flag, s) \<Rightarrow>
             if ret < 0 then Some (ret, ctx, s)
             else if flag = SECT_FLAG_SWAPPING then
               (let (copy_ret, s) = wolfBoot_copy_sector c H swap boot sector s
                in if copy_ret < 0 then Some (-1, ctx, s)
                   else Some (0, ctx, record_flag c H sector SECT_FLAG_UPDATED s))
             else Some (0, ctx, s))"

partial_function (option) delta_loop ::
  "cfg \<Rightarrow> 's hal \<Rightarrow> wolfBoot_image \<Rightarrow> wolfBoot_image \<Rightarrow> patch_ctx \<Rightarrow> nat \<Rightarrow> nat \<Rightarrow> 's \<Rightarrow> (int \<times> nat \<times> 's) option" where
  "delta_loop c H boot swap ctx total_size sector s =
     (if total_size < 2 ^ 31 \<and> sector * WOLFBOOT_SECTOR_SIZE c < total_size then
        (case delta_sector c H boot swap ctx sector s of
           None \<Rightarrow> None
         | Some (ret, ctx, s) \<Rightarrow>
             if ret < 0 then Some (ret, sector, s)
             else if sector = 0 then
               (let s = hal_flash_lock H s;
                    update_size = u32 (wolfBoot_image_size (flash_mem H s) (WOLFBOOT_PARTITION_BOOT_ADDRESS c)
                                       + IMAGE_HEADER_SIZE c);
                    s = hal_flash_unlock H s;
                    total_size = (if update_size > total_size then update_size else total_size)
                in if total_size \<le> IMAGE_HEADER_SIZE c then Some (-1, sector, s)
                   else if total_size > WOLFBOOT_PARTITION_SIZE c then Some (-1, sector, s)
                   else delta_loop c H boot swap ctx total_size (sector + 1) s)
             else delta_loop c H boot swap ctx total_size (sector + 1) s)
      else Some (0, sector, s))"

partial_function (option) delta_erase_rest ::
  "cfg \<Rightarrow> 's hal \<Rightarrow> wolfBoot_image \<Rightarrow> nat \<Rightarrow> 's \<Rightarrow> 's option" where
  "delta_erase_rest c H boot sector s =
     (if sector * WOLFBOOT_SECTOR_SIZE c
           < WOLFBOOT_PARTITION_SIZE c - WOLFBOOT_SECTOR_SIZE c * (if NVM_FLASH_WRITEONCE c then 2 else 1) then
        delta_erase_rest c H boot (sector + 1)
          (snd (wb_flash_erase H boot (sector * WOLFBOOT_SECTOR_SIZE c) (WOLFBOOT_SECTOR_SIZE c) s))
      else Some s)"

definition wolfBoot_delta_update ::
  "cfg \<Rightarrow> 's hal \<Rightarrow> wolfBoot_image \<Rightarrow> wolfBoot_image \<Rightarrow> wolfBoot_image \<Rightarrow> bool \<Rightarrow> bool \<Rightarrow> 's \<Rightarrow> (int \<times> 's) option" where
  "wolfBoot_delta_update c H boot update swap is_inverse resume s =
     (if fw_size boot = 0 \<and> \<not> (img_hdr boot \<noteq> 0 \<and> le32_at (flash_mem H s) (img_hdr boot) \<noteq> WOLFBOOT_MAGIC)
      then Some (-1, s)
      else
        (let boot = (if fw_size boot = 0 then boot\<lparr>fw_size := WOLFBOOT_PARTITION_SIZE c - IMAGE_HEADER_SIZE c\<rparr> else boot);
             total_size = wolfBoot_get_total_size c boot update;
             s = hal_flash_unlock H s
         in case delta_init c (flash_mem H s) boot update is_inverse resume of
              None \<Rightarrow> Some (-1, hal_flash_lock H s)
            | Some ctx \<Rightarrow>
                (case delta_loop c H boot swap ctx total_size 0 s of
                   None \<Rightarrow> None
                 | Some (ret, sector, s) \<Rightarrow>
                     if ret < 0 then Some (ret, hal_flash_lock H s)
                     else
                       (case delta_erase_rest c H boot sector s of
                          None \<Rightarrow> None
                        | Some s \<Rightarrow>
                            Some (0, snd (wolfBoot_swap_and_final_erase c H False (hal_flash_lock H s)))))))"

text \<open>
  The branch of \<open>wolfBoot_update\<close> for delta images: the direction of the patch, and whether an
  interrupted update is resumed.
\<close>

definition wolfBoot_update_delta ::
  "cfg \<Rightarrow> 's hal \<Rightarrow> wolfBoot_image \<Rightarrow> wolfBoot_image \<Rightarrow> wolfBoot_image \<Rightarrow> int \<Rightarrow> byte \<Rightarrow> nat \<Rightarrow> nat \<Rightarrow> 's \<Rightarrow>
     (int \<times> 's) option" where
  "wolfBoot_update_delta c H boot update swap fallback_allowed flag cur_ver upd_ver s =
     (let is_inverse = (cur_ver > upd_ver);
          (st, s) = wolfBoot_get_partition_state c H PART_UPDATE s;
          (resume, is_inverse, s) =
            (if flag \<noteq> SECT_FLAG_NEW \<or> cur_ver = 0 then
               (True,
                case st of
                  None \<Rightarrow> is_inverse
                | Some v \<Rightarrow> if v = IMG_STATE_UPDATING then False else cur_ver < upd_ver, s)
             else if \<not> is_inverse \<and> fallback_allowed = 1 \<and> cur_ver \<ge> upd_ver then
               (False, True,
                hal_flash_lock H (snd (wolfBoot_set_partition_state c H PART_UPDATE IMG_STATE_NEW
                  (hal_flash_unlock H s))))
             else (False, is_inverse, s))
      in wolfBoot_delta_update c H boot update swap is_inverse resume s)"

subsection \<open>The loops end\<close>

lemma delta_fill_returns:
  "\<exists>ret ctx' s'. delta_fill c H swap ctx len s = Some (ret, ctx', s')"
proof (induction "WOLFBOOT_SECTOR_SIZE c - len" arbitrary: len ctx s rule: less_induct)
  case less
  obtain ret ctx' blk where p: "wb_patch False (flash_mem H s) ctx DELTA_BLOCK_SIZE = (ret, ctx', blk)"
    using prod_cases3 by blast
  show ?case
  proof (cases "len < WOLFBOOT_SECTOR_SIZE c \<and> ret > 0")
    case True
    then have "WOLFBOOT_SECTOR_SIZE c - (len + nat ret) < WOLFBOOT_SECTOR_SIZE c - len"
      by linarith
    from less [OF this] True p show ?thesis
      by (subst delta_fill.simps) simp
  qed (subst delta_fill.simps, use p in auto)
qed

lemma delta_skip_returns: "\<exists>ret ctx'. delta_skip c m ctx len = Some (ret, ctx')"
proof (induction "WOLFBOOT_SECTOR_SIZE c - len" arbitrary: len ctx rule: less_induct)
  case less
  obtain ret ctx' blk where p: "wb_patch False m ctx DELTA_BLOCK_SIZE = (ret, ctx', blk)"
    using prod_cases3 by blast
  show ?case
  proof (cases "len < WOLFBOOT_SECTOR_SIZE c \<and> ret > 0")
    case True
    then have "WOLFBOOT_SECTOR_SIZE c - (len + nat ret) < WOLFBOOT_SECTOR_SIZE c - len"
      by linarith
    from less [OF this] True p show ?thesis
      by (subst delta_skip.simps) simp
  qed (subst delta_skip.simps, use p in auto)
qed

lemma delta_sector_returns: "\<exists>ret ctx' s'. delta_sector c H boot swap ctx sector s = Some (ret, ctx', s')"
proof -
  obtain fl t where fl: "wolfBoot_get_update_sector_flag c H sector s = (fl, t)"
    by fastforce
  obtain r1 c1 t1 where f: "delta_fill c H swap ctx 0 (snd (wb_flash_erase H swap 0 (WOLFBOOT_SECTOR_SIZE c) t)) = Some (r1, c1, t1)"
    using delta_fill_returns [of c H swap ctx 0] by blast
  obtain r2 c2 where k: "delta_skip c (flash_mem H t) ctx 0 = Some (r2, c2)"
    using delta_skip_returns by blast
  show ?thesis
    by (simp add: delta_sector_def fl f k Let_def split: prod.split)
qed

lemma delta_loop_later:
  assumes "0 < WOLFBOOT_SECTOR_SIZE c" "0 < sector"
  shows "\<exists>ret n s'. delta_loop c H boot swap ctx total_size sector s = Some (ret, n, s')"
  using assms(2)
proof (induction "total_size - sector * WOLFBOOT_SECTOR_SIZE c" arbitrary: sector ctx s rule: less_induct)
  case less
  obtain ret ctx' s' where d: "delta_sector c H boot swap ctx sector s = Some (ret, ctx', s')"
    using delta_sector_returns [of c H boot swap ctx sector s] by blast
  show ?case
  proof (cases "total_size < 2 ^ 31 \<and> sector * WOLFBOOT_SECTOR_SIZE c < total_size \<and> 0 \<le> ret")
    case True
    then have "total_size - (sector + 1) * WOLFBOOT_SECTOR_SIZE c < total_size - sector * WOLFBOOT_SECTOR_SIZE c"
      using assms(1) by (simp add: diff_less_mono2)
    from less(1) [OF this] True less(2) d show ?thesis
      by (subst delta_loop.simps) simp
  qed (subst delta_loop.simps, use d less(2) in auto)
qed

lemma delta_loop_returns:
  assumes "0 < WOLFBOOT_SECTOR_SIZE c"
  shows "\<exists>ret n s'. delta_loop c H boot swap ctx total_size sector s = Some (ret, n, s')"
proof -
  obtain ret ctx' s' where d: "delta_sector c H boot swap ctx sector s = Some (ret, ctx', s')"
    using delta_sector_returns [of c H boot swap ctx sector s] by blast
  show ?thesis
    using d delta_loop_later [OF assms, of "sector + 1"] delta_loop_later [OF assms, of sector]
    by (subst delta_loop.simps) (auto simp: Let_def)
qed

lemma delta_erase_rest_returns:
  assumes "0 < WOLFBOOT_SECTOR_SIZE c"
  shows "\<exists>s'. delta_erase_rest c H boot sector s = Some s'"
proof (induction "WOLFBOOT_PARTITION_SIZE c - sector * WOLFBOOT_SECTOR_SIZE c" arbitrary: sector s rule: less_induct)
  case less
  show ?case
  proof (cases "sector * WOLFBOOT_SECTOR_SIZE c
      < WOLFBOOT_PARTITION_SIZE c - WOLFBOOT_SECTOR_SIZE c * (if NVM_FLASH_WRITEONCE c then 2 else 1)")
    case True
    then have "WOLFBOOT_PARTITION_SIZE c - (sector + 1) * WOLFBOOT_SECTOR_SIZE c
        < WOLFBOOT_PARTITION_SIZE c - sector * WOLFBOOT_SECTOR_SIZE c"
      using assms(1) by (auto split: if_splits)
    from less(1) [OF this] True show ?thesis
      by (subst delta_erase_rest.simps) (simp only: if_True)
  qed (subst delta_erase_rest.simps, auto)
qed

subsection \<open>One sector of a fresh update\<close>

context flash_dev
begin

lemma delta_fill_dead: "dead s \<Longrightarrow> delta_fill c H swap ctx len s = Some (ret, ctx', s') \<Longrightarrow> dead s'"
proof (induction "WOLFBOOT_SECTOR_SIZE c - len" arbitrary: len ctx s rule: less_induct)
  case less
  obtain r ctx1 blk where p: "wb_patch False (flash_mem H s) ctx DELTA_BLOCK_SIZE = (r, ctx1, blk)"
    using prod_cases3 by blast
  show ?case
  proof (cases "len < WOLFBOOT_SECTOR_SIZE c \<and> r > 0")
    case True
    then have m: "WOLFBOOT_SECTOR_SIZE c - (len + nat r) < WOLFBOOT_SECTOR_SIZE c - len"
      by linarith
    have "dead (snd (wb_flash_write H swap len (take (nat r) blk) s))"
      using frozen_write less(2) by (simp add: wb_flash_write_def frozen_def)
    from less(1) [OF m this] less(3) True p show ?thesis
      by (subst (asm) delta_fill.simps) simp
  qed (use less(2,3) p in \<open>subst (asm) delta_fill.simps, auto split: if_splits\<close>)
qed

text \<open>
  Filling the erased SWAP sector at \<open>d\<close> with the bytes of sector \<open>k\<close> of the new image \<open>b\<close>.
\<close>

lemma delta_fill_ok:
  assumes ss: "ss = WOLFBOOT_SECTOR_SIZE c" "0 < ss" "ss = j * DELTA_BLOCK_SIZE" and k: "k * ss \<le> length b"
    and d: "d = img_hdr swap" and er: "\<And>i. i < ss \<Longrightarrow> M (d + i) = 255"
    and src: "\<And>L. length L \<le> ss \<Longrightarrow> hybrid a b ss k (mwrite M d L) (src_base ctx0)"
    and pat: "\<And>L. length L \<le> ss \<Longrightarrow> mread (mwrite M d L) (patch_base ctx0) (length P) = P"
  shows "frame ctx0 ctx \<Longrightarrow> patch_state a b ss P ctx (k * ss + i * DELTA_BLOCK_SIZE) \<Longrightarrow> i \<le> j \<Longrightarrow>
    k * ss + i * DELTA_BLOCK_SIZE \<le> length b \<Longrightarrow> alive s \<Longrightarrow> unlocked s \<Longrightarrow>
    flash_mem H s = mwrite M d (window b (k * ss) (i * DELTA_BLOCK_SIZE)) \<Longrightarrow>
    \<exists>ret ctx' s'. delta_fill c H swap ctx (i * DELTA_BLOCK_SIZE) s = Some (ret, ctx', s') \<and>
      (dead s' \<or> (ret = 0 \<and> frame ctx0 ctx' \<and> alive s' \<and> unlocked s' \<and>
         flash_mem H s' = mwrite M d (window b (k * ss) (min ss (length b - k * ss))) \<and>
         patch_state a b ss P ctx' (min ((k + 1) * ss) (length b))))"
proof (induction "j - i" arbitrary: i ctx s)
  case 0
  then have "i * DELTA_BLOCK_SIZE = ss" "(k + 1) * ss \<le> length b"
    using ss by (auto simp: add.commute)
  with 0 ss(1) show ?case
    by (subst delta_fill.simps) (auto simp: min_def add.commute)
next
  case (Suc e)
  let ?B = DELTA_BLOCK_SIZE
  have B: "?B = 1024"
    by (simp add: DELTA_BLOCK_SIZE_def)
  have "(i + 1) * ?B \<le> j * ?B"
    using Suc.hyps(2) by (intro mult_le_mono1) simp
  then have room: "i * ?B + ?B \<le> ss" "i * ?B < ss"
    using ss(3) B Suc.hyps(2) by simp_all
  have fr: "src_base ctx = src_base ctx0" "patch_base ctx = patch_base ctx0"
    using Suc.prems(1) by (simp_all add: frame_def)
  have wl: "length (window b (k * ss) (i * ?B)) = i * ?B"
    using Suc.prems(4) by simp
  obtain ctx1 n where p: "wb_patch False (flash_mem H s) ctx ?B = (int n, ctx1, window b (k * ss + i * ?B) n)"
    "frame ctx ctx1" "n = min ?B (length b - (k * ss + i * ?B))" "patch_state a b ss P ctx1 (k * ss + i * ?B + n)"
    using wb_patch_ok [OF Suc.prems(2), of k "flash_mem H s" ?B] src pat Suc.prems(4,7) room ss(2) B wl fr
    by (auto simp: add.commute)
  have fr1: "frame ctx0 ctx1"
    using frame_trans [OF Suc.prems(1) p(2)] .
  define W where "W = snd (wb_flash_write H swap (i * ?B) (take n (window b (k * ss + i * ?B) n)) s)"
  have len: "length (window b (k * ss + i * ?B) n) = n"
    using p(3) Suc.prems(4) by simp
  have er1: "flash_mem H s (d + i * ?B + x) = 255" if "x < n" for x
    using that er [of "i * ?B + x"] p(3) room(1) by (simp add: Suc.prems(7) mwrite_apply wl add.assoc)
  have step: "delta_fill c H swap ctx (i * ?B) s =
      (if 0 < n then delta_fill c H swap ctx1 (i * ?B + n) W else Some (0, ctx1, s))"
    using p(1) room(2) ss(1) by (subst delta_fill.simps) (simp add: W_def)
  have mem: "mwrite (flash_mem H s) (d + i * ?B) (window b (k * ss + i * ?B) n) =
      mwrite M d (window b (k * ss) (i * ?B + n))"
    by (rule ext) (use len wl in \<open>auto simp: Suc.prems(7) window_add mwrite_apply nth_append\<close>)
  have "outcome (mwrite (flash_mem H s) (d + i * ?B) (window b (k * ss + i * ?B) n)) (\<lambda>_. True)
      (snd (hal_flash_write H (d + i * ?B) (window b (k * ss + i * ?B) n) s))"
    by (rule outcome_mono [OF write_erased_outcome [OF Suc.prems(5,6)]]) (use er1 len in auto)
  then have o: "outcome (mwrite M d (window b (k * ss) (i * ?B + n))) (\<lambda>_. True) W"
    unfolding mem using d len by (simp add: W_def wb_flash_write_def)
  show ?case
  proof (cases "0 < n \<and> dead W")
    case True
    then show ?thesis
      using delta_fill_returns [of c H swap ctx1 "i * ?B + n" W] delta_fill_dead step by auto
  next
    case False
    show ?thesis
    proof (cases "n = ?B")
      case True
      then have w: "alive W" "unlocked W" "flash_mem H W = mwrite M d (window b (k * ss) ((i + 1) * ?B))"
        using o False B by (auto simp: outcome_def add.commute)
      have "\<exists>ret ctx' s'. delta_fill c H swap ctx1 ((i + 1) * ?B) W = Some (ret, ctx', s') \<and>
          (dead s' \<or> (ret = 0 \<and> frame ctx0 ctx' \<and> alive s' \<and> unlocked s' \<and>
             flash_mem H s' = mwrite M d (window b (k * ss) (min ss (length b - k * ss))) \<and>
             patch_state a b ss P ctx' (min ((k + 1) * ss) (length b))))"
        by (rule Suc.hyps(1) [OF _ fr1 _ _ _ w])
          (use Suc.hyps(2) Suc.prems(4) p(3,4) True in \<open>simp_all add: ac_simps\<close>)
      then show ?thesis
        using step True B by (simp add: add.commute)
    next
      case short: False
      then have n: "k * ss + i * ?B + n = length b" "n < ?B"
        using p(3) Suc.prems(4) by auto
      have fin: "i * ?B + n = min ss (length b - k * ss)" "min ((k + 1) * ss) (length b) = length b"
        using n room by (simp_all add: add.commute)
      have "wb_patch False m ctx1 ?B = (0, ctx1, [])" for m
        by (rule wb_patch_done) (use p(4) n(1) B in simp_all)
      then have "delta_fill c H swap ctx1 (i * ?B + n) W = Some (0, ctx1, W)"
        by (subst delta_fill.simps) simp
      moreover have "n = 0 \<Longrightarrow> flash_mem H s = mwrite M d (window b (k * ss) (i * ?B + n))"
        by (simp add: Suc.prems(7))
      ultimately show ?thesis
        using step o False fr1 p(4) n(1) fin Suc.prems(5,6) by (cases "n = 0") (auto simp: outcome_def)
    qed
  qed
qed

lemma delta_fill_any:
  assumes ss: "ss = WOLFBOOT_SECTOR_SIZE c" "0 < ss" "ss = j * DELTA_BLOCK_SIZE"
    and d: "d = img_hdr swap" and er: "\<And>i. i < ss \<Longrightarrow> M (d + i) = 255"
    and src: "\<And>L. length L \<le> ss \<Longrightarrow> hybrid a b ss k (mwrite M d L) (src_base ctx)"
    and pat: "\<And>L. length L \<le> ss \<Longrightarrow> mread (mwrite M d L) (patch_base ctx) (length P) = P"
    and st: "patch_state a b ss P ctx (min (k * ss) (length b))"
    and s: "alive s" "unlocked s" "flash_mem H s = M"
  shows "\<exists>ret ctx' s'. delta_fill c H swap ctx 0 s = Some (ret, ctx', s') \<and>
      (dead s' \<or> (ret = 0 \<and> frame ctx ctx' \<and> alive s' \<and> unlocked s' \<and>
         flash_mem H s' = mwrite M d (window b (k * ss) (min ss (length b - k * ss))) \<and>
         patch_state a b ss P ctx' (min ((k + 1) * ss) (length b))))"
proof (cases "k * ss \<le> length b")
  case True
  then show ?thesis
    using delta_fill_ok [OF ss True d er src pat frame_refl, of 0 s] st s by (simp add: min_def)
next
  case False
  then have "patch_state a b ss P ctx (length b)"
    using st by simp
  moreover have "wb_patch False m ctx DELTA_BLOCK_SIZE = (0, ctx, [])" for m
    by (rule wb_patch_done [OF calculation]) (simp add: DELTA_BLOCK_SIZE_def)
  ultimately show ?thesis
    using False s by (subst delta_fill.simps) (simp add: min_def)
qed

end

text \<open>
  The state before sector \<open>k\<close> of a fresh update of \<open>N\<close> sectors: BOOT holds the new image below
  the sector and the old one from there, UPDATE the patch \<open>P\<close> at \<open>pb\<close>, and no later sector has
  been touched.
\<close>

definition delta_inv ::
  "cfg \<Rightarrow> byte list \<Rightarrow> byte list \<Rightarrow> byte list \<Rightarrow> nat \<Rightarrow> nat \<Rightarrow> nat \<Rightarrow> mem \<Rightarrow> bool" where
  "delta_inv c a b P pb N k m \<longleftrightarrow>
     hybrid a b (WOLFBOOT_SECTOR_SIZE c) k m (WOLFBOOT_PARTITION_BOOT_ADDRESS c) \<and>
     mread m pb (length P) = P \<and> has_magic c PART_UPDATE m \<and>
     (\<forall>i. k \<le> i \<and> i < N \<longrightarrow> sector_flag c i m = Some SECT_FLAG_NEW)"

text \<open>Both images fit the first \<open>N\<close> sectors of BOOT, the patch fits UPDATE below its flags.\<close>

definition delta_fit :: "cfg \<Rightarrow> byte list \<Rightarrow> byte list \<Rightarrow> byte list \<Rightarrow> nat \<Rightarrow> nat \<Rightarrow> bool" where
  "delta_fit c a b P pb N \<longleftrightarrow>
     N < n_sectors c \<and> length a \<le> N * WOLFBOOT_SECTOR_SIZE c \<and> length b \<le> N * WOLFBOOT_SECTOR_SIZE c \<and>
     WOLFBOOT_PARTITION_UPDATE_ADDRESS c \<le> pb \<and>
     pb + length P \<le> WOLFBOOT_PARTITION_UPDATE_ADDRESS c + WOLFBOOT_PARTITION_SIZE c - WOLFBOOT_SECTOR_SIZE c"

lemma hybrid_cong:
  assumes "hybrid a b ss k m base" "length a \<le> n" "length b \<le> n"
    and "\<And>x. base \<le> x \<Longrightarrow> x < base + n \<Longrightarrow> m' x = m x"
  shows "hybrid a b ss k m' base"
  using assms by (auto simp: hybrid_def)

lemma delta_fit_bounds:
  assumes "cfg_ok c" "delta_fit c a b P pb N"
  shows "N * WOLFBOOT_SECTOR_SIZE c + WOLFBOOT_SECTOR_SIZE c \<le> WOLFBOOT_PARTITION_SIZE c"
proof -
  have "(N + 1) * WOLFBOOT_SECTOR_SIZE c \<le> n_sectors c * WOLFBOOT_SECTOR_SIZE c"
    using assms(2) by (intro mult_le_mono1) (simp add: delta_fit_def)
  then show ?thesis
    using n_sectors_size(1) [OF assms(1)] by simp
qed

text \<open>A change of the SWAP sector or of the flags keeps both images and the patch.\<close>

lemma delta_data_kept:
  assumes ok: "cfg_ok c" and fit: "delta_fit c a b P pb N"
    and h: "hybrid a b (WOLFBOOT_SECTOR_SIZE c) k m (WOLFBOOT_PARTITION_BOOT_ADDRESS c)"
    and p: "mread m pb (length P) = P"
    and so: "same_outside x (WOLFBOOT_SECTOR_SIZE c) m m'"
    and x: "x = WOLFBOOT_PARTITION_SWAP_ADDRESS c \<or> x = nvm_addrErase c PART_UPDATE"
  shows "hybrid a b (WOLFBOOT_SECTOR_SIZE c) k m' (WOLFBOOT_PARTITION_BOOT_ADDRESS c)"
    and "mread m' pb (length P) = P"
proof -
  note dis = cfg_ok_disjoint [OF ok] cfg_okD(4) [OF ok] delta_fit_bounds [OF ok fit]
  have f: "length a \<le> N * WOLFBOOT_SECTOR_SIZE c" "length b \<le> N * WOLFBOOT_SECTOR_SIZE c"
    "WOLFBOOT_PARTITION_UPDATE_ADDRESS c \<le> pb"
    "pb + length P \<le> WOLFBOOT_PARTITION_UPDATE_ADDRESS c + WOLFBOOT_PARTITION_SIZE c - WOLFBOOT_SECTOR_SIZE c"
    using fit by (simp_all add: delta_fit_def)
  have b: "x + WOLFBOOT_SECTOR_SIZE c \<le> WOLFBOOT_PARTITION_BOOT_ADDRESS c
      \<or> WOLFBOOT_PARTITION_BOOT_ADDRESS c + N * WOLFBOOT_SECTOR_SIZE c \<le> x"
    using x dis nvm_addrErase_update_cases [of c] by force
  show "hybrid a b (WOLFBOOT_SECTOR_SIZE c) k m' (WOLFBOOT_PARTITION_BOOT_ADDRESS c)"
    by (rule hybrid_cong [OF h f(1,2)]) (use b so in \<open>auto simp: same_outside_def\<close>)
  have "x + WOLFBOOT_SECTOR_SIZE c \<le> pb \<or> pb + length P \<le> x"
    using x dis f nvm_addrErase_update_cases [of c] by force
  then show "mread m' pb (length P) = P"
    using mread_same_outside [OF so, of pb "length P"] p by simp
qed

lemma set_flag_outside:
  assumes "cfg_ok c" "k < n_sectors c"
  shows "same_outside (nvm_addrErase c PART_UPDATE) (WOLFBOOT_SECTOR_SIZE c) m (set_flag_mem c k v m)"
proof (rule same_outside_mono)
  show "same_outside (trailer_addr c PART_UPDATE (2 + k div 2)) (6 + k div 2) m (set_flag_mem c k v m)"
    using assms by (intro set_flag_frame) (simp_all add: n_sectors_def)
  show "nvm_addrErase c PART_UPDATE \<le> trailer_addr c PART_UPDATE (2 + k div 2)"
    "trailer_addr c PART_UPDATE (2 + k div 2) + (6 + k div 2) \<le> nvm_addrErase c PART_UPDATE + WOLFBOOT_SECTOR_SIZE c"
    using flags_in_sector [OF assms] trailer_addr_flag [OF assms] by linarith+
qed

lemma delta_inv_flag:
  assumes ok: "cfg_ok c" and fit: "delta_fit c a b P pb N" and k: "k < N"
    and m: "delta_inv c a b P pb N k' m" "k' \<le> Suc k"
  shows "delta_inv c a b P pb N (Suc k) (set_flag_mem c k v m) \<or> k' \<noteq> Suc k"
    and "hybrid a b (WOLFBOOT_SECTOR_SIZE c) k' (set_flag_mem c k v m) (WOLFBOOT_PARTITION_BOOT_ADDRESS c)"
    and "mread (set_flag_mem c k v m) pb (length P) = P" "has_magic c PART_UPDATE (set_flag_mem c k v m)"
    and "\<And>i. Suc k \<le> i \<Longrightarrow> i < N \<Longrightarrow> sector_flag c i (set_flag_mem c k v m) = Some SECT_FLAG_NEW"
proof -
  have kn: "k < n_sectors c" "N < n_sectors c"
    using fit k by (simp_all add: delta_fit_def)
  have mm: "hybrid a b (WOLFBOOT_SECTOR_SIZE c) k' m (WOLFBOOT_PARTITION_BOOT_ADDRESS c)"
    "mread m pb (length P) = P" "has_magic c PART_UPDATE m"
    using m by (simp_all add: delta_inv_def)
  show h: "hybrid a b (WOLFBOOT_SECTOR_SIZE c) k' (set_flag_mem c k v m) (WOLFBOOT_PARTITION_BOOT_ADDRESS c)"
    and p: "mread (set_flag_mem c k v m) pb (length P) = P"
    using delta_data_kept [OF ok fit mm(1,2) set_flag_outside [OF ok kn(1)]] by simp_all
  show g: "has_magic c PART_UPDATE (set_flag_mem c k v m)"
    using part_state_set_flag [OF ok kn(1) mm(3), of v] mm(3) by (auto simp: part_state_def split: if_splits)
  show f: "sector_flag c i (set_flag_mem c k v m) = Some SECT_FLAG_NEW" if "Suc k \<le> i" "i < N" for i
    using sector_flag_set_other [OF ok kn(1) _ _ mm(3)] m that kn(2) by (simp add: delta_inv_def)
  show "delta_inv c a b P pb N (Suc k) (set_flag_mem c k v m) \<or> k' \<noteq> Suc k"
    using h p g f by (auto simp: delta_inv_def)
qed

text \<open>Replacing the sector in BOOT by the contents of the SWAP sector.\<close>

lemma delta_inv_copy:
  assumes ok: "cfg_ok c" and fit: "delta_fit c a b P pb N" and k: "k < N"
    and h: "hybrid a b (WOLFBOOT_SECTOR_SIZE c) k m (WOLFBOOT_PARTITION_BOOT_ADDRESS c)"
    and p: "mread m pb (length P) = P" and g: "has_magic c PART_UPDATE m"
    and f: "\<And>i. Suc k \<le> i \<Longrightarrow> i < N \<Longrightarrow> sector_flag c i m = Some SECT_FLAG_NEW"
    and L: "length L = WOLFBOOT_SECTOR_SIZE c"
      "take (min (WOLFBOOT_SECTOR_SIZE c) (length b - k * WOLFBOOT_SECTOR_SIZE c)) L =
         window b (k * WOLFBOOT_SECTOR_SIZE c) (min (WOLFBOOT_SECTOR_SIZE c) (length b - k * WOLFBOOT_SECTOR_SIZE c))"
  shows "delta_inv c a b P pb N (Suc k) (mwrite m (reg_addr c (RBoot k)) L)"
proof -
  let ?ss = "WOLFBOOT_SECTOR_SIZE c" and ?B = "WOLFBOOT_PARTITION_BOOT_ADDRESS c"
  let ?m = "mwrite m (reg_addr c (RBoot k)) L" and ?n = "min (WOLFBOOT_SECTOR_SIZE c) (length b - k * WOLFBOOT_SECTOR_SIZE c)"
  have kn: "reg_valid c (RBoot k)" "N < n_sectors c"
    using fit k by (simp_all add: delta_fit_def)
  have so: "same_outside (reg_addr c (RBoot k)) ?ss m ?m"
    using L(1) by (simp add: same_outside_def mem_simps)
  have byte: "L ! i = b ! (k * ?ss + i)" if "i < ?ss" "k * ?ss + i < length b" for i
  proof -
    have "L ! i = take ?n L ! i"
      using that by simp
    also have "\<dots> = b ! (k * ?ss + i)"
      unfolding L(2) using that by (simp add: window_def)
    finally show ?thesis .
  qed
  have new: "?m (?B + i) = b ! i" if i: "i < min (Suc k * ?ss) (length b)" for i
  proof (cases "i < k * ?ss")
    case True
    then show ?thesis
      using h i by (simp add: mwrite_apply hybrid_def)
  next
    case False
    then have "i - k * ?ss < ?ss"
      using i by auto
    then show ?thesis
      using False byte [of "i - k * ?ss"] i L(1) by (simp add: mwrite_apply)
  qed
  have old: "?m (?B + i) = a ! i" if "Suc k * ?ss \<le> i" "i < length a" for i
    using h that L(1) by (simp add: mwrite_apply hybrid_def)
  have hy: "hybrid a b ?ss (Suc k) ?m ?B"
    using new old by (simp add: hybrid_def)
  have "reg_addr c (RBoot k) + ?ss \<le> pb \<or> pb + length P \<le> reg_addr c (RBoot k)"
  proof -
    have "(k + 1) * ?ss \<le> N * ?ss"
      using k by (intro mult_le_mono1) simp
    then show ?thesis
      using cfg_ok_disjoint(1) [OF ok] fit delta_fit_bounds [OF ok fit] cfg_okD(4) [OF ok]
      by (auto simp: delta_fit_def)
  qed
  then have pt: "mread ?m pb (length P) = P"
    using mread_same_outside [OF so, of pb "length P"] p by simp
  note fs = flags_sameD [OF ok flags_same_reg [OF ok kn(1) so]]
  show ?thesis
    unfolding delta_inv_def using hy pt g f fs(2,3) kn(2) by auto
qed

context flash_hal
begin

lemma record_flag_in:
  assumes "cfg_ok c" "k + 1 < n_sectors c"
  shows "record_flag c H k v s = snd (wolfBoot_set_update_sector_flag c H k v s)"
proof -
  have "u32 ((k + 1) * WOLFBOOT_SECTOR_SIZE c) = (k + 1) * WOLFBOOT_SECTOR_SIZE c"
    using sector_off_bound(1) [OF assms] by (intro u32_id) simp
  moreover have "(k + 1) * WOLFBOOT_SECTOR_SIZE c < WOLFBOOT_PARTITION_SIZE c"
    using sector_in_partition [OF assms] cfg_okD(6) [OF assms(1)] by simp
  ultimately show ?thesis
    by (simp add: record_flag_def)
qed

lemma delta_sector_NEW:
  assumes nvm: "\<not> NVM_FLASH_WRITEONCE c" and kn: "k < 65536"
    and f: "sector_flag c k (flash_mem H s) = Some SECT_FLAG_NEW"
    and E: "E = snd (wb_flash_erase H swap 0 (WOLFBOOT_SECTOR_SIZE c) s)"
    and F: "delta_fill c H swap ctx 0 E = Some (ret, ctx', s1)"
    and S: "s2 = snd (wolfBoot_set_update_sector_flag c H k SECT_FLAG_SWAPPING s1)"
    and R: "R = wolfBoot_copy_sector c H swap boot k s2"
  shows "delta_sector c H boot swap ctx k s =
    Some (if ret < 0 then (ret, ctx', s1) else if fst R < 0 then (-1, ctx', snd R)
          else (0, ctx', record_flag c H k SECT_FLAG_UPDATED (snd R)))"
  using F by (simp add: delta_sector_def get_flag_nor [OF nvm kn] f E [symmetric] S [symmetric] R [symmetric]
      Let_def split_def)

lemma delta_sector_dead:
  assumes nvm: "\<not> NVM_FLASH_WRITEONCE c" and ok: "cfg_ok c" "k < n_sectors c"
    and d: "dead s" and r: "delta_sector c H boot swap ctx k s = Some (ret, ctx', s')"
  shows "dead s'"
proof -
  have k: "k < 65536"
    using sector_off_bound(2) [OF ok] .
  let ?E = "snd (wb_flash_erase H swap 0 (WOLFBOOT_SECTOR_SIZE c) s)"
  obtain r1 c1 s1 where f: "delta_fill c H swap ctx 0 ?E = Some (r1, c1, s1)"
    using delta_fill_returns [of c H swap ctx 0] by blast
  have "dead ?E"
    using frozen_erase d by (simp add: wb_flash_erase_def frozen_def)
  then have s1: "dead s1"
    using delta_fill_dead f by blast
  have z: "dead (record_flag c H k v t)" "dead (snd (wolfBoot_copy_sector c H swap boot k t))"
    "dead (snd (wolfBoot_set_update_sector_flag c H k v t))" if "dead t" for t v
    using that frozen_record [OF nvm ok] frozen_copy_sector frozen_set_flag [OF nvm k]
    by (simp_all add: frozen_def)
  show ?thesis
    using r d s1 z f
    by (auto simp: delta_sector_def get_flag_nor [OF nvm k] Let_def split_def split: option.splits if_splits prod.splits)
qed

lemma delta_sector_ok:
  assumes nvm: "\<not> NVM_FLASH_WRITEONCE c" and ok: "cfg_ok c" and blk: "DELTA_BLOCK_SIZE dvd WOLFBOOT_SECTOR_SIZE c"
    and fit: "delta_fit c a b P pb N" and k: "k < N"
    and im: "reg_img c boot k (RBoot k)" "reg_img c swap k RSwap" "fw_size swap = WOLFBOOT_SECTOR_SIZE c"
    and ctx: "src_base ctx = WOLFBOOT_PARTITION_BOOT_ADDRESS c" "patch_base ctx = pb"
    and st: "patch_state a b (WOLFBOOT_SECTOR_SIZE c) P ctx (min (k * WOLFBOOT_SECTOR_SIZE c) (length b))"
    and s: "alive s" "unlocked s" "delta_inv c a b P pb N k (flash_mem H s)"
  shows "\<exists>ret ctx' s'. delta_sector c H boot swap ctx k s = Some (ret, ctx', s') \<and>
    (dead s' \<or> (ret = 0 \<and> frame ctx ctx' \<and> alive s' \<and> unlocked s' \<and>
       patch_state a b (WOLFBOOT_SECTOR_SIZE c) P ctx' (min ((k + 1) * WOLFBOOT_SECTOR_SIZE c) (length b)) \<and>
       delta_inv c a b P pb N (Suc k) (flash_mem H s')))"
proof -
  let ?ss = "WOLFBOOT_SECTOR_SIZE c" and ?m = "flash_mem H s" and ?d = "WOLFBOOT_PARTITION_SWAP_ADDRESS c"
  let ?w = "window b (k * ?ss) (min ?ss (length b - k * ?ss))"
  have kn: "k < n_sectors c" "k < 65536" "k + 1 < n_sectors c"
    using fit k sector_off_bound(2) [OF ok, of k] by (simp_all add: delta_fit_def)
  have ss0: "0 < ?ss"
    using cfg_okD(6) [OF ok] by simp
  have mm: "hybrid a b ?ss k ?m (WOLFBOOT_PARTITION_BOOT_ADDRESS c)" "mread ?m pb (length P) = P"
    "has_magic c PART_UPDATE ?m" "sector_flag c k ?m = Some SECT_FLAG_NEW"
    using s(3) k by (simp_all add: delta_inv_def)
  define E where "E = snd (wb_flash_erase H swap 0 ?ss s)"
  have oE: "outcome (mfill ?m ?d ?ss 255) (\<lambda>_. True) E"
    unfolding E_def wb_flash_erase_def using im(2) by (simp add: outcome_mono [OF erase_outcome [OF s(1,2)]])
  obtain r1 ctx1 s1 where F: "delta_fill c H swap ctx 0 E = Some (r1, ctx1, s1)"
    using delta_fill_returns [of c H swap ctx 0 E] by blast
  define s2 where "s2 = snd (wolfBoot_set_update_sector_flag c H k SECT_FLAG_SWAPPING s1)"
  define R where "R = wolfBoot_copy_sector c H swap boot k s2"
  define T where "T = (if r1 < 0 then (r1, ctx1, s1) else if fst R < 0 then (-1, ctx1, snd R)
    else (0, ctx1, record_flag c H k SECT_FLAG_UPDATED (snd R)))"
  have D: "delta_sector c H boot swap ctx k s = Some T"
    unfolding T_def by (rule delta_sector_NEW [OF nvm kn(2) mm(4) E_def F s2_def R_def])
  have dd: "dead (record_flag c H k v t)" "dead (snd (wolfBoot_copy_sector c H swap boot k t))"
    "dead (snd (wolfBoot_set_update_sector_flag c H k v t))" if "dead t" for t v
    using that frozen_record [OF nvm ok kn(1)] frozen_copy_sector frozen_set_flag [OF nvm kn(2)]
    by (simp_all add: frozen_def)
  show ?thesis
  proof (cases "dead (snd (snd T))")
    case True
    then show ?thesis
      using D by (cases T) auto
  next
    case False
    have nd: "\<not> dead s1" "\<not> dead E"
      using False dd F delta_fill_dead [of E c swap ctx 0 r1 ctx1 s1] by (auto simp: T_def R_def s2_def split: if_splits)
    let ?M = "mfill ?m ?d ?ss 255"
    have E: "alive E" "unlocked E" "flash_mem H E = ?M"
      using oE nd(2) by (auto simp: outcome_def)
    have kept: "hybrid a b ?ss k (mwrite ?M ?d L) (src_base ctx)" "mread (mwrite ?M ?d L) (patch_base ctx) (length P) = P"
      if "length L \<le> ?ss" for L
      using delta_data_kept [OF ok fit mm(1,2), of ?d "mwrite ?M ?d L"] that ctx by (simp_all add: same_outside_def mem_simps)
    have d: "?d = img_hdr swap" and er: "\<And>i. i < ?ss \<Longrightarrow> ?M (?d + i) = 255"
      using im(2) by (simp_all add: mfill_apply)
    obtain j where j: "?ss = j * DELTA_BLOCK_SIZE"
      using blk by (metis dvd_def mult.commute)
    have F': "r1 = 0" "frame ctx ctx1" "alive s1" "unlocked s1" "flash_mem H s1 = mwrite ?M ?d ?w"
        "patch_state a b ?ss P ctx1 (min ((k + 1) * ?ss) (length b))"
      using delta_fill_any [OF refl ss0 j d er kept st E] nd(1) F by auto
    let ?m1 = "flash_mem H s1" and ?m2 = "set_flag_mem c k SECT_FLAG_SWAPPING (flash_mem H s1)"
    have "\<not> dead s2"
      using False dd F'(1) by (auto simp: T_def R_def split: if_splits)
    then have s2: "alive s2" "unlocked s2" "flash_mem H s2 = ?m2"
      using set_flag_outcome [OF nvm kn(2) F'(3,4)] by (auto simp: outcome_def s2_def)
    have wl: "length ?w = min ?ss (length b - k * ?ss)"
      by (simp add: window_def)
    have so: "same_outside (reg_addr c RSwap) ?ss ?m ?m1"
      unfolding F'(5) using wl by (auto simp: same_outside_def mem_simps)
    note fs = flags_sameD [OF ok flags_same_reg [OF ok _ so, simplified]]
    have i1: "delta_inv c a b P pb N k ?m1"
      using delta_data_kept [OF ok fit mm(1,2), of ?d ?m1] so s(3) fs fit by (simp add: delta_inv_def delta_fit_def)
    note i2 = delta_inv_flag(2-5) [OF ok fit k i1 le_SucI [OF le_refl], where v = SECT_FLAG_SWAPPING]
    have "\<not> dead (snd R)"
      using False dd F'(1) by (auto simp: T_def split: if_splits)
    have szw: "fw_size swap < 2147483648"
      using im(3) cfg_okD(14) [OF ok] by simp
    let ?L = "clip c 0 (fw_size swap) (sec c ?m2 RSwap)"
    have "?L = sec c ?m1 RSwap"
      using im(3) clip_all [of "sec c ?m1 RSwap" c] sec_set_flag [OF ok kn(1), of RSwap] by simp
    moreover have "take (min ?ss (length b - k * ?ss)) (sec c ?m1 RSwap) = ?w"
      using wl unfolding F'(5) sec_def by (simp add: take_mread mread_mwrite_same)
    ultimately have L: "length ?L = ?ss" "take (min ?ss (length b - k * ?ss)) ?L = ?w"
      by simp_all
    note cr = copy_region [OF ok kn(1) szw s2(1,2) im(2,1), folded R_def, unfolded s2(3), simplified]
    have R: "alive (snd R)" "unlocked (snd R)" "0 \<le> fst R" "flash_mem H (snd R) = mwrite ?m2 (reg_addr c (RBoot k)) ?L"
      using cr kn(3) \<open>\<not> dead (snd R)\<close> by (auto simp: outcome_def)
    have i3: "delta_inv c a b P pb N (Suc k) (flash_mem H (snd R))"
      unfolding R(4) by (rule delta_inv_copy [OF ok fit k i2(1-3) _ L]) (use i2(4) in simp)
    have T: "T = (0, ctx1, record_flag c H k SECT_FLAG_UPDATED (snd R))"
      using F'(1) R(3) by (simp add: T_def)
    have rec: "record_flag c H k SECT_FLAG_UPDATED (snd R) = snd (wolfBoot_set_update_sector_flag c H k SECT_FLAG_UPDATED (snd R))"
      using record_flag_in [OF ok kn(3)] .
    have "alive (snd (snd T)) \<and> unlocked (snd (snd T)) \<and>
        flash_mem H (snd (snd T)) = set_flag_mem c k SECT_FLAG_UPDATED (flash_mem H (snd R))"
      using set_flag_outcome [OF nvm kn(2) R(1,2), of SECT_FLAG_UPDATED] False by (auto simp: outcome_def T rec)
    moreover have "delta_inv c a b P pb N (Suc k) (set_flag_mem c k SECT_FLAG_UPDATED (flash_mem H (snd R)))"
      using delta_inv_flag(1) [OF ok fit k i3] by simp
    ultimately show ?thesis
      using D F'(2,6) by (simp add: T)
  qed
qed

subsection \<open>The loop over the sectors\<close>

lemma delta_loop_dead:
  assumes nvm: "\<not> NVM_FLASH_WRITEONCE c" and ok: "cfg_ok c"
    and N: "\<And>i. i * WOLFBOOT_SECTOR_SIZE c < tot \<Longrightarrow> i < n_sectors c"
  shows "0 < k \<Longrightarrow> dead s \<Longrightarrow> delta_loop c H boot swap ctx tot k s = Some (ret, n, s') \<Longrightarrow> dead s'"
proof (induction "tot - k * WOLFBOOT_SECTOR_SIZE c" arbitrary: k ctx s rule: less_induct)
  case less
  obtain r ctx1 s1 where d: "delta_sector c H boot swap ctx k s = Some (r, ctx1, s1)"
    using delta_sector_returns [of c H boot swap ctx k s] by blast
  show ?case
  proof (cases "tot < 2 ^ 31 \<and> k * WOLFBOOT_SECTOR_SIZE c < tot")
    case True
    then have "dead s1"
      using delta_sector_dead [OF nvm ok N less(3) d] by simp
    moreover have "tot - (k + 1) * WOLFBOOT_SECTOR_SIZE c < tot - k * WOLFBOOT_SECTOR_SIZE c"
      using True cfg_okD(6) [OF ok] by (simp add: diff_less_mono2)
    ultimately show ?thesis
      using less(1) [of "k + 1" s1 ctx1] less(2,4) True d by (subst (asm) (2) delta_loop.simps) (auto split: if_splits)
  next
    case False
    then have "delta_loop c H boot swap ctx tot k s = Some (0, k, s)"
      by (subst delta_loop.simps) (simp only: if_False)
    then show ?thesis
      using less(3,4) by simp
  qed
qed

lemma delta_loop_ok:
  assumes nvm: "\<not> NVM_FLASH_WRITEONCE c" and ok: "cfg_ok c" and blk: "DELTA_BLOCK_SIZE dvd WOLFBOOT_SECTOR_SIZE c"
    and fit: "delta_fit c a b P pb N" and N: "\<And>i. i * WOLFBOOT_SECTOR_SIZE c < tot \<longleftrightarrow> i < N" and t: "tot < 2 ^ 31"
    and im: "\<And>k. reg_img c boot k (RBoot k)" "\<And>k. reg_img c swap k RSwap" "fw_size swap = WOLFBOOT_SECTOR_SIZE c"
  shows "0 < k \<Longrightarrow> k \<le> N \<Longrightarrow> src_base ctx = WOLFBOOT_PARTITION_BOOT_ADDRESS c \<Longrightarrow> patch_base ctx = pb \<Longrightarrow>
    patch_state a b (WOLFBOOT_SECTOR_SIZE c) P ctx (min (k * WOLFBOOT_SECTOR_SIZE c) (length b)) \<Longrightarrow>
    alive s \<Longrightarrow> unlocked s \<Longrightarrow> delta_inv c a b P pb N k (flash_mem H s) \<Longrightarrow>
    \<exists>ret n s'. delta_loop c H boot swap ctx tot k s = Some (ret, n, s') \<and>
      (dead s' \<or> (ret = 0 \<and> n = N \<and> alive s' \<and> unlocked s' \<and> delta_inv c a b P pb N N (flash_mem H s')))"
proof (induction "N - k" arbitrary: k ctx s)
  case 0
  then have "k = N" "\<not> k * WOLFBOOT_SECTOR_SIZE c < tot"
    using N by auto
  with 0 show ?case
    by (subst delta_loop.simps) simp
next
  case (Suc e)
  have k: "k < N" "k * WOLFBOOT_SECTOR_SIZE c < tot"
    using Suc.hyps(2) N by auto
  have Nn: "i < n_sectors c" if "i * WOLFBOOT_SECTOR_SIZE c < tot" for i
    using that N fit by (simp add: delta_fit_def)
  obtain r ctx1 s1 where d: "delta_sector c H boot swap ctx k s = Some (r, ctx1, s1)"
    and q: "dead s1 \<or> (r = 0 \<and> frame ctx ctx1 \<and> alive s1 \<and> unlocked s1 \<and>
       patch_state a b (WOLFBOOT_SECTOR_SIZE c) P ctx1 (min ((k + 1) * WOLFBOOT_SECTOR_SIZE c) (length b)) \<and>
       delta_inv c a b P pb N (Suc k) (flash_mem H s1))"
    using delta_sector_ok [OF nvm ok blk fit k(1) im(1,2,3) Suc.prems(3-8)] by blast
  have step: "delta_loop c H boot swap ctx tot k s =
      (if r < 0 then Some (r, k, s1) else delta_loop c H boot swap ctx1 tot (k + 1) s1)"
    using d k(2) t Suc.prems(1) by (subst delta_loop.simps) simp
  show ?case
  proof (cases "dead s1")
    case True
    then show ?thesis
      using step delta_loop_returns [of c H boot swap ctx1 tot "k + 1" s1] cfg_okD(6) [OF ok]
        delta_loop_dead [OF nvm ok Nn, where k = "k + 1" and s = s1] by (cases "r < 0") auto
  next
    case False
    then show ?thesis
      using Suc.hyps(1) [of "k + 1" ctx1 s1] Suc.hyps(2) q step k Suc.prems(3,4) by (simp add: frame_def)
  qed
qed

lemma delta_loop_first:
  assumes nvm: "\<not> NVM_FLASH_WRITEONCE c" and ok: "cfg_ok c" and blk: "DELTA_BLOCK_SIZE dvd WOLFBOOT_SECTOR_SIZE c"
    and fit: "delta_fit c a b P pb N" and N: "\<And>i. i * WOLFBOOT_SECTOR_SIZE c < tot \<longleftrightarrow> i < N"
    and tot: "tot = max tot0 (u32 (le32 (take 4 (drop 4 b)) + IMAGE_HEADER_SIZE c))" "0 < tot0"
      "IMAGE_HEADER_SIZE c < tot" "8 \<le> length b"
    and im: "\<And>k. reg_img c boot k (RBoot k)" "\<And>k. reg_img c swap k RSwap" "fw_size swap = WOLFBOOT_SECTOR_SIZE c"
    and ctx: "src_base ctx = WOLFBOOT_PARTITION_BOOT_ADDRESS c" "patch_base ctx = pb"
    and st: "patch_state a b (WOLFBOOT_SECTOR_SIZE c) P ctx 0"
    and s: "alive s" "unlocked s" "delta_inv c a b P pb N 0 (flash_mem H s)"
  shows "\<exists>ret n s'. delta_loop c H boot swap ctx tot0 0 s = Some (ret, n, s') \<and>
      (dead s' \<or> (ret = 0 \<and> n = N \<and> alive s' \<and> unlocked s' \<and> delta_inv c a b P pb N N (flash_mem H s')))"
proof -
  let ?ss = "WOLFBOOT_SECTOR_SIZE c" and ?B = "WOLFBOOT_PARTITION_BOOT_ADDRESS c"
  have ss: "16 \<le> ?ss"
    using cfg_okD(6) [OF ok] .
  have N0: "0 < N"
    using N [of 0] tot(3) by simp
  have tp: "tot \<le> WOLFBOOT_PARTITION_SIZE c"
    using N [of N] delta_fit_bounds [OF ok fit] by simp
  then have t31: "tot < 2 ^ 31" "tot0 \<le> tot"
    using cfg_okD(12) [OF ok] tot(1) by simp_all
  obtain r ctx1 s1 where d: "delta_sector c H boot swap ctx 0 s = Some (r, ctx1, s1)"
    and q: "dead s1 \<or> (r = 0 \<and> frame ctx ctx1 \<and> alive s1 \<and> unlocked s1 \<and>
       patch_state a b ?ss P ctx1 (min ((0 + 1) * ?ss) (length b)) \<and>
       delta_inv c a b P pb N (Suc 0) (flash_mem H s1))"
    using delta_sector_ok [OF nvm ok blk fit N0 im(1,2,3) ctx _ s] st by auto
  define s2 where "s2 = hal_flash_unlock H (hal_flash_lock H s1)"
  define new where "new = u32 (wolfBoot_image_size (flash_mem H (hal_flash_lock H s1)) ?B + IMAGE_HEADER_SIZE c)"
  define mx where "mx = max tot0 new"
  have step: "delta_loop c H boot swap ctx tot0 0 s =
      (if r < 0 then Some (r, 0, s1)
       else if mx \<le> IMAGE_HEADER_SIZE c then Some (-1, 0, s2)
       else if mx > WOLFBOOT_PARTITION_SIZE c then Some (-1, 0, s2)
       else delta_loop c H boot swap ctx1 (mx) 1 s2)"
    using d tot(2) t31 by (subst delta_loop.simps) (auto simp: s2_def mx_def new_def Let_def max_def)
  show ?thesis
  proof (cases "dead s1")
    case True
    then have d2: "dead s2"
      using lock_dead unlock_dead by (simp add: s2_def)
    have in_part: "i < n_sectors c" if "i * ?ss < t" "t \<le> WOLFBOOT_PARTITION_SIZE c" for i t
    proof -
      have "i * ?ss < n_sectors c * ?ss"
        using that n_sectors_size(1) [OF ok] by simp
      then show ?thesis
        by simp
    qed
    have "dead s'" if "mx \<le> WOLFBOOT_PARTITION_SIZE c"
        "delta_loop c H boot swap ctx1 (mx) 1 s2 = Some (ret, n, s')" for ret n s'
      by (rule delta_loop_dead [OF nvm ok _ _ d2 that(2)]) (use in_part that(1) in auto)
    then show ?thesis
      using step True d2 delta_loop_returns [of c H boot swap ctx1 "mx" 1 s2] ss by auto
  next
    case False
    then have q1: "r = 0" "frame ctx ctx1" "alive s1" "unlocked s1"
      "patch_state a b ?ss P ctx1 (min (1 * ?ss) (length b))" "delta_inv c a b P pb N 1 (flash_mem H s1)"
      using q by simp_all
    have "mread (flash_mem H s1) (?B + 4) 4 = take 4 (drop 4 b)"
      using q1(6) tot(4) ss by (intro nth_equalityI) (auto simp: delta_inv_def hybrid_def add.assoc)
    then have n: "mx = tot"
      using tot(1) by (simp add: mx_def new_def lock_mem wolfBoot_image_size_def le32_at_def)
    have s2: "alive s2" "unlocked s2" "flash_mem H s2 = flash_mem H s1"
      using unlock_alive [OF lock_alive [OF q1(3)]] by (simp_all add: s2_def lock_mem unlock_mem)
    show ?thesis
      using delta_loop_ok [OF nvm ok blk fit N t31(1) im, of 1 ctx1 s2] step q1 s2 N0 n tot(3) tp ctx
      by (simp add: frame_def)
  qed
qed

end

lemma base_diff_patch_state:
  assumes ss: "6 \<le> ss" "ss < 65536" and blksz: "7 < blksz"
    and len: "length a \<le> 2 ^ 24" "length b \<le> 2 ^ 24" "length a \<le> S" "length b \<le> S" "0 < length b"
    and P: "base_diff_loop a b ss blksz 0 [] = Some P" and init: "wb_patch_init False src S pb (length P) = Some ctx"
  shows "src_base ctx = src" "patch_base ctx = pb" "patch_state a b ss P ctx 0"
proof -
  have "emits a b ss 0 P (length b)"
    using base_diff_emits [OF ss blksz len(1,2) emits_Nil] P by auto
  then obtain ts where ts: "P = concat (map enc ts)" "toks_ok a b ss 0 ts (length b)"
    by (auto simp: emits_def)
  then show "src_base ctx = src" "patch_base ctx = pb" "patch_state a b ss P ctx 0"
    using toks_fit [OF ts(2) len(3,4)] init by (auto simp: wb_patch_init_def patch_state_def split: if_splits)
qed

subsection \<open>Properties\<close>


definition demo_from :: "byte list" where
  "demo_from = replicate 300 7"

definition demo_to :: "byte list" where
  "demo_to = [0, 0, 0, 0, 44, 0, 0, 0] @ replicate 292 9"

definition demo_boot_image :: wolfBoot_image where
  "demo_boot_image = image_zero\<lparr>img_hdr := 0x80000, img_part := PART_BOOT, fw_size := 44\<rparr>"

definition demo_swap_image :: wolfBoot_image where
  "demo_swap_image = image_zero\<lparr>img_hdr := 0x180000, img_part := PART_SWAP, fw_size := 0x1000\<rparr>"

definition demo_delta_sim :: "byte list \<Rightarrow> sim" where
  "demo_delta_sim P =
     blank_sim\<lparr>sim_mem := trigger_mem sim_config (mwrite (mwrite (\<lambda>_. 255) 0x80000 demo_from) 0x100100 P)\<rparr>"

lemma toks_length: "toks_ok a b ss q ts e \<Longrightarrow> q + length (concat (map enc ts)) \<le> e + 6 * (e - q) \<and> q \<le> e"
proof (induction ts arbitrary: q)
  case (Cons t ts)
  have "length (enc t) \<le> 6 * tok_len t" "0 < tok_len t"
    using Cons.prems by (cases t; auto simp: block_hdr_def)+
  then show ?case
    using Cons.IH [of "q + tok_len t"] Cons.prems by auto
qed simp

lemma demo_delta_patch:
  "\<exists>P. base_diff_loop demo_from demo_to 0x1000 1024 0 [] = Some P \<and> 0 < length P \<and> length P \<le> 2100"
proof -
  have len: "length demo_from = 300" "length demo_to = 300"
    by (simp_all add: demo_from_def demo_to_def)
  obtain P where P: "base_diff_loop demo_from demo_to 0x1000 1024 0 [] = Some P" "emits demo_from demo_to 0x1000 0 P 300"
    using base_diff_emits [of 4096 1024 demo_from demo_to "[]" 0, OF _ _ _ _ _ emits_Nil] len by auto
  obtain ts where ts: "P = concat (map enc ts)" "toks_ok demo_from demo_to 0x1000 0 ts 300"
    using P(2) by (auto simp: emits_def)
  have "0 < length P"
    using ts by (cases ts; cases "hd ts") (auto simp: block_hdr_def)
  then show ?thesis
    using P(1) ts(1) toks_length [OF ts(2)] by auto
qed


text \<open>
  C36. \<open>wolfBoot_delta_update\<close> returns, for any device, patch and images: its loops over blocks and
  sectors end even on corrupt patches and flags.
\<close>

theorem delta_update_returns:
  assumes "0 < WOLFBOOT_SECTOR_SIZE c"
  shows "\<exists>ret s'. wolfBoot_delta_update c H boot update swap is_inverse resume s = Some (ret, s')"
proof -
  have e: "\<exists>s'. delta_erase_rest c H im n t = Some s'" for im n t
    by (rule delta_erase_rest_returns [OF assms])
  have l: "\<exists>ret n s'. delta_loop c H im swap ctx tot 0 t = Some (ret, n, s')" for im ctx tot t
    by (rule delta_loop_returns [OF assms])
  show ?thesis
    unfolding wolfBoot_delta_update_def Let_def
    by (auto split: option.split) (metis e l option.distinct(1) prod_cases3 option.inject)+
qed

theorem delta_update_returns_witness:
  "0 < WOLFBOOT_SECTOR_SIZE sim_config \<and>
   (\<exists>ret s'. wolfBoot_delta_update sim_config (sim_hal sim_config) demo_boot_image image_zero demo_swap_image
      False True blank_sim = Some (ret, s'))"
  using delta_update_returns [of sim_config "sim_hal sim_config" demo_boot_image image_zero demo_swap_image False True blank_sim]
  by simp

lemma hardened_compare_0:
  "length e = n \<Longrightarrow> length d = n \<Longrightarrow> wolfBoot_hardened_CT_compare e d n = 0 \<longleftrightarrow> e = d"
  by (simp add: wolfBoot_hardened_CT_compare_def or_eq_0_iff image_CT_compare_lists)

text \<open>
  What a forward delta update needs: a complete delta header in UPDATE, the base version of the
  patch in BOOT, and if UPDATE has a base digest, the same SHA-256 digest in the header of BOOT.
\<close>

definition delta_base_ok :: "cfg \<Rightarrow> mem \<Rightarrow> nat \<Rightarrow> bool" where
  "delta_base_ok c m boot \<longleftrightarrow>
     (case wolfBoot_get_delta_info c m PART_UPDATE False of
        None \<Rightarrow> False
      | Some (off, sz, base, base_sz) \<Rightarrow>
          0 < le32_at m sz \<and>
          wolfBoot_current_firmware_version c m = wolfBoot_get_diffbase_version c m PART_UPDATE \<and>
          (base_sz = 0 \<or>
           base_sz = 32 \<and>
           (case wolfBoot_find_header c m (boot + IMAGE_HEADER_OFFSET) HDR_SHA256 of
              (n, digest) \<Rightarrow> n = 32 \<and> mread m base 32 = mread m digest 32)))"

lemma delta_init_base:
  assumes "delta_init c m boot update False False = Some ctx"
  shows "delta_base_ok c m (img_hdr boot)"
proof -
  obtain off sz base base_sz where i: "wolfBoot_get_delta_info c m PART_UPDATE False = Some (off, sz, base, base_sz)"
    using assms by (auto simp: delta_init_def split: option.splits)
  have base: "base = 0 \<longrightarrow> base_sz = 0"
    using i find_header_none [of c m _ HDR_IMG_DELTA_BASE_HASH]
    by (auto simp: wolfBoot_get_delta_info_def Let_def split: prod.splits if_splits)
  obtain n digest where d: "wolfBoot_find_header c m (img_hdr boot + IMAGE_HEADER_OFFSET) HDR_SHA256 = (n, digest)"
    by fastforce
  show ?thesis
    using assms base i d
    by (auto simp: delta_init_def delta_base_ok_def Let_def WOLFBOOT_SHA_DIGEST_SIZE_def hardened_compare_0
        wb_patch_init_def split: if_splits)
qed

text \<open>
  C37. A forward delta update that is not resumed is refused, with the flash as it was, unless
  UPDATE holds a complete delta header and BOOT the base of its patch: the version must be the
  base version, and a base digest must be the digest of BOOT.
\<close>

theorem delta_update_refuses:
  assumes "flash_hal H alive unlocked dead" and "\<not> delta_base_ok c (flash_mem H s) (img_hdr boot)"
  shows "\<exists>s'. wolfBoot_delta_update c H boot update swap False False s = Some (-1, s') \<and>
    flash_mem H s' = flash_mem H s"
proof -
  have mem: "flash_mem H (hal_flash_unlock H t) = flash_mem H t" "flash_mem H (hal_flash_lock H t) = flash_mem H t" for t
    using flash_dev.unlock_mem [OF flash_hal.axioms(1) [OF assms(1)]]
      flash_dev.lock_mem [OF flash_hal.axioms(1) [OF assms(1)]] by simp_all
  have "delta_init c (flash_mem H s) im update False False = None" if "img_hdr im = img_hdr boot" for im
    using delta_init_base [of c "flash_mem H s" im update] assms(2) that by (cases "delta_init c (flash_mem H s) im update False False") auto
  then show ?thesis
    by (simp add: wolfBoot_delta_update_def Let_def mem)
qed

theorem delta_update_refuses_witness:
  "\<not> delta_base_ok sim_config (sim_mem triggered_sim) 0x80000 \<and>
   (\<exists>s'. wolfBoot_delta_update sim_config (sim_hal sim_config) demo_boot_image demo_boot_image demo_swap_image
      False False triggered_sim = Some (-1, s') \<and> sim_mem s' = sim_mem triggered_sim)"
proof -
  have "le32_at (sim_mem triggered_sim) 0x100000 = le32_at (\<lambda>_. 255) 0x100000"
    using same_outside_mread [OF trigger_mem_frame [OF sim_config_ok, of "\<lambda>_. 255"], of "0x100000" 4]
    by (simp add: le32_at_def nvm_addrErase_def del: le32_at_blank)
  then have "\<not> delta_base_ok sim_config (sim_mem triggered_sim) 0x80000"
    by (simp add: delta_base_ok_def wolfBoot_get_delta_info_def wolfBoot_get_image_from_part_def WOLFBOOT_MAGIC_def)
  then show ?thesis
    using delta_update_refuses [OF sim_flash_hal [of sim_config, simplified], of sim_config triggered_sim demo_boot_image
        demo_boot_image demo_swap_image] by (simp add: demo_boot_image_def)
qed

end
