(* ===== verification/Gzip.thy ===== *)
theory Gzip
  imports Prelude
begin

text \<open>
  Decompression of gzip images (\<open>src/gzip.c\<close>, RFC 1951 and RFC 1952): the bit reader, the
  canonical Huffman tables, the three kinds of DEFLATE blocks, and the gzip wrapper. The input
  and output buffers are byte lists, whose lengths are \<open>in_len\<close> and \<open>out_max\<close>. Functions
  that index an array return \<open>None\<close> for an access outside of it or to an entry that was never
  written; \<open>None\<close> is also the value of a loop that does not end.
\<close>

section \<open>Decompression (\<open>src/gzip.c\<close>)\<close>

subsection \<open>Constants and tables\<close>

definition WOLFBOOT_GZIP_E_FORMAT :: int where "WOLFBOOT_GZIP_E_FORMAT = -1"
definition WOLFBOOT_GZIP_E_TRUNCATED :: int where "WOLFBOOT_GZIP_E_TRUNCATED = -2"
definition WOLFBOOT_GZIP_E_OUTPUT :: int where "WOLFBOOT_GZIP_E_OUTPUT = -3"
definition WOLFBOOT_GZIP_E_HUFFMAN :: int where "WOLFBOOT_GZIP_E_HUFFMAN = -4"
definition WOLFBOOT_GZIP_E_DISTANCE :: int where "WOLFBOOT_GZIP_E_DISTANCE = -5"
definition WOLFBOOT_GZIP_E_CRC32 :: int where "WOLFBOOT_GZIP_E_CRC32 = -6"
definition WOLFBOOT_GZIP_E_ISIZE :: int where "WOLFBOOT_GZIP_E_ISIZE = -7"
definition WOLFBOOT_GZIP_E_PARAM :: int where "WOLFBOOT_GZIP_E_PARAM = -8"

lemmas gz_errors = WOLFBOOT_GZIP_E_FORMAT_def WOLFBOOT_GZIP_E_TRUNCATED_def WOLFBOOT_GZIP_E_OUTPUT_def
  WOLFBOOT_GZIP_E_HUFFMAN_def WOLFBOOT_GZIP_E_DISTANCE_def WOLFBOOT_GZIP_E_CRC32_def WOLFBOOT_GZIP_E_ISIZE_def
  WOLFBOOT_GZIP_E_PARAM_def

definition gz_len_base :: "nat list" where
  "gz_len_base = [3, 4, 5, 6, 7, 8, 9, 10, 11, 13, 15, 17, 19, 23, 27, 31, 35, 43, 51, 59, 67, 83, 99,
     115, 131, 163, 195, 227, 258]"

definition gz_len_extra :: "nat list" where
  "gz_len_extra = [0, 0, 0, 0, 0, 0, 0, 0, 1, 1, 1, 1, 2, 2, 2, 2, 3, 3, 3, 3, 4, 4, 4, 4, 5, 5, 5, 5, 0]"

definition gz_dist_base :: "nat list" where
  "gz_dist_base = [1, 2, 3, 4, 5, 7, 9, 13, 17, 25, 33, 49, 65, 97, 129, 193, 257, 385, 513, 769, 1025,
     1537, 2049, 3073, 4097, 6145, 8193, 12289, 16385, 24577]"

definition gz_dist_extra :: "nat list" where
  "gz_dist_extra = [0, 0, 0, 0, 1, 1, 2, 2, 3, 3, 4, 4, 5, 5, 6, 6, 7, 7, 8, 8, 9, 9, 10, 10, 11, 11, 12,
     12, 13, 13]"

definition gz_cl_order :: "nat list" where
  "gz_cl_order = [16, 17, 18, 0, 8, 7, 9, 6, 10, 5, 11, 4, 12, 3, 13, 2, 14, 1, 15]"

lemmas gz_tables = gz_len_base_def gz_len_extra_def gz_dist_base_def gz_dist_extra_def

record gz_state =
  gz_in :: "byte list"
  in_pos :: nat
  bit_buf :: "32 word"
  bit_count :: nat
  gz_out :: "byte list"
  out_pos :: nat
  gz_crc32 :: "32 word"

record gz_huff =
  counts :: "nat list"
  symbols :: "nat option list"

subsection \<open>CRC, bit reader and output\<close>

definition GZIP_CRC32_POLY :: "32 word" where "GZIP_CRC32_POLY = 0xEDB88320"

definition gz_crc32_bit :: "32 word \<Rightarrow> 32 word" where
  "gz_crc32_bit crc = (if crc AND 1 \<noteq> 0 then drop_bit 1 crc XOR GZIP_CRC32_POLY else drop_bit 1 crc)"

definition gz_crc32_byte :: "32 word \<Rightarrow> byte \<Rightarrow> 32 word" where
  "gz_crc32_byte crc b = (gz_crc32_bit ^^ 8) (crc XOR ucast b)"

function gz_need_bits :: "nat \<Rightarrow> gz_state \<Rightarrow> int \<times> gz_state" where
  "gz_need_bits n s =
     (if bit_count s < n then
        (if in_pos s \<ge> length (gz_in s) then (WOLFBOOT_GZIP_E_TRUNCATED, s)
         else gz_need_bits n
           (s\<lparr>bit_buf := bit_buf s OR push_bit (bit_count s) (ucast (gz_in s ! in_pos s)),
              in_pos := in_pos s + 1, bit_count := bit_count s + 8\<rparr>))
      else (0, s))"
  by pat_completeness auto
termination
  by (relation "measure (\<lambda>(n, s). n - bit_count s)") auto

declare gz_need_bits.simps [simp del]

definition gz_get_bits :: "nat \<Rightarrow> gz_state \<Rightarrow> int \<times> nat \<times> gz_state" where
  "gz_get_bits n s =
     (case gz_need_bits n s of
        (ret, s) \<Rightarrow>
          if ret = 0 then
            (0, unat (bit_buf s AND (push_bit n 1 - 1)),
             s\<lparr>bit_buf := drop_bit n (bit_buf s), bit_count := bit_count s - n\<rparr>)
          else (ret, 0, s))"

definition gz_align_byte :: "gz_state \<Rightarrow> gz_state" where
  "gz_align_byte s =
     (let d = bit_count s mod 8
      in s\<lparr>bit_buf := drop_bit d (bit_buf s), bit_count := bit_count s - d\<rparr>)"

definition gz_emit_byte :: "byte \<Rightarrow> gz_state \<Rightarrow> int \<times> gz_state" where
  "gz_emit_byte b s =
     (if out_pos s \<ge> length (gz_out s) then (WOLFBOOT_GZIP_E_OUTPUT, s)
      else (0, s\<lparr>gz_out := (gz_out s)[out_pos s := b], out_pos := out_pos s + 1,
                 gz_crc32 := gz_crc32_byte (gz_crc32 s) b\<rparr>))"

subsection \<open>Canonical Huffman codes\<close>

definition rd :: "'a list \<Rightarrow> nat \<Rightarrow> 'a option" where
  "rd xs i = (if i < length xs then Some (xs ! i) else None)"

fun huff_count :: "nat list \<Rightarrow> nat list \<Rightarrow> nat list \<Rightarrow> (int \<times> nat list) option" where
  "huff_count lengths [] cs = Some (0, cs)"
| "huff_count lengths (sm # sms) cs =
     (case rd lengths sm of
        None \<Rightarrow> None
      | Some l \<Rightarrow>
          if l > 15 then Some (WOLFBOOT_GZIP_E_HUFFMAN, cs)
          else huff_count lengths sms (cs[l := cs ! l + 1]))"

fun huff_kraft :: "nat list \<Rightarrow> nat list \<Rightarrow> int \<Rightarrow> int" where
  "huff_kraft cs [] left = 0"
| "huff_kraft cs (len # lens) left =
     (if int (cs ! len) > 2 * left then WOLFBOOT_GZIP_E_HUFFMAN
      else huff_kraft cs lens (2 * left - int (cs ! len)))"

fun huff_offs :: "nat list \<Rightarrow> nat list \<Rightarrow> nat list \<Rightarrow> nat list" where
  "huff_offs cs [] offs = offs"
| "huff_offs cs (len # lens) offs = huff_offs cs lens (offs[len + 1 := offs ! len + cs ! len])"

fun huff_sort :: "nat list \<Rightarrow> nat list \<Rightarrow> nat list \<Rightarrow> nat option list \<Rightarrow> nat option list option" where
  "huff_sort lengths [] offs sy = Some sy"
| "huff_sort lengths (sm # sms) offs sy =
     (case rd lengths sm of
        None \<Rightarrow> None
      | Some sl \<Rightarrow>
          if sl \<noteq> 0 then
            (case rd offs sl of
               None \<Rightarrow> None
             | Some k \<Rightarrow>
                 if k < length sy then huff_sort lengths sms (offs[sl := k + 1]) (sy[k := Some sm]) else None)
          else huff_sort lengths sms offs sy)"

definition gz_huff_build :: "nat list \<Rightarrow> nat \<Rightarrow> (int \<times> gz_huff) option" where
  "gz_huff_build lengths n =
     (case huff_count lengths [0..<n] (replicate 16 0) of
        None \<Rightarrow> None
      | Some (ret, cs) \<Rightarrow>
          (let h = \<lparr>counts = cs, symbols = replicate 288 None\<rparr>;
               all_zero = (ret = 0 \<and> cs ! 0 = n);
               ret = (if ret = 0 \<and> \<not> all_zero then huff_kraft cs [1..<16] 1 else ret)
           in if ret = 0 \<and> \<not> all_zero then
                (case huff_sort lengths [0..<n] (huff_offs cs [1..<15] (replicate 16 0)) (symbols h) of
                   None \<Rightarrow> None
                 | Some sy \<Rightarrow> Some (0, h\<lparr>symbols := sy\<rparr>))
              else Some (ret, h)))"

fun huff_decode :: "nat list \<Rightarrow> gz_huff \<Rightarrow> int \<Rightarrow> int \<Rightarrow> int \<Rightarrow> gz_state \<Rightarrow> (int \<times> gz_state) option" where
  "huff_decode [] h code first index s = Some (WOLFBOOT_GZIP_E_HUFFMAN, s)"
| "huff_decode (len # lens) h code first index s =
     (case gz_get_bits 1 s of
        (br_ret, b, s) \<Rightarrow>
          if br_ret \<noteq> 0 then Some (br_ret, s)
          else
            (let code = 2 * code + int b
             in case rd (counts h) len of
                  None \<Rightarrow> None
                | Some count \<Rightarrow>
                    if code - int count < first then
                      (let i = index + (code - first)
                       in if i < 0 then None
                          else case rd (symbols h) (nat i) of
                                 Some (Some sm) \<Rightarrow> Some (int sm, s)
                               | _ \<Rightarrow> None)
                    else huff_decode lens h code (2 * (first + int count)) (index + int count) s))"

definition gz_huff_decode :: "gz_huff \<Rightarrow> gz_state \<Rightarrow> (int \<times> gz_state) option" where
  "gz_huff_decode h s = huff_decode [1..<16] h 0 0 0 s"

subsection \<open>Blocks\<close>

definition rd16 :: "byte list \<Rightarrow> nat \<Rightarrow> nat option" where
  "rd16 xs i =
     (case (rd xs i, rd xs (i + 1)) of (Some a, Some b) \<Rightarrow> Some (unat a + 256 * unat b) | _ \<Rightarrow> None)"

fun stored_loop :: "nat \<Rightarrow> gz_state \<Rightarrow> (int \<times> gz_state) option" where
  "stored_loop 0 s = Some (0, s)"
| "stored_loop (Suc len) s =
     (case rd (gz_in s) (in_pos s) of
        None \<Rightarrow> None
      | Some b \<Rightarrow>
          (case gz_emit_byte b s of
             (ret, s) \<Rightarrow> if ret = 0 then stored_loop len (s\<lparr>in_pos := in_pos s + 1\<rparr>) else Some (ret, s)))"

definition gz_inflate_stored :: "gz_state \<Rightarrow> (int \<times> gz_state) option" where
  "gz_inflate_stored s =
     (let s = gz_align_byte s
      in if u32 (in_pos s + 4) > length (gz_in s) then Some (WOLFBOOT_GZIP_E_TRUNCATED, s)
         else
           (case (rd16 (gz_in s) (in_pos s), rd16 (gz_in s) (in_pos s + 2)) of
              (Some len, Some nlen) \<Rightarrow>
                (let s = s\<lparr>in_pos := u32 (in_pos s + 4)\<rparr>
                 in if len XOR 0xFFFF \<noteq> nlen then Some (WOLFBOOT_GZIP_E_FORMAT, s)
                    else if u32 (in_pos s + len) > length (gz_in s) then Some (WOLFBOOT_GZIP_E_TRUNCATED, s)
                    else stored_loop len (s\<lparr>bit_buf := 0, bit_count := 0\<rparr>))
            | _ \<Rightarrow> None))"

definition gz_fixed_lengths :: "nat list" where
  "gz_fixed_lengths = replicate 144 8 @ replicate 112 9 @ replicate 24 7 @ replicate 8 8"

definition gz_build_fixed :: "(int \<times> gz_huff \<times> gz_huff) option" where
  "gz_build_fixed =
     (case gz_huff_build gz_fixed_lengths 288 of
        None \<Rightarrow> None
      | Some (ret, litlen) \<Rightarrow>
          if ret = 0 then
            (case gz_huff_build (replicate 30 5 @ drop 30 gz_fixed_lengths) 30 of
               None \<Rightarrow> None
             | Some (ret, dist) \<Rightarrow> Some (ret, litlen, dist))
          else Some (ret, litlen, litlen))"

definition gz_length :: "nat \<Rightarrow> gz_state \<Rightarrow> int \<times> nat \<times> gz_state" where
  "gz_length li s =
     (if li \<ge> 29 then (WOLFBOOT_GZIP_E_HUFFMAN, 0, s)
      else if gz_len_extra ! li > 0 then
        (case gz_get_bits (gz_len_extra ! li) s of
           (ret, extra, s) \<Rightarrow> if ret = 0 then (0, gz_len_base ! li + extra, s) else (ret, gz_len_base ! li, s))
      else (0, gz_len_base ! li, s))"

definition gz_distance :: "gz_huff \<Rightarrow> gz_state \<Rightarrow> (int \<times> nat \<times> gz_state) option" where
  "gz_distance dist s =
     (case gz_huff_decode dist s of
        None \<Rightarrow> None
      | Some (sm, s) \<Rightarrow>
          if sm < 0 then Some (sm, 0, s)
          else if sm \<ge> 30 then Some (WOLFBOOT_GZIP_E_HUFFMAN, 0, s)
          else if gz_dist_extra ! nat sm > 0 then
            (case gz_get_bits (gz_dist_extra ! nat sm) s of
               (ret, extra, s) \<Rightarrow>
                 if ret = 0 then Some (0, gz_dist_base ! nat sm + extra, s)
                 else Some (ret, gz_dist_base ! nat sm, s))
          else Some (0, gz_dist_base ! nat sm, s))"

fun copy_loop :: "nat \<Rightarrow> nat \<Rightarrow> gz_state \<Rightarrow> (int \<times> gz_state) option" where
  "copy_loop 0 copy_pos s = Some (0, s)"
| "copy_loop (Suc len) copy_pos s =
     (case rd (gz_out s) copy_pos of
        None \<Rightarrow> None
      | Some b \<Rightarrow>
          (case gz_emit_byte b s of
             (ret, s) \<Rightarrow> if ret = 0 then copy_loop len (copy_pos + 1) s else Some (ret, s)))"

definition gz_match :: "gz_huff \<Rightarrow> nat \<Rightarrow> gz_state \<Rightarrow> (int \<times> gz_state) option" where
  "gz_match dist sm s =
     (case gz_length (sm - 257) s of
        (ret, len, s) \<Rightarrow>
          if ret \<noteq> 0 then Some (ret, s)
          else
            (case gz_distance dist s of
               None \<Rightarrow> None
             | Some (ret, distance, s) \<Rightarrow>
                 if ret \<noteq> 0 then Some (ret, s)
                 else if distance = 0 \<or> distance > out_pos s then Some (WOLFBOOT_GZIP_E_DISTANCE, s)
                 else if u32 (out_pos s + len) > length (gz_out s) then Some (WOLFBOOT_GZIP_E_OUTPUT, s)
                 else copy_loop len (out_pos s - distance) s))"

partial_function (option) gz_inflate_huffman ::
  "gz_huff \<Rightarrow> gz_huff \<Rightarrow> gz_state \<Rightarrow> (int \<times> gz_state) option" where
  "gz_inflate_huffman litlen dist s =
     (case gz_huff_decode litlen s of
        None \<Rightarrow> None
      | Some (sm, s) \<Rightarrow>
          if sm < 0 then Some (sm, s)
          else if sm < 256 then
            (case gz_emit_byte (of_int sm) s of
               (ret, s) \<Rightarrow> if ret = 0 then gz_inflate_huffman litlen dist s else Some (ret, s))
          else if sm = 256 then Some (0, s)
          else
            (case gz_match dist (nat sm) s of
               None \<Rightarrow> None
             | Some (ret, s) \<Rightarrow> if ret = 0 then gz_inflate_huffman litlen dist s else Some (ret, s)))"

fun cl_loop :: "nat list \<Rightarrow> nat list \<Rightarrow> gz_state \<Rightarrow> (int \<times> nat list \<times> gz_state) option" where
  "cl_loop [] cl_lens s = Some (0, cl_lens, s)"
| "cl_loop (i # is) cl_lens s =
     (case gz_get_bits 3 s of
        (ret, val, s) \<Rightarrow>
          if ret \<noteq> 0 then Some (ret, cl_lens, s)
          else
            (case rd gz_cl_order i of
               None \<Rightarrow> None
             | Some k \<Rightarrow> if k < length cl_lens then cl_loop is (cl_lens[k := val]) s else None))"

fun fill_lens :: "nat \<Rightarrow> nat \<Rightarrow> nat \<Rightarrow> nat list \<Rightarrow> nat list option" where
  "fill_lens 0 idx v ls = Some ls"
| "fill_lens (Suc n) idx v ls =
     (if idx < length ls then fill_lens n (idx + 1) v (ls[idx := v]) else None)"

text \<open>A repeat symbol: \<open>extra\<close> bits give the number of copies of \<open>v\<close> above \<open>base\<close>.\<close>

definition gz_repeat ::
  "nat \<Rightarrow> nat \<Rightarrow> nat \<Rightarrow> nat \<Rightarrow> nat \<Rightarrow> nat list \<Rightarrow> gz_state \<Rightarrow> (int \<times> nat \<times> nat list \<times> gz_state) option" where
  "gz_repeat extra base v tot idx ls s =
     (case gz_get_bits extra s of
        (ret, val, s) \<Rightarrow>
          if ret \<noteq> 0 then Some (ret, idx, ls, s)
          else if idx + (val + base) > tot then Some (WOLFBOOT_GZIP_E_FORMAT, idx, ls, s)
          else
            (case fill_lens (val + base) idx v ls of
               None \<Rightarrow> None
             | Some ls \<Rightarrow> Some (0, idx + (val + base), ls, s)))"

partial_function (option) lens_loop ::
  "gz_huff \<Rightarrow> nat \<Rightarrow> nat \<Rightarrow> nat \<Rightarrow> nat list \<Rightarrow> gz_state \<Rightarrow> (int \<times> nat list \<times> gz_state) option" where
  "lens_loop cl_huff tot idx prev ls s =
     (if idx < tot then
        (case gz_huff_decode cl_huff s of
           None \<Rightarrow> None
         | Some (sm, s) \<Rightarrow>
             if sm < 0 then Some (sm, ls, s)
             else if sm < 16 then
               (if idx < length ls then lens_loop cl_huff tot (idx + 1) (nat sm) (ls[idx := nat sm]) s else None)
             else if sm = 16 then
               (if idx = 0 then Some (WOLFBOOT_GZIP_E_FORMAT, ls, s)
                else
                  (case gz_repeat 2 3 prev tot idx ls s of
                     None \<Rightarrow> None
                   | Some (ret, idx, ls, s) \<Rightarrow>
                       if ret = 0 then lens_loop cl_huff tot idx prev ls s else Some (ret, ls, s)))
             else if sm = 17 then
               (case gz_repeat 3 3 0 tot idx ls s of
                  None \<Rightarrow> None
                | Some (ret, idx, ls, s) \<Rightarrow>
                    if ret = 0 then lens_loop cl_huff tot idx 0 ls s else Some (ret, ls, s))
             else if sm = 18 then
               (case gz_repeat 7 11 0 tot idx ls s of
                  None \<Rightarrow> None
                | Some (ret, idx, ls, s) \<Rightarrow>
                    if ret = 0 then lens_loop cl_huff tot idx 0 ls s else Some (ret, ls, s))
             else Some (WOLFBOOT_GZIP_E_FORMAT, ls, s))
      else Some (0, ls, s))"

text \<open>
  The header of a dynamic block: \<open>HLIT\<close>, \<open>HDIST\<close> and all code lengths. The first part, with the
  three counts as read, checks them and decodes the lengths.
\<close>

definition gz_dynamic_codes :: "nat \<Rightarrow> nat \<Rightarrow> nat \<Rightarrow> gz_state \<Rightarrow> (int \<times> nat \<times> nat \<times> nat list \<times> gz_state) option" where
  "gz_dynamic_codes hlit hdist hclen s =
     (let ls = replicate 320 0; hlit = hlit + 257; hdist = hdist + 1; hclen = hclen + 4
      in if hlit > 288 \<or> hdist > 32 \<or> hclen > 19 then Some (WOLFBOOT_GZIP_E_FORMAT, 0, 0, ls, s)
         else
           (case cl_loop [0..<hclen] (replicate 19 0) s of
              None \<Rightarrow> None
            | Some (ret, cl_lens, s) \<Rightarrow>
                if ret \<noteq> 0 then Some (ret, 0, 0, ls, s)
                else
                  (case gz_huff_build cl_lens 19 of
                     None \<Rightarrow> None
                   | Some (ret, cl_huff) \<Rightarrow>
                       if ret \<noteq> 0 then Some (ret, 0, 0, ls, s)
                       else
                         (case lens_loop cl_huff (hlit + hdist) 0 0 ls s of
                            None \<Rightarrow> None
                          | Some (ret, ls, s) \<Rightarrow> Some (ret, hlit, hdist, ls, s)))))"

definition gz_dynamic_lens :: "gz_state \<Rightarrow> (int \<times> nat \<times> nat \<times> nat list \<times> gz_state) option" where
  "gz_dynamic_lens s =
     (case gz_get_bits 5 s of
        (ret, hlit, s) \<Rightarrow>
          if ret \<noteq> 0 then Some (ret, 0, 0, replicate 320 0, s)
          else
            (case gz_get_bits 5 s of
               (ret, hdist, s) \<Rightarrow>
                 if ret \<noteq> 0 then Some (ret, 0, 0, replicate 320 0, s)
                 else
                   (case gz_get_bits 4 s of
                      (ret, hclen, s) \<Rightarrow>
                        if ret \<noteq> 0 then Some (ret, 0, 0, replicate 320 0, s)
                        else gz_dynamic_codes hlit hdist hclen s)))"

definition gz_inflate_dynamic :: "gz_state \<Rightarrow> (int \<times> gz_state) option" where
  "gz_inflate_dynamic s =
     (case gz_dynamic_lens s of
        None \<Rightarrow> None
      | Some (ret, hlit, hdist, ls, s) \<Rightarrow>
          if ret \<noteq> 0 then Some (ret, s)
          else if ls ! 256 = 0 then Some (WOLFBOOT_GZIP_E_HUFFMAN, s)
          else
            (case gz_huff_build ls hlit of
               None \<Rightarrow> None
             | Some (ret, litlen) \<Rightarrow>
                 if ret \<noteq> 0 then Some (ret, s)
                 else
                   (case gz_huff_build (drop hlit ls) hdist of
                      None \<Rightarrow> None
                    | Some (ret, dist) \<Rightarrow>
                        if ret \<noteq> 0 then Some (ret, s) else gz_inflate_huffman litlen dist s)))"

partial_function (option) inflate_loop :: "(gz_huff \<times> gz_huff) option \<Rightarrow> gz_state \<Rightarrow> (int \<times> gz_state) option" where
  "inflate_loop fixed s =
     (case gz_get_bits 1 s of
        (ret, bfinal, s) \<Rightarrow>
          if ret \<noteq> 0 then Some (ret, s)
          else
            (case gz_get_bits 2 s of
               (ret, btype, s) \<Rightarrow>
                 if ret \<noteq> 0 then Some (ret, s)
                 else if btype = 0 then
                   (case gz_inflate_stored s of
                      None \<Rightarrow> None
                    | Some (ret, s) \<Rightarrow> if ret = 0 \<and> bfinal = 0 then inflate_loop fixed s else Some (ret, s))
                 else if btype = 1 then
                   (case (case fixed of Some f \<Rightarrow> Some (0, f) | None \<Rightarrow> gz_build_fixed) of
                      None \<Rightarrow> None
                    | Some (ret, litlen, dist) \<Rightarrow>
                        if ret \<noteq> 0 then Some (ret, s)
                        else
                          (case gz_inflate_huffman litlen dist s of
                             None \<Rightarrow> None
                           | Some (ret, s) \<Rightarrow>
                               if ret = 0 \<and> bfinal = 0 then inflate_loop (Some (litlen, dist)) s else Some (ret, s)))
                 else if btype = 2 then
                   (case gz_inflate_dynamic s of
                      None \<Rightarrow> None
                    | Some (ret, s) \<Rightarrow> if ret = 0 \<and> bfinal = 0 then inflate_loop fixed s else Some (ret, s))
                 else Some (WOLFBOOT_GZIP_E_FORMAT, s)))"

definition gz_inflate :: "gz_state \<Rightarrow> (int \<times> gz_state) option" where
  "gz_inflate s = inflate_loop None s"

subsection \<open>The gzip wrapper\<close>

definition GZIP_FLG_FHCRC :: byte where "GZIP_FLG_FHCRC = 0x02"
definition GZIP_FLG_FEXTRA :: byte where "GZIP_FLG_FEXTRA = 0x04"
definition GZIP_FLG_FNAME :: byte where "GZIP_FLG_FNAME = 0x08"
definition GZIP_FLG_FCOMMENT :: byte where "GZIP_FLG_FCOMMENT = 0x10"
definition GZIP_FLG_RESERVED :: byte where "GZIP_FLG_RESERVED = 0xE0"

function gz_skip_zstring :: "gz_state \<Rightarrow> int \<times> gz_state" where
  "gz_skip_zstring s =
     (if in_pos s \<ge> length (gz_in s) then (WOLFBOOT_GZIP_E_TRUNCATED, s)
      else if gz_in s ! in_pos s = 0 then (0, s\<lparr>in_pos := in_pos s + 1\<rparr>)
      else gz_skip_zstring (s\<lparr>in_pos := in_pos s + 1\<rparr>))"
  by pat_completeness auto
termination
  by (relation "measure (\<lambda>s. length (gz_in s) - in_pos s)") auto

declare gz_skip_zstring.simps [simp del]

definition gz_skip_extra :: "gz_state \<Rightarrow> (int \<times> gz_state) option" where
  "gz_skip_extra s =
     (if u32 (in_pos s + 2) > length (gz_in s) then Some (WOLFBOOT_GZIP_E_TRUNCATED, s)
      else
        (case rd16 (gz_in s) (in_pos s) of
           None \<Rightarrow> None
         | Some xlen \<Rightarrow>
             (let s = s\<lparr>in_pos := u32 (in_pos s + 2)\<rparr>
              in if u32 (in_pos s + xlen) > length (gz_in s) then Some (WOLFBOOT_GZIP_E_TRUNCATED, s)
                 else Some (0, s\<lparr>in_pos := u32 (in_pos s + xlen)\<rparr>))))"

definition gz_skip_hcrc :: "gz_state \<Rightarrow> int \<times> gz_state" where
  "gz_skip_hcrc s =
     (if u32 (in_pos s + 2) > length (gz_in s) then (WOLFBOOT_GZIP_E_TRUNCATED, s)
      else (0, s\<lparr>in_pos := u32 (in_pos s + 2)\<rparr>))"

definition gz_parse_header :: "gz_state \<Rightarrow> (int \<times> gz_state) option" where
  "gz_parse_header s =
     (if length (gz_in s) < 10 then Some (WOLFBOOT_GZIP_E_TRUNCATED, s)
      else if gz_in s ! 0 \<noteq> 0x1F \<or> gz_in s ! 1 \<noteq> 0x8B \<or> gz_in s ! 2 \<noteq> 8 then Some (WOLFBOOT_GZIP_E_FORMAT, s)
      else
        (let flg = gz_in s ! 3
         in if flg AND GZIP_FLG_RESERVED \<noteq> 0 then Some (WOLFBOOT_GZIP_E_FORMAT, s)
            else
              (let s = s\<lparr>in_pos := 10\<rparr>
               in case (if flg AND GZIP_FLG_FEXTRA \<noteq> 0 then gz_skip_extra s else Some (0, s)) of
                    None \<Rightarrow> None
                  | Some (ret, s) \<Rightarrow>
                      (let (ret, s) = (if ret = 0 \<and> flg AND GZIP_FLG_FNAME \<noteq> 0 then gz_skip_zstring s else (ret, s));
                           (ret, s) = (if ret = 0 \<and> flg AND GZIP_FLG_FCOMMENT \<noteq> 0 then gz_skip_zstring s else (ret, s));
                           (ret, s) = (if ret = 0 \<and> flg AND GZIP_FLG_FHCRC \<noteq> 0 then gz_skip_hcrc s else (ret, s))
                       in Some (ret, s)))))"

definition rd32 :: "byte list \<Rightarrow> nat \<Rightarrow> nat option" where
  "rd32 xs i =
     (case (rd16 xs i, rd16 xs (i + 2)) of (Some a, Some b) \<Rightarrow> Some (a + 65536 * b) | _ \<Rightarrow> None)"

definition gz_parse_trailer :: "gz_state \<Rightarrow> 32 word \<Rightarrow> nat \<Rightarrow> (int \<times> gz_state) option" where
  "gz_parse_trailer s computed_crc bytes_out =
     (let s = (gz_align_byte s)\<lparr>bit_buf := 0, bit_count := 0\<rparr>
      in if u32 (in_pos s + 8) > length (gz_in s) then Some (WOLFBOOT_GZIP_E_TRUNCATED, s)
         else
           (case (rd32 (gz_in s) (in_pos s), rd32 (gz_in s) (in_pos s + 4)) of
              (Some got_crc, Some got_isize) \<Rightarrow>
                (let s = s\<lparr>in_pos := u32 (in_pos s + 8)\<rparr>
                 in if of_nat got_crc \<noteq> computed_crc then Some (WOLFBOOT_GZIP_E_CRC32, s)
                    else if got_isize \<noteq> bytes_out then Some (WOLFBOOT_GZIP_E_ISIZE, s)
                    else Some (0, s))
            | _ \<Rightarrow> None))"

text \<open>
  The result is the return value and, unless a pointer was \<open>NULL\<close> (\<open>None\<close>), \<open>*out_len\<close> and the
  output buffer.
\<close>

definition wolfBoot_gunzip ::
  "byte list option \<Rightarrow> byte list option \<Rightarrow> bool \<Rightarrow> (int \<times> (nat \<times> byte list) option) option" where
  "wolfBoot_gunzip inp outp has_out_len =
     (case (inp, outp, has_out_len) of
        (Some inb, Some outb, True) \<Rightarrow>
          (let s = \<lparr>gz_in = inb, in_pos = 0, bit_buf = 0, bit_count = 0, gz_out = outb, out_pos = 0,
                    gz_crc32 = 0xFFFFFFFF\<rparr>
           in case gz_parse_header s of
                None \<Rightarrow> None
              | Some (ret, s) \<Rightarrow>
                  (case (if ret = 0 then gz_inflate s else Some (ret, s)) of
                     None \<Rightarrow> None
                   | Some (ret, s) \<Rightarrow>
                       (case (if ret = 0 then
                                (let s = s\<lparr>gz_crc32 := gz_crc32 s XOR 0xFFFFFFFF\<rparr>
                                 in gz_parse_trailer s (gz_crc32 s) (out_pos s))
                              else Some (ret, s)) of
                          None \<Rightarrow> None
                        | Some (ret, s) \<Rightarrow> Some (ret, Some (out_pos s, gz_out s)))))
      | _ \<Rightarrow> Some (WOLFBOOT_GZIP_E_PARAM, None))"

end
