(* ===== verification/Gzip_Bits.thy ===== *)
theory Gzip_Bits
  imports Gzip
begin

text \<open>
  The bit reader of \<open>src/gzip.c\<close> as a list of bits: what is left of the input, least significant
  bit of each byte first, as RFC 1951 Sec. 3.1.1 packs it. Reading bits takes them from the
  front of this list.
\<close>

subsection \<open>The input as a list of bits\<close>

definition byte_bits :: "byte \<Rightarrow> bool list" where
  "byte_bits b = map (bit b) [0..<8]"

definition bytes_bits :: "byte list \<Rightarrow> bool list" where
  "bytes_bits bs = concat (map byte_bits bs)"

primrec bits_val :: "bool list \<Rightarrow> nat" where
  "bits_val [] = 0"
| "bits_val (b # bs) = of_bool b + 2 * bits_val bs"

definition gz_bits :: "gz_state \<Rightarrow> bool list" where
  "gz_bits s = map (bit (bit_buf s)) [0..<bit_count s] @ bytes_bits (drop (in_pos s) (gz_in s))"

text \<open>The reader holds fewer than \<open>k\<close> bits, and none above its count.\<close>

definition reader_ok :: "nat \<Rightarrow> gz_state \<Rightarrow> bool" where
  "reader_ok k s \<longleftrightarrow> in_pos s \<le> length (gz_in s) \<and> bit_count s < k \<and> take_bit (bit_count s) (bit_buf s) = bit_buf s"

text \<open>Only the reader has moved.\<close>

definition same_out :: "gz_state \<Rightarrow> gz_state \<Rightarrow> bool" where
  "same_out s s' \<longleftrightarrow> gz_in s' = gz_in s \<and> gz_out s' = gz_out s \<and> out_pos s' = out_pos s \<and> gz_crc32 s' = gz_crc32 s"

lemma same_out_refl [simp]: "same_out s s"
  by (simp add: same_out_def)

lemma same_out_trans: "same_out s s' \<Longrightarrow> same_out s' s'' \<Longrightarrow> same_out s s''"
  by (simp add: same_out_def)

lemma length_byte_bits [simp]: "length (byte_bits b) = 8"
  by (simp add: byte_bits_def)

lemma bytes_bits_simps [simp]:
  "bytes_bits [] = []" "bytes_bits (b # bs) = byte_bits b @ bytes_bits bs"
  "bytes_bits (bs @ cs) = bytes_bits bs @ bytes_bits cs"
  by (simp_all add: bytes_bits_def)

lemma length_bytes_bits [simp]: "length (bytes_bits bs) = 8 * length bs"
  by (induction bs) simp_all

lemma bits_val_horner: "bits_val bs = horner_sum of_bool 2 bs"
  by (induction bs) simp_all

lemma bits_val_word: "bits_val (map (bit w) [0..<n]) = unat (take_bit n (w :: 'a :: len word))"
proof -
  have eq: "map (bit w) [0..<n] = map (bit (unat w)) [0..<n]"
    by (simp add: bit_unsigned_iff bit_imp_le_length)
  show ?thesis
    unfolding eq bits_val_horner horner_sum_bit_eq_take_bit by (simp add: unsigned_take_bit_eq)
qed

lemma bits_val_less: "bits_val bs < 2 ^ length bs"
  by (induction bs) auto

lemma gz_bits_length:
  "length (gz_bits s) = bit_count s + 8 * (length (gz_in s) - in_pos s)"
  by (simp add: gz_bits_def)

lemma take_bit_no_high: "take_bit n w = w \<Longrightarrow> n \<le> i \<Longrightarrow> \<not> bit w i" for w :: "'a :: len word"
  by (metis bit_take_bit_iff not_le)

lemma load_byte_bits:
  fixes w :: "32 word"
  assumes "take_bit n w = w" "n + 8 \<le> 32"
  shows "map (bit (w OR push_bit n (ucast b))) [0..<n + 8] = map (bit w) [0..<n] @ byte_bits b"
    and "take_bit (n + 8) (w OR push_bit n (ucast b)) = w OR push_bit n (ucast b)"
proof -
  have lo: "bit (w OR push_bit n (ucast b)) i = bit w i" if "i < n" for i
    using that assms(2) by (simp add: bit_simps)
  have hi: "bit (w OR push_bit n (ucast b)) (n + i) = bit b i" if "i < 8" for i
    using that assms take_bit_no_high [OF assms(1), of "n + i"] by (simp add: bit_simps)
  show "map (bit (w OR push_bit n (ucast b))) [0..<n + 8] = map (bit w) [0..<n] @ byte_bits b"
  proof (rule nth_equalityI)
    fix i
    assume "i < length (map (bit (w OR push_bit n (ucast b))) [0..<n + 8])"
    then show "map (bit (w OR push_bit n (ucast b))) [0..<n + 8] ! i = (map (bit w) [0..<n] @ byte_bits b) ! i"
      using hi [of "i - n"] lo [of i] by (cases "i < n") (simp_all add: byte_bits_def nth_append)
  qed simp
  show "take_bit (n + 8) (w OR push_bit n (ucast b)) = w OR push_bit n (ucast b)"
    using take_bit_no_high [OF assms(1)]
    by (intro bit_eqI) (auto simp: bit_simps dest: bit_imp_le_length)
qed

lemma need_bits_ok:
  assumes "reader_ok (n + 8) s" "n \<le> 16"
  shows "\<exists>ret s'. gz_need_bits n s = (ret, s') \<and> same_out s s' \<and> gz_bits s' = gz_bits s \<and> reader_ok (n + 8) s' \<and>
    (if n \<le> length (gz_bits s) then ret = 0 \<and> n \<le> bit_count s' else ret = WOLFBOOT_GZIP_E_TRUNCATED)"
  using assms(1)
proof (induction "n - bit_count s" arbitrary: s rule: less_induct)
  case less
  show ?case
  proof (cases "bit_count s < n \<and> in_pos s < length (gz_in s)")
    case True
    let ?s = "s\<lparr>bit_buf := bit_buf s OR push_bit (bit_count s) (ucast (gz_in s ! in_pos s)),
        in_pos := in_pos s + 1, bit_count := bit_count s + 8\<rparr>"
    have l: "take_bit (bit_count s) (bit_buf s) = bit_buf s" "bit_count s + 8 \<le> 32"
      using less(2) True assms(2) by (simp_all add: reader_ok_def)
    have b: "gz_bits ?s = gz_bits s"
      using True load_byte_bits(1) [OF l, of "gz_in s ! in_pos s"]
      by (simp add: gz_bits_def Cons_nth_drop_Suc [symmetric, of "in_pos s"])
    have "reader_ok (n + 8) ?s"
      using True less(2) load_byte_bits(2) [OF l] by (simp add: reader_ok_def)
    moreover have "n - (bit_count s + 8) < n - bit_count s"
      using True by linarith
    ultimately show ?thesis
      using less(1) [of ?s] True b by (subst gz_need_bits.simps) (simp add: same_out_def)
  next
    case False
    then show ?thesis
      using less(2) by (subst gz_need_bits.simps) (auto simp: gz_bits_length reader_ok_def)
  qed
qed

lemma get_bits_ok:
  assumes "reader_ok 8 s" "n \<le> 16"
  shows "\<exists>ret v s'. gz_get_bits n s = (ret, v, s') \<and> same_out s s' \<and> in_pos s' \<le> length (gz_in s') \<and>
    (if n \<le> length (gz_bits s)
     then ret = 0 \<and> v = bits_val (take n (gz_bits s)) \<and> gz_bits s' = drop n (gz_bits s) \<and> reader_ok 8 s'
     else ret = WOLFBOOT_GZIP_E_TRUNCATED)"
proof -
  have "reader_ok (n + 8) s"
    using assms(1) by (simp add: reader_ok_def)
  from need_bits_ok [OF this assms(2)] obtain ret s' where
    r: "gz_need_bits n s = (ret, s')" "same_out s s'" "gz_bits s' = gz_bits s" "reader_ok (n + 8) s'"
    "if n \<le> length (gz_bits s) then ret = 0 \<and> n \<le> bit_count s' else ret = WOLFBOOT_GZIP_E_TRUNCATED"
    by blast
  show ?thesis
  proof (cases "n \<le> length (gz_bits s)")
    case True
    then have n: "ret = 0" "n \<le> bit_count s'"
      using r(5) by simp_all
    let ?c = "bit_count s'" and ?w = "bit_buf s'"
    have m: "[0..<?c] = [0..<n] @ [n..<?c]"
      using n(2) by (metis le_add_diff_inverse upt_add_eq_append zero_le)
    have "take n (gz_bits s) = map (bit ?w) [0..<n]"
      unfolding r(3) [symmetric] unfolding gz_bits_def m by simp
    moreover have "?w AND (push_bit n 1 - 1) = take_bit n ?w"
      by (simp add: take_bit_eq_mask mask_eq_exp_minus_1 push_bit_eq_mult)
    moreover have "map (bit (drop_bit n ?w)) [0..<?c - n] = map (bit ?w) [n..<?c]"
      by (rule nth_equalityI) (auto simp: bit_drop_bit_eq)
    then have "gz_bits (s'\<lparr>bit_buf := drop_bit n ?w, bit_count := ?c - n\<rparr>) = drop n (gz_bits s)"
      unfolding r(3) [symmetric] by (simp add: gz_bits_def m)
    moreover have "take_bit (?c - n) (drop_bit n ?w) = drop_bit n ?w"
      using r(4) n(2) by (simp add: reader_ok_def take_bit_drop_bit)
    moreover have "?c - n < 8"
      using r(4) n(2) unfolding reader_ok_def by linarith
    ultimately show ?thesis
      using r n True by (simp add: gz_get_bits_def bits_val_word reader_ok_def same_out_def)
  next
    case False
    then show ?thesis
      using r by (auto simp: gz_get_bits_def gz_errors reader_ok_def)
  qed
qed

text \<open>Aligning drops the rest of the current byte, as counted from the end of the input.\<close>

lemma align_ok:
  assumes "reader_ok 8 s"
  shows "gz_bits (gz_align_byte s) = drop (length (gz_bits s) mod 8) (gz_bits s)"
    and "bit_count (gz_align_byte s) = 0" "same_out s (gz_align_byte s)" "in_pos (gz_align_byte s) = in_pos s"
proof -
  have "bit_count s mod 8 = bit_count s"
    using assms by (simp add: reader_ok_def)
  then have a: "gz_align_byte s = s\<lparr>bit_buf := drop_bit (bit_count s) (bit_buf s), bit_count := 0\<rparr>"
    by (simp add: gz_align_byte_def)
  have "length (gz_bits s) mod 8 = bit_count s"
    using assms by (simp add: gz_bits_length reader_ok_def)
  then show "gz_bits (gz_align_byte s) = drop (length (gz_bits s) mod 8) (gz_bits s)"
    by (simp add: a gz_bits_def)
  show "bit_count (gz_align_byte s) = 0" "same_out s (gz_align_byte s)" "in_pos (gz_align_byte s) = in_pos s"
    by (simp_all add: a same_out_def)
qed

end
