(* ===== verification/Gzip_Huffman.thy ===== *)
theory Gzip_Huffman
  imports Gzip_Bits
begin

text \<open>
  The Huffman tables of \<open>src/gzip.c\<close>: \<open>gz_huff_build\<close> accepts exactly the code lengths that
  are not over-subscribed, and \<open>gz_huff_decode\<close> then decodes the canonical code that RFC 1951
  Sec. 3.2.2 assigns to these lengths.
\<close>

subsection \<open>The canonical code\<close>

text \<open>
  The smallest code of each length, and the code of a symbol: codes of one length are
  consecutive in the order of the symbols.
\<close>

fun first_code :: "nat list \<Rightarrow> nat \<Rightarrow> nat" where
  "first_code ls 0 = 0"
| "first_code ls (Suc l) = 2 * (first_code ls l + (if l = 0 then 0 else count_list ls l))"

definition code_of :: "nat list \<Rightarrow> nat \<Rightarrow> nat" where
  "code_of ls sm = first_code ls (ls ! sm) + count_list (take sm ls) (ls ! sm)"

definition msb_val :: "bool list \<Rightarrow> nat" where
  "msb_val bs = foldl (\<lambda>v b. 2 * v + of_bool b) 0 bs"

text \<open>The bits \<open>bs\<close> start with the code of symbol \<open>sm\<close>, most significant bit first.\<close>

definition huff_sym :: "nat list \<Rightarrow> bool list \<Rightarrow> nat \<Rightarrow> bool list \<Rightarrow> bool" where
  "huff_sym ls bs sm rest \<longleftrightarrow>
     sm < length ls \<and> 0 < ls ! sm \<and>
     (\<exists>w. bs = w @ rest \<and> length w = ls ! sm \<and> msb_val w = code_of ls sm)"

text \<open>The lengths of a code that is not over-subscribed.\<close>

definition lens_ok :: "nat list \<Rightarrow> bool" where
  "lens_ok ls \<longleftrightarrow> (\<forall>l\<in>set ls. l \<le> 15) \<and> (\<forall>l. 1 \<le> l \<and> l \<le> 15 \<longrightarrow> first_code ls l + count_list ls l \<le> 2 ^ l)"

subsection \<open>The tables\<close>

definition sym_offset :: "nat list \<Rightarrow> nat \<Rightarrow> nat" where
  "sym_offset ls l = (\<Sum>j = 1..<l. count_list ls j)"

definition huff_table :: "nat list \<Rightarrow> gz_huff \<Rightarrow> bool" where
  "huff_table ls h \<longleftrightarrow>
     counts h = map (count_list ls) [0..<16] \<and>
     (\<forall>sm < length ls. 0 < ls ! sm \<longrightarrow>
        rd (symbols h) (sym_offset ls (ls ! sm) + count_list (take sm ls) (ls ! sm)) = Some (Some sm))"

lemma sym_offset_Suc: "1 \<le> l \<Longrightarrow> sym_offset ls (Suc l) = sym_offset ls l + count_list ls l"
  by (simp add: sym_offset_def)

lemma sym_offset_mono: "1 \<le> l \<Longrightarrow> l < l' \<Longrightarrow> sym_offset ls l + count_list ls l \<le> sym_offset ls l'"
  by (induction l') (auto simp: less_Suc_eq sym_offset_Suc)

lemma count_take_less: "sm < length ls \<Longrightarrow> count_list (take sm ls) (ls ! sm) < count_list ls (ls ! sm)"
proof -
  assume a: "sm < length ls"
  have "count_list ls (ls ! sm) = count_list (take sm ls @ ls ! sm # drop (Suc sm) ls) (ls ! sm)"
    using a by (simp add: id_take_nth_drop [symmetric])
  then show ?thesis
    by simp
qed

lemma count_take_Suc:
  "sm < length ls \<Longrightarrow> count_list (take (Suc sm) ls) l = count_list (take sm ls) l + of_bool (ls ! sm = l)"
  by (simp add: take_Suc_conv_app_nth)

lemma count_take_le: "count_list (take n ls) l \<le> count_list ls l"
  by (metis append_take_drop_id count_list_append le_add1)

lemma nth_of_count: "r < count_list ls l \<Longrightarrow> \<exists>sm < length ls. ls ! sm = l \<and> count_list (take sm ls) l = r"
proof (induction ls arbitrary: r rule: rev_induct)
  case (snoc x xs)
  show ?case
  proof (cases "r < count_list xs l")
    case True
    then show ?thesis
      using snoc.IH by (metis append_eq_conv_conj less_SucI length_append_singleton nth_append take_all_iff
          take_append less_or_eq_imp_le append_Nil2 diff_is_0_eq' take_0)
  next
    case False
    then have "x = l" "r = count_list xs l"
      using snoc.prems by (auto split: if_splits)
    then show ?thesis
      by (intro exI [of _ "length xs"]) simp
  qed
qed simp

lemma sym_offset_le: "sym_offset ls l \<le> length ls"
proof -
  have "sym_offset ls l = sum (count_list ls) ({1..<l} \<inter> set ls)"
    unfolding sym_offset_def by (rule sum.mono_neutral_right) (auto simp: count_list_0_iff)
  also have "\<dots> \<le> sum (count_list ls) (set ls)"
    by (rule sum_mono2) auto
  finally show ?thesis
    by (simp add: sum_count_set)
qed

lemma huff_count_ok:
  assumes "n \<le> length lengths"
  shows "i \<le> n \<Longrightarrow> cs = map (count_list (take i lengths)) [0..<16] \<Longrightarrow>
    \<exists>ret cs'. huff_count lengths [i..<n] cs = Some (ret, cs') \<and>
      (if \<forall>l\<in>set (drop i (take n lengths)). l \<le> 15 then ret = 0 \<and> cs' = map (count_list (take n lengths)) [0..<16]
       else ret = WOLFBOOT_GZIP_E_HUFFMAN)"
proof (induction "n - i" arbitrary: i cs)
  case 0
  then show ?case
    by simp
next
  case (Suc k)
  then have i: "i < n" "i < length lengths"
    using assms by auto
  have d: "drop i (take n lengths) = lengths ! i # drop (Suc i) (take n lengths)"
    using i assms by (subst Cons_nth_drop_Suc [symmetric]) auto
  show ?case
  proof (cases "lengths ! i \<le> 15")
    case True
    have "cs[lengths ! i := cs ! (lengths ! i) + 1] = map (count_list (take (Suc i) lengths)) [0..<16]"
      using i True Suc.prems(2) by (intro nth_equalityI) (auto simp: nth_list_update count_take_Suc)
    then show ?thesis
      using Suc.hyps(1) [of "Suc i"] Suc.hyps(2) i True d by (simp add: upt_conv_Cons rd_def)
  next
    case False
    then show ?thesis
      using i d by (auto simp: upt_conv_Cons rd_def)
  qed
qed

lemma huff_kraft_ok:
  assumes "cs = map (count_list ls) [0..<16]"
  shows "1 \<le> l \<Longrightarrow> l \<le> 16 \<Longrightarrow> 2 * left = 2 ^ l - int (first_code ls l) \<Longrightarrow>
    huff_kraft cs [l..<16] left =
      (if \<forall>j. l \<le> j \<and> j \<le> 15 \<longrightarrow> first_code ls j + count_list ls j \<le> 2 ^ j then 0 else WOLFBOOT_GZIP_E_HUFFMAN)"
proof (induction "16 - l" arbitrary: l left)
  case 0
  then show ?case
    by auto
next
  case (Suc k)
  then have l: "l < 16"
    by simp
  have iff: "int (cs ! l) > 2 * left \<longleftrightarrow> \<not> first_code ls l + count_list ls l \<le> 2 ^ l"
    using assms l Suc.prems(3) by (simp add: of_nat_le_iff [symmetric, where 'a = int] del: of_nat_le_iff) linarith
  show ?case
  proof (cases "first_code ls l + count_list ls l \<le> 2 ^ l")
    case True
    have "2 * (2 * left - int (cs ! l)) = 2 ^ Suc l - int (first_code ls (Suc l))"
      using assms l Suc.prems(1,3) by simp
    from Suc.hyps(1) [OF _ _ _ this] Suc.hyps(2) l iff True
    have "huff_kraft cs [l..<16] left =
      (if \<forall>j. Suc l \<le> j \<and> j \<le> 15 \<longrightarrow> first_code ls j + count_list ls j \<le> 2 ^ j then 0 else WOLFBOOT_GZIP_E_HUFFMAN)"
      by (simp add: upt_conv_Cons)
    moreover have "(\<forall>j. Suc l \<le> j \<and> j \<le> 15 \<longrightarrow> first_code ls j + count_list ls j \<le> 2 ^ j) \<longleftrightarrow>
        (\<forall>j. l \<le> j \<and> j \<le> 15 \<longrightarrow> first_code ls j + count_list ls j \<le> 2 ^ j)"
      using True by (metis Suc_le_eq le_neq_implies_less less_or_eq_imp_le)
    ultimately show ?thesis
      by presburger
  next
    case False
    then show ?thesis
      using l iff by (auto simp: upt_conv_Cons)
  qed
qed

lemma huff_offs_ok:
  assumes "cs = map (count_list ls) [0..<16]"
  shows "1 \<le> l \<Longrightarrow> l \<le> 15 \<Longrightarrow> length offs = 16 \<Longrightarrow> \<forall>j. 1 \<le> j \<and> j \<le> l \<longrightarrow> offs ! j = sym_offset ls j \<Longrightarrow>
    length (huff_offs cs [l..<15] offs) = 16 \<and>
    (\<forall>j. 1 \<le> j \<and> j \<le> 15 \<longrightarrow> huff_offs cs [l..<15] offs ! j = sym_offset ls j)"
proof (induction "15 - l" arbitrary: l offs)
  case 0
  then show ?case
    by simp
next
  case (Suc k)
  let ?o = "offs[l + 1 := offs ! l + cs ! l]"
  have "\<forall>j. 1 \<le> j \<and> j \<le> Suc l \<longrightarrow> ?o ! j = sym_offset ls j"
    using Suc.prems Suc.hyps(2) assms by (auto simp: nth_list_update le_Suc_eq sym_offset_Suc)
  then show ?case
    using Suc.hyps(1) [of "Suc l" ?o] Suc.hyps(2) Suc.prems by (simp add: upt_conv_Cons)
qed

definition sym_pos :: "nat list \<Rightarrow> nat \<Rightarrow> nat" where
  "sym_pos ls sm = sym_offset ls (ls ! sm) + count_list (take sm ls) (ls ! sm)"

lemma sym_pos_less:
  assumes "sm < length ls" "0 < ls ! sm"
  shows "sym_pos ls sm < length ls"
  using count_take_less [OF assms(1)] sym_offset_Suc [of "ls ! sm" ls] sym_offset_le [of ls "Suc (ls ! sm)"] assms(2)
  by (simp add: sym_pos_def)

lemma count_take_mono: "sm \<le> sm' \<Longrightarrow> count_list (take sm ls) l \<le> count_list (take sm' ls) l"
  by (metis count_take_le min.absorb1 take_take)

lemma sym_pos_inj:
  assumes "sm < sm'" "sm' < length ls" "0 < ls ! sm" "0 < ls ! sm'"
  shows "sym_pos ls sm \<noteq> sym_pos ls sm'"
proof (cases "ls ! sm = ls ! sm'")
  case True
  then show ?thesis
    using count_take_mono [of "Suc sm" sm' ls "ls ! sm"] count_take_Suc [of sm ls "ls ! sm"] assms
    by (simp add: sym_pos_def)
next
  case False
  then show ?thesis
    using count_take_less [of sm ls] count_take_less [of sm' ls] assms
      sym_offset_mono [of "ls ! sm" "ls ! sm'" ls] sym_offset_mono [of "ls ! sm'" "ls ! sm" ls]
    by (cases "ls ! sm < ls ! sm'") (simp_all add: sym_pos_def)
qed

lemma huff_sort_ok:
  assumes n: "n \<le> length lengths" "n \<le> 288" and ls: "ls = take n lengths" "\<forall>l\<in>set ls. l \<le> 15"
  shows "i \<le> n \<Longrightarrow> length offs = 16 \<Longrightarrow> length sy = 288 \<Longrightarrow>
    \<forall>l. 1 \<le> l \<and> l \<le> 15 \<longrightarrow> offs ! l = sym_offset ls l + count_list (take i ls) l \<Longrightarrow>
    \<forall>sm < i. 0 < ls ! sm \<longrightarrow> sy ! sym_pos ls sm = Some sm \<Longrightarrow>
    \<exists>sy'. huff_sort lengths [i..<n] offs sy = Some sy' \<and> length sy' = 288 \<and>
      (\<forall>sm < n. 0 < ls ! sm \<longrightarrow> sy' ! sym_pos ls sm = Some sm)"
proof (induction "n - i" arbitrary: i offs sy)
  case 0
  then show ?case
    by simp
next
  case (Suc k)
  have i: "i < n" "i < length lengths" "i < length ls" "lengths ! i = ls ! i" "[i..<n] = i # [Suc i..<n]"
    using Suc.hyps(2) n ls(1) by (auto simp: upt_conv_Cons)
  have l15: "ls ! i \<le> 15"
    using ls(2) i(3) by simp
  show ?case
  proof (cases "ls ! i = 0")
    case True
    have "\<forall>l. 1 \<le> l \<and> l \<le> 15 \<longrightarrow> offs ! l = sym_offset ls l + count_list (take (Suc i) ls) l"
      using Suc.prems(4) True i(3) by (simp add: count_take_Suc)
    moreover have "\<forall>sm < Suc i. 0 < ls ! sm \<longrightarrow> sy ! sym_pos ls sm = Some sm"
      using Suc.prems(5) True by (simp add: less_Suc_eq)
    ultimately show ?thesis
      using Suc.hyps(1) [of "Suc i" offs sy] Suc.hyps(2) Suc.prems(2,3) i True by (simp add: rd_def)
  next
    case False
    let ?k = "sym_pos ls i"
    have o: "offs ! (ls ! i) = ?k"
      using Suc.prems(4) False l15 by (simp add: sym_pos_def)
    have k: "?k < 288"
      using sym_pos_less [of i ls] i(3) False n ls(1) by simp
    have "\<forall>l. 1 \<le> l \<and> l \<le> 15 \<longrightarrow> offs[ls ! i := ?k + 1] ! l = sym_offset ls l + count_list (take (Suc i) ls) l"
      using Suc.prems(2,4) i(3) l15 by (auto simp: count_take_Suc nth_list_update sym_pos_def)
    moreover have "\<forall>sm < Suc i. 0 < ls ! sm \<longrightarrow> sy[?k := Some i] ! sym_pos ls sm = Some sm"
    proof (intro allI impI)
      fix sm
      assume sm: "sm < Suc i" "0 < ls ! sm"
      show "sy[?k := Some i] ! sym_pos ls sm = Some sm"
      proof (cases "sm = i")
        case True
        then show ?thesis
          using k Suc.prems(3) by simp
      next
        case ne: False
        then have "sym_pos ls sm \<noteq> ?k"
          using sym_pos_inj [of sm i ls] sm i(3) False by simp
        then show ?thesis
          using Suc.prems(5) sm ne by simp
      qed
    qed
    ultimately show ?thesis
      using Suc.hyps(1) [of "Suc i" "offs[ls ! i := ?k + 1]" "sy[?k := Some i]"] Suc.hyps(2) Suc.prems(2,3) i False k o l15
      by (simp add: rd_def)
  qed
qed

lemma count_all_zero: "count_list ls 0 = length ls \<Longrightarrow> \<forall>l\<in>set ls. l = (0 :: nat)"
proof (induction ls)
  case (Cons x xs)
  then show ?case
    using count_le_length [of xs 0] by (auto split: if_splits)
qed simp

lemma all_zero_ok: "count_list ls 0 = length ls \<Longrightarrow> lens_ok ls"
proof -
  assume a: "count_list ls 0 = length ls"
  have z: "l = 0" if "l \<in> set ls" for l
    using a that count_all_zero by blast
  then have "count_list ls l = 0" if "1 \<le> l" for l
    using that by (auto simp: count_list_0_iff)
  then have "first_code ls l = 0" for l
    by (induction l) auto
  then show ?thesis
    using z by (auto simp: lens_ok_def \<open>\<And>l. 1 \<le> l \<Longrightarrow> count_list ls l = 0\<close>)
qed

lemma huff_build_ok:
  assumes "n \<le> length lengths" "n \<le> 288" and ls: "ls = take n lengths"
  shows "\<exists>ret h. gz_huff_build lengths n = Some (ret, h) \<and>
    (if lens_ok ls then ret = 0 \<and> huff_table ls h else ret = WOLFBOOT_GZIP_E_HUFFMAN)"
proof -
  have len: "length ls = n"
    using assms by simp
  have zero: "replicate 16 0 = map (count_list (take 0 lengths)) [0..<16]"
    by (rule nth_equalityI) auto
  obtain ret cs where c: "huff_count lengths [0..<n] (replicate 16 0) = Some (ret, cs)"
    "if \<forall>l\<in>set ls. l \<le> 15 then ret = 0 \<and> cs = map (count_list ls) [0..<16] else ret = WOLFBOOT_GZIP_E_HUFFMAN"
    using huff_count_ok [OF assms(1) _ zero] ls by auto
  show ?thesis
  proof (cases "\<forall>l\<in>set ls. l \<le> 15")
    case False
    then show ?thesis
      using c by (auto simp: gz_huff_build_def lens_ok_def gz_errors)
  next
    case True
    then have cs: "ret = 0" "cs = map (count_list ls) [0..<16]"
      using c(2) by simp_all
    have k: "huff_kraft cs [1..<16] 1 = (if lens_ok ls then 0 else WOLFBOOT_GZIP_E_HUFFMAN)"
      using huff_kraft_ok [OF cs(2), of 1 1] True by (simp add: lens_ok_def)
    show ?thesis
    proof (cases "cs ! 0 = n")
      case z: True
      then have "count_list ls 0 = length ls"
        using cs(2) len by simp
      moreover have "ls ! sm = 0" if "sm < length ls" for sm
        using count_all_zero [OF calculation] that by simp
      ultimately show ?thesis
        using c(1) cs z all_zero_ok by (auto simp: gz_huff_build_def huff_table_def)
    next
      case z: False
      have o: "length (huff_offs cs [1..<15] (replicate 16 0)) = 16"
        "\<forall>j. 1 \<le> j \<and> j \<le> 15 \<longrightarrow> huff_offs cs [1..<15] (replicate 16 0) ! j = sym_offset ls j"
        using huff_offs_ok [OF cs(2), of 1 "replicate 16 0"] by (auto simp: sym_offset_def)
      obtain sy where "huff_sort lengths [0..<n] (huff_offs cs [1..<15] (replicate 16 0)) (replicate 288 None) = Some sy"
        "length sy = 288" "\<forall>sm < n. 0 < ls ! sm \<longrightarrow> sy ! sym_pos ls sm = Some sm"
        using huff_sort_ok [OF assms(1,2) ls True, of 0 "huff_offs cs [1..<15] (replicate 16 0)" "replicate 288 None"] o by auto
      moreover have "sym_pos ls sm < 288" if "sm < n" "0 < ls ! sm" for sm
        using sym_pos_less [of sm ls] that len assms(2) by simp
      ultimately show ?thesis
        using c(1) cs z k len by (auto simp: gz_huff_build_def huff_table_def rd_def sym_pos_def gz_errors)
    qed
  qed
qed

subsection \<open>Decoding\<close>

lemma msb_val_snoc: "msb_val (w @ [b]) = 2 * msb_val w + of_bool b"
  by (simp add: msb_val_def)

lemma msb_val_append: "msb_val (w @ v) = msb_val w * 2 ^ length v + msb_val v"
  by (induction v rule: rev_induct) (simp_all add: msb_val_snoc append_assoc [symmetric] algebra_simps del: append_assoc,
      simp add: msb_val_def)

lemma msb_val_less: "msb_val w < 2 ^ length w"
  by (induction w rule: rev_induct) (auto simp: msb_val_snoc msb_val_def)

lemma first_code_grows:
  assumes "1 \<le> l" "l < l'"
  shows "(first_code ls l + count_list ls l) * 2 ^ (l' - l) \<le> first_code ls l'"
  using assms(2)
proof (induction l')
  case (Suc k)
  show ?case
  proof (cases "l = k")
    case True
    then show ?thesis
      using assms(1) by simp
  next
    case False
    then have "(first_code ls l + count_list ls l) * 2 ^ (k - l) \<le> first_code ls k" "Suc k - l = Suc (k - l)"
      using Suc by auto
    then show ?thesis
      by simp
  qed
qed simp

lemma code_of_less: "sm < length ls \<Longrightarrow> code_of ls sm < first_code ls (ls ! sm) + count_list ls (ls ! sm)"
  using count_take_less [of sm ls] by (simp add: code_of_def)

text \<open>The code is a prefix code.\<close>

lemma huff_sym_shorter:
  assumes "huff_sym ls bs sm rest" "huff_sym ls bs sm' rest'"
  shows "\<not> ls ! sm < ls ! sm'"
proof
  assume lt: "ls ! sm < ls ! sm'"
  obtain w w' where w: "bs = w @ rest" "length w = ls ! sm" "msb_val w = code_of ls sm" "sm < length ls" "0 < ls ! sm"
    and w': "bs = w' @ rest'" "length w' = ls ! sm'" "msb_val w' = code_of ls sm'" "sm' < length ls"
    using assms unfolding huff_sym_def by blast
  have "take (ls ! sm) bs = w"
    using w(2) by (simp add: w(1))
  moreover have "take (ls ! sm) bs = take (ls ! sm) w'"
    using w'(2) lt by (simp add: w'(1))
  ultimately have "w' = w @ drop (ls ! sm) w'"
    using append_take_drop_id [of "ls ! sm" w'] by simp
  moreover have "length (drop (ls ! sm) w') = ls ! sm' - ls ! sm"
    using w'(2) by simp
  ultimately obtain v where v: "w' = w @ v" "length v = ls ! sm' - ls ! sm"
    by blast
  have "code_of ls sm' < (msb_val w + 1) * 2 ^ length v"
    using msb_val_append [of w v] msb_val_less [of v] v(1) w'(3) by (simp add: algebra_simps)
  also have "\<dots> \<le> (first_code ls (ls ! sm) + count_list ls (ls ! sm)) * 2 ^ length v"
    using code_of_less [OF w(4)] w(3) by (intro mult_le_mono1) simp
  also have "\<dots> \<le> first_code ls (ls ! sm')"
    using first_code_grows [of "ls ! sm" "ls ! sm'" ls] w(5) lt v(2) by simp
  finally show False
    by (simp add: code_of_def)
qed

lemma count_take_inj:
  assumes "sm < length ls" "sm' < length ls" "ls ! sm = ls ! sm'" "count_list (take sm ls) (ls ! sm) = count_list (take sm' ls) (ls ! sm)"
  shows "sm = sm'"
proof (rule ccontr)
  assume "sm \<noteq> sm'"
  then consider "sm < sm'" | "sm' < sm"
    by linarith
  then show False
  proof cases
    case 1
    then show ?thesis
      using count_take_mono [of "Suc sm" sm' ls "ls ! sm"] count_take_Suc [of sm ls "ls ! sm"] assms by simp
  next
    case 2
    then show ?thesis
      using count_take_mono [of "Suc sm'" sm ls "ls ! sm"] count_take_Suc [of sm' ls "ls ! sm"] assms by simp
  qed
qed

lemma huff_sym_unique:
  assumes "huff_sym ls bs sm rest" "huff_sym ls bs sm' rest'"
  shows "sm = sm'" "rest = rest'"
proof -
  have l: "ls ! sm = ls ! sm'"
    using huff_sym_shorter [OF assms] huff_sym_shorter [OF assms(2,1)] by simp
  obtain w w' where w: "bs = w @ rest" "length w = ls ! sm" "msb_val w = code_of ls sm" "sm < length ls"
    and w': "bs = w' @ rest'" "length w' = ls ! sm'" "msb_val w' = code_of ls sm'" "sm' < length ls"
    using assms unfolding huff_sym_def by blast
  have "w @ rest = w' @ rest'" "length w = length w'"
    using w(1,2) w'(1,2) l by simp_all
  then have ww: "w = w'" "rest = rest'"
    by simp_all
  show "rest = rest'"
    by (rule ww(2))
  show "sm = sm'"
    by (rule count_take_inj [OF w(4) w'(4) l]) (use w(3) w'(3) ww(1) l in \<open>simp add: code_of_def\<close>)
qed

lemma huff_decode_ok:
  assumes tab: "huff_table ls h" and r: "\<forall>l\<in>set ls. l \<le> 15"
  shows "1 \<le> l \<Longrightarrow> l \<le> 16 \<Longrightarrow> length w = l - 1 \<Longrightarrow> reader_ok 8 s \<Longrightarrow> first_code ls l \<le> 2 * msb_val w \<Longrightarrow>
    \<exists>ret s'. huff_decode [l..<16] h (int (msb_val w)) (int (first_code ls l)) (int (sym_offset ls l)) s = Some (ret, s') \<and>
      same_out s s' \<and> in_pos s' \<le> length (gz_in s') \<and>
      ((\<exists>sm. ret = int sm \<and> huff_sym ls (w @ gz_bits s) sm (gz_bits s') \<and> reader_ok 8 s') \<or>
       (ret < 0 \<and> (\<forall>sm rest. huff_sym ls (w @ gz_bits s) sm rest \<longrightarrow> ls ! sm < l)))"
proof (induction "16 - l" arbitrary: l w s)
  case 0
  then have l: "l = 16"
    by simp
  have "ls ! sm < l" if "huff_sym ls bs sm rest" for bs sm rest
  proof -
    have "ls ! sm \<in> set ls"
      using that by (simp add: huff_sym_def)
    then show ?thesis
      using r l by fastforce
  qed
  moreover have "huff_decode [l..<16] h (int (msb_val w)) (int (first_code ls l)) (int (sym_offset ls l)) s =
      Some (WOLFBOOT_GZIP_E_HUFFMAN, s)" "WOLFBOOT_GZIP_E_HUFFMAN < 0" "in_pos s \<le> length (gz_in s)"
    using 0(5) l by (simp_all add: gz_errors reader_ok_def)
  ultimately show ?case
    using same_out_refl by blast
next
  case (Suc k)
  have l: "l < 16" "[l..<16] = l # [Suc l..<16]"
    using Suc.hyps(2) by (simp_all add: upt_conv_Cons)
  have cnt: "rd (counts h) l = Some (count_list ls l)"
    using tab l(1) by (simp add: huff_table_def rd_def)
  have "(1 :: nat) \<le> 16"
    by simp
  from get_bits_ok [OF Suc.prems(4) this] obtain br v t where g: "gz_get_bits 1 s = (br, v, t)" "same_out s t" "in_pos t \<le> length (gz_in t)"
    "if 1 \<le> length (gz_bits s)
     then br = 0 \<and> v = bits_val (take 1 (gz_bits s)) \<and> gz_bits t = drop 1 (gz_bits s) \<and> reader_ok 8 t
     else br = WOLFBOOT_GZIP_E_TRUNCATED"
    by blast
  show ?case
  proof (cases "gz_bits s")
    case Nil
    then have "br < 0" "br \<noteq> 0"
      using g(4) by (simp_all add: gz_errors)
    moreover have "ls ! sm < l" if h: "huff_sym ls (w @ gz_bits s) sm rest" for sm rest
    proof -
      obtain u where u: "w @ gz_bits s = u @ rest" "length u = ls ! sm"
        using h unfolding huff_sym_def by blast
      from arg_cong [where f = length, OF u(1)] have "ls ! sm \<le> length w"
        using Nil u(2) by simp
      then show ?thesis
        using Suc.prems(1,3) by linarith
    qed
    moreover have "huff_decode [l..<16] h (int (msb_val w)) (int (first_code ls l)) (int (sym_offset ls l)) s = Some (br, t)"
      using g(1) l(2) \<open>br \<noteq> 0\<close> by simp
    ultimately show ?thesis
      using g(2,3) by blast
  next
    case (Cons b bs)
    let ?w = "w @ [b]"
    have t: "br = 0" "v = of_bool b" "gz_bits t = bs" "reader_ok 8 t"
      using g(4) Cons by simp_all
    have ap: "w @ gz_bits s = ?w @ bs"
      using Cons by simp
    have code: "2 * int (msb_val w) + int v = int (msb_val ?w)"
      using t(2) by (simp add: msb_val_snoc)
    have ge: "first_code ls l \<le> msb_val ?w"
      using Suc.prems(5) by (simp add: msb_val_snoc)
    show ?thesis
    proof (cases "msb_val ?w < first_code ls l + count_list ls l")
      case True
      then have "msb_val ?w - first_code ls l < count_list ls l"
        using ge by linarith
      from nth_of_count [OF this] obtain sm where
        sm: "sm < length ls" "ls ! sm = l" "count_list (take sm ls) l = msb_val ?w - first_code ls l"
        by blast
      have "0 < ls ! sm"
        using sm(2) Suc.prems(1) by simp
      then have "rd (symbols h) (sym_offset ls (ls ! sm) + count_list (take sm ls) (ls ! sm)) = Some (Some sm)"
        using tab sm(1) unfolding huff_table_def by blast
      then have "rd (symbols h) (sym_offset ls l + (msb_val ?w - first_code ls l)) = Some (Some sm)"
        unfolding sm(2,3) .
      moreover have "nat (int (sym_offset ls l) + (int (msb_val ?w) - int (first_code ls l))) =
          sym_offset ls l + (msb_val ?w - first_code ls l)"
        using ge by simp
      ultimately have "huff_decode [l..<16] h (int (msb_val w)) (int (first_code ls l)) (int (sym_offset ls l)) s =
          Some (int sm, t)"
        using True ge g(1) t(1) cnt code l(2) by (simp add: Let_def)
      moreover have "msb_val ?w = code_of ls sm" "length ?w = ls ! sm" "0 < ls ! sm"
        using sm ge Suc.prems(1,3) by (simp_all add: code_of_def)
      then have "huff_sym ls (w @ gz_bits s) sm (gz_bits t)"
        unfolding ap t(3) huff_sym_def using sm(1) by blast
      ultimately show ?thesis
        using g(2,3) t(4) by blast
    next
      case False
      have len: "length ?w = Suc l - 1"
        using Suc.prems(1,3) by simp
      have "k = 16 - Suc l" "1 \<le> Suc l" "Suc l \<le> 16" "first_code ls (Suc l) \<le> 2 * msb_val ?w"
        using Suc.hyps(2) l(1) False Suc.prems(1) by simp_all
      from Suc.hyps(1) [OF this(1-3) len t(4) this(4)] obtain ret s' where
        d: "huff_decode [Suc l..<16] h (int (msb_val ?w)) (int (first_code ls (Suc l))) (int (sym_offset ls (Suc l))) t = Some (ret, s')"
          "same_out t s'" "in_pos s' \<le> length (gz_in s')"
          "(\<exists>sm. ret = int sm \<and> huff_sym ls (?w @ gz_bits t) sm (gz_bits s') \<and> reader_ok 8 s') \<or>
           (ret < 0 \<and> (\<forall>sm rest. huff_sym ls (?w @ gz_bits t) sm rest \<longrightarrow> ls ! sm < Suc l))"
        by blast
      have step: "huff_decode [l..<16] h (int (msb_val w)) (int (first_code ls l)) (int (sym_offset ls l)) s = Some (ret, s')"
        using d(1) False g(1) t(1) cnt code l(2) Suc.prems(1) by (simp add: Let_def sym_offset_Suc)
      have ne: "ls ! sm \<noteq> l" if h: "huff_sym ls (w @ gz_bits s) sm rest" for sm rest
      proof
        assume e: "ls ! sm = l"
        obtain u where u: "?w @ bs = u @ rest" "length u = ls ! sm" "msb_val u = code_of ls sm" "sm < length ls"
          using h unfolding ap huff_sym_def by blast
        then have "u = ?w"
          using e len Suc.prems(1) append_eq_append_conv [of ?w u bs rest] by simp
        then show False
          using u(3) code_of_less [OF u(4)] e False by simp
      qed
      note so = same_out_trans [OF g(2) d(2)]
      from d(4) show ?thesis
      proof (elim disjE conjE)
        assume "\<exists>sm. ret = int sm \<and> huff_sym ls (?w @ gz_bits t) sm (gz_bits s') \<and> reader_ok 8 s'"
        then show ?thesis
          using step d(3) so unfolding t(3) ap by blast
      next
        assume n: "ret < 0" "\<forall>sm rest. huff_sym ls (?w @ gz_bits t) sm rest \<longrightarrow> ls ! sm < Suc l"
        have "ls ! sm < l" if "huff_sym ls (w @ gz_bits s) sm rest" for sm rest
        proof -
          have "ls ! sm < Suc l"
            using n(2) that unfolding t(3) ap by blast
          then show ?thesis
            using ne [OF that] by simp
        qed
        then show ?thesis
          using step d(3) so n(1) by blast
      qed
    qed
  qed
qed

lemma huff_decode_sym:
  assumes "huff_table ls h" "\<forall>l\<in>set ls. l \<le> 15" "reader_ok 8 s"
  shows "\<exists>ret s'. gz_huff_decode h s = Some (ret, s') \<and> same_out s s' \<and> in_pos s' \<le> length (gz_in s') \<and>
      ((\<exists>sm. ret = int sm \<and> huff_sym ls (gz_bits s) sm (gz_bits s') \<and> reader_ok 8 s') \<or>
       (ret < 0 \<and> (\<forall>sm rest. \<not> huff_sym ls (gz_bits s) sm rest)))"
proof -
  have z: "\<not> ls ! sm < 1" if "huff_sym ls bs sm rest" for bs sm rest
    using that by (simp add: huff_sym_def)
  have "\<exists>ret s'. huff_decode [1..<16] h 0 0 0 s = Some (ret, s') \<and> same_out s s' \<and> in_pos s' \<le> length (gz_in s') \<and>
      ((\<exists>sm. ret = int sm \<and> huff_sym ls (gz_bits s) sm (gz_bits s') \<and> reader_ok 8 s') \<or>
       (ret < 0 \<and> (\<forall>sm rest. huff_sym ls (gz_bits s) sm rest \<longrightarrow> ls ! sm < 1)))"
    using huff_decode_ok [OF assms(1,2), of 1 "[]" s] assms(3) by (simp add: msb_val_def sym_offset_def)
  then show ?thesis
    unfolding gz_huff_decode_def using z by (elim exE) (intro exI, blast)
qed

end
