(* ===== verification/Gzip_Deflate.thy ===== *)
theory Gzip_Deflate
  imports Gzip_Huffman
begin

text \<open>
  The DEFLATE format of RFC 1951 as relations on lists of bits and bytes, and the proof that the
  block decoders of \<open>src/gzip.c\<close> compute them.
\<close>

subsection \<open>The format\<close>

text \<open>A field of \<open>n\<close> bits with value \<open>v\<close> at the front of \<open>bs\<close>.\<close>

definition field :: "nat \<Rightarrow> bool list \<Rightarrow> nat \<Rightarrow> bool list \<Rightarrow> bool" where
  "field n bs v rest \<longleftrightarrow> n \<le> length bs \<and> v = bits_val (take n bs) \<and> rest = drop n bs"

text \<open>Copying \<open>n\<close> bytes from \<open>d\<close> bytes back; the source may overlap the bytes being written.\<close>

fun lz_copy :: "nat \<Rightarrow> nat \<Rightarrow> byte list \<Rightarrow> byte list" where
  "lz_copy 0 d xs = xs"
| "lz_copy (Suc n) d xs = lz_copy n d (xs @ [xs ! (length xs - d)])"

text \<open>The length for symbol \<open>257 + li\<close> and a distance, each with its extra bits (Sec. 3.2.5).\<close>

definition len_at :: "nat \<Rightarrow> bool list \<Rightarrow> nat \<Rightarrow> bool list \<Rightarrow> bool" where
  "len_at li bs len rest \<longleftrightarrow>
     li < 29 \<and> (\<exists>e. field (gz_len_extra ! li) bs e rest \<and> len = gz_len_base ! li + e)"

definition dist_at :: "nat list \<Rightarrow> bool list \<Rightarrow> nat \<Rightarrow> bool list \<Rightarrow> bool" where
  "dist_at ds bs dist rest \<longleftrightarrow>
     (\<exists>d r e. huff_sym ds bs d r \<and> d < 30 \<and> field (gz_dist_extra ! d) r e rest \<and> dist = gz_dist_base ! d + e)"

definition lz_match :: "nat list \<Rightarrow> nat \<Rightarrow> bool list \<Rightarrow> byte list \<Rightarrow> bool list \<Rightarrow> byte list \<Rightarrow> bool" where
  "lz_match ds sm bs xs bs' xs' \<longleftrightarrow>
     (\<exists>len r dist. len_at (sm - 257) bs len r \<and> dist_at ds r dist bs' \<and> dist \<le> length xs \<and> xs' = lz_copy len dist xs)"

text \<open>
  The body of a compressed block (Sec. 3.2.3), with the code lengths \<open>ls\<close> of the literal/length
  alphabet and \<open>ds\<close> of the distance alphabet: the bits and the output before and after it.
\<close>

inductive body :: "nat list \<Rightarrow> nat list \<Rightarrow> bool list \<Rightarrow> byte list \<Rightarrow> bool list \<Rightarrow> byte list \<Rightarrow> bool"
  for ls ds where
  body_end: "huff_sym ls bs 256 rest \<Longrightarrow> body ls ds bs xs rest xs"
| body_lit: "huff_sym ls bs sm r \<Longrightarrow> sm < 256 \<Longrightarrow> body ls ds r (xs @ [of_nat sm]) bs' xs' \<Longrightarrow> body ls ds bs xs bs' xs'"
| body_match: "huff_sym ls bs sm r \<Longrightarrow> 257 \<le> sm \<Longrightarrow> lz_match ds sm r xs r1 xs1 \<Longrightarrow>
    body ls ds r1 xs1 bs' xs' \<Longrightarrow> body ls ds bs xs bs' xs'"

text \<open>The run-length coded code lengths of a dynamic block (Sec. 3.2.7).\<close>

definition rep_sym :: "nat \<Rightarrow> nat list \<Rightarrow> (nat \<times> nat \<times> nat) option" where
  "rep_sym sm acc =
     (if sm = 16 \<and> acc \<noteq> [] then Some (2, 3, last acc)
      else if sm = 17 then Some (3, 3, 0)
      else if sm = 18 then Some (7, 11, 0)
      else None)"

definition run_at :: "nat \<Rightarrow> nat \<Rightarrow> nat \<Rightarrow> nat \<Rightarrow> nat list \<Rightarrow> bool list \<Rightarrow> nat list \<Rightarrow> bool list \<Rightarrow> bool" where
  "run_at extra base v tot acc bs acc' r \<longleftrightarrow>
     (\<exists>e. field extra bs e r \<and> length acc + (e + base) \<le> tot \<and> acc' = acc @ replicate (e + base) v)"

inductive len_seq :: "nat list \<Rightarrow> nat \<Rightarrow> bool list \<Rightarrow> nat list \<Rightarrow> bool list \<Rightarrow> nat list \<Rightarrow> bool"
  for cl tot where
  seq_end: "length acc = tot \<Longrightarrow> len_seq cl tot bs acc bs acc"
| seq_len: "length acc < tot \<Longrightarrow> huff_sym cl bs sm r \<Longrightarrow> sm < 16 \<Longrightarrow> len_seq cl tot r (acc @ [sm]) bs' acc' \<Longrightarrow>
    len_seq cl tot bs acc bs' acc'"
| seq_run: "length acc < tot \<Longrightarrow> huff_sym cl bs sm r \<Longrightarrow> rep_sym sm acc = Some (extra, base, v) \<Longrightarrow>
    run_at extra base v tot acc r acc1 r1 \<Longrightarrow> len_seq cl tot r1 acc1 bs' acc' \<Longrightarrow> len_seq cl tot bs acc bs' acc'"

text \<open>The lengths of the code length alphabet: 3 bits each, in the order of \<open>gz_cl_order\<close>.\<close>

fun cl_seq :: "nat list \<Rightarrow> bool list \<Rightarrow> nat list \<Rightarrow> nat list \<Rightarrow> bool list \<Rightarrow> bool" where
  "cl_seq [] bs cl cl' bs' \<longleftrightarrow> cl' = cl \<and> bs' = bs"
| "cl_seq (k # ks) bs cl cl' bs' \<longleftrightarrow> (\<exists>v r. field 3 bs v r \<and> cl_seq ks r (cl[k := v]) cl' bs')"

text \<open>The header of a dynamic block: \<open>HLIT\<close>, \<open>HDIST\<close> and all code lengths, then those of each alphabet.\<close>

definition dyn_codes :: "nat \<Rightarrow> nat \<Rightarrow> nat \<Rightarrow> bool list \<Rightarrow> nat \<times> nat \<times> nat list \<Rightarrow> bool list \<Rightarrow> bool" where
  "dyn_codes h1 h2 h3 bs v rest \<longleftrightarrow>
     (\<exists>cl r all. h1 + 257 \<le> 288 \<and> cl_seq (take (h3 + 4) gz_cl_order) bs (replicate 19 0) cl r \<and> lens_ok cl \<and>
        len_seq cl (h1 + 257 + (h2 + 1)) r [] rest all \<and> v = (h1 + 257, h2 + 1, all))"

definition dyn_lens :: "bool list \<Rightarrow> nat \<times> nat \<times> nat list \<Rightarrow> bool list \<Rightarrow> bool" where
  "dyn_lens bs v rest \<longleftrightarrow>
     (\<exists>h1 r1 h2 r2 h3 r3. field 5 bs h1 r1 \<and> field 5 r1 h2 r2 \<and> field 4 r2 h3 r3 \<and> dyn_codes h1 h2 h3 r3 v rest)"

definition dyn_header :: "bool list \<Rightarrow> nat list \<Rightarrow> nat list \<Rightarrow> bool list \<Rightarrow> bool" where
  "dyn_header bs ls ds rest \<longleftrightarrow>
     (\<exists>hlit hdist all. dyn_lens bs (hlit, hdist, all) rest \<and> all ! 256 \<noteq> 0 \<and>
        ls = take hlit all \<and> ds = drop hlit all \<and> lens_ok ls \<and> lens_ok ds)"

text \<open>A stored block (Sec. 3.2.4): it starts at a byte boundary of the input.\<close>

definition stored :: "bool list \<Rightarrow> byte list \<Rightarrow> bool list \<Rightarrow> byte list \<Rightarrow> bool" where
  "stored bs xs bs' xs' \<longleftrightarrow>
     (\<exists>len r1 nlen data.
        field 16 (drop (length bs mod 8) bs) len r1 \<and> field 16 r1 nlen (bytes_bits data @ bs') \<and>
        nlen = len XOR 0xFFFF \<and> length data = len \<and> xs' = xs @ data)"

definition dyn_block :: "bool list \<Rightarrow> byte list \<Rightarrow> bool list \<Rightarrow> byte list \<Rightarrow> bool" where
  "dyn_block bs xs bs' xs' \<longleftrightarrow> (\<exists>ls ds r. dyn_header bs ls ds r \<and> body ls ds r xs bs' xs')"

definition block :: "nat \<Rightarrow> bool list \<Rightarrow> byte list \<Rightarrow> bool list \<Rightarrow> byte list \<Rightarrow> bool" where
  "block btype bs xs bs' xs' \<longleftrightarrow>
     btype = 0 \<and> stored bs xs bs' xs' \<or>
     btype = 1 \<and> body gz_fixed_lengths (replicate 30 5) bs xs bs' xs' \<or>
     btype = 2 \<and> dyn_block bs xs bs' xs'"

inductive deflate :: "bool list \<Rightarrow> byte list \<Rightarrow> bool list \<Rightarrow> byte list \<Rightarrow> bool" where
  deflate_last: "field 1 bs 1 r \<Longrightarrow> field 2 r btype r' \<Longrightarrow> block btype r' xs bs' xs' \<Longrightarrow> deflate bs xs bs' xs'"
| deflate_more: "field 1 bs 0 r \<Longrightarrow> field 2 r btype r' \<Longrightarrow> block btype r' xs bs1 xs1 \<Longrightarrow> deflate bs1 xs1 bs' xs' \<Longrightarrow>
    deflate bs xs bs' xs'"

subsection \<open>The contract of a decoder\<close>

text \<open>The first bytes \<open>xs\<close> of the buffer \<open>out0\<close> have been written.\<close>

definition out_state :: "byte list \<Rightarrow> byte list \<Rightarrow> gz_state \<Rightarrow> bool" where
  "out_state out0 xs s \<longleftrightarrow>
     length xs \<le> length out0 \<and> gz_out s = xs @ drop (length xs) out0 \<and> out_pos s = length xs \<and>
     gz_crc32 s = foldl gz_crc32_byte 0xFFFFFFFF xs"

text \<open>
  A decoder started in \<open>s\<close> meets \<open>R\<close>: it returns without a fault; with 0 its remaining input and
  its output are the only ones that \<open>R\<close> allows, with an error \<open>R\<close> allows no output that fits
  the buffer.
\<close>

definition meets ::
  "byte list \<Rightarrow> (bool list \<Rightarrow> byte list \<Rightarrow> bool) \<Rightarrow> gz_state \<Rightarrow> (int \<times> gz_state) option \<Rightarrow> bool" where
  "meets out0 R s res \<longleftrightarrow>
     (case res of
        None \<Rightarrow> False
      | Some (ret, s') \<Rightarrow>
          gz_in s' = gz_in s \<and> in_pos s' \<le> length (gz_in s') \<and>
          (\<exists>xs'. out_state out0 xs' s' \<and>
             (if ret = 0 then reader_ok 8 s' \<and> R (gz_bits s') xs' \<and> (\<forall>b x. R b x \<longrightarrow> b = gz_bits s' \<and> x = xs')
              else ret < 0 \<and> (\<forall>b x. R b x \<longrightarrow> length out0 < length x))))"

lemmas meets_Some = meets_def [of _ _ _ "Some (ret, s')" for ret s', unfolded option.case prod.case]

text \<open>The same for a function that only reads: its value and the rest of the input.\<close>

definition reads :: "('v \<Rightarrow> bool list \<Rightarrow> bool) \<Rightarrow> gz_state \<Rightarrow> int \<Rightarrow> 'v \<Rightarrow> gz_state \<Rightarrow> bool" where
  "reads R s ret v s' \<longleftrightarrow>
     same_out s s' \<and> in_pos s' \<le> length (gz_in s') \<and>
     (if ret = 0 then reader_ok 8 s' \<and> R v (gz_bits s') \<and> (\<forall>w r. R w r \<longrightarrow> w = v \<and> r = gz_bits s')
      else ret < 0 \<and> (\<forall>w r. \<not> R w r))"

lemma reads_okI:
  assumes "same_out s s'" "reader_ok 8 s'" "R v (gz_bits s')" "\<And>w r. R w r \<Longrightarrow> w = v \<and> r = gz_bits s'"
  shows "reads R s 0 v s'"
proof -
  have "in_pos s' \<le> length (gz_in s')"
    using assms(2) by (simp add: reader_ok_def)
  moreover have "\<forall>w r. R w r \<longrightarrow> w = v \<and> r = gz_bits s'"
    using assms(4) by blast
  ultimately show ?thesis
    unfolding reads_def if_P [OF refl] using assms(1-3) by blast
qed

lemma reads_errI:
  assumes "same_out s s'" "in_pos s' \<le> length (gz_in s')" "ret < 0" "\<And>w r. \<not> R w r"
  shows "reads R s ret v s'"
  using assms by (simp add: reads_def)

lemma reads_okD:
  assumes "reads R s 0 v s'"
  shows "same_out s s'" "reader_ok 8 s'" "R v (gz_bits s')" "R w r \<Longrightarrow> w = v" "R w r \<Longrightarrow> r = gz_bits s'"
  using assms unfolding reads_def if_P [OF refl] by blast+

lemma reads_errD:
  assumes "reads R s ret v s'" "ret \<noteq> 0"
  shows "same_out s s'" "in_pos s' \<le> length (gz_in s')" "ret < 0" "\<not> R w r"
  using assms(1) unfolding reads_def if_not_P [OF assms(2)] by blast+

lemma reads_bind:
  assumes "reads R s 0 v t" "reads (Q v (gz_bits t)) t ret w s'"
    and "\<And>w r. S w r \<longleftrightarrow> (\<exists>v b. R v b \<and> Q v b w r)"
  shows "reads S s ret w s'"
proof (cases "ret = 0")
  case True
  note a = reads_okD [OF assms(1)] and b = reads_okD [OF assms(2) [unfolded True]]
  show ?thesis
    unfolding True
  proof (rule reads_okI)
    show "same_out s s'" "reader_ok 8 s'"
      using same_out_trans [OF a(1) b(1)] b(2) .
    show "S w (gz_bits s')"
      unfolding assms(3) using a(3) b(3) by blast
    fix w' r
    assume "S w' r"
    then obtain v' b' where "R v' b'" "Q v' b' w' r"
      unfolding assms(3) by blast
    then show "w' = w \<and> r = gz_bits s'"
      using a(4,5) b(4,5) by blast
  qed
next
  case False
  note a = reads_okD [OF assms(1)] and b = reads_errD [OF assms(2) False]
  have "\<not> S w' r" for w' r
    unfolding assms(3) using a(4,5) b(4) by blast
  then show ?thesis
    by (rule reads_errI [OF same_out_trans [OF a(1) b(1)] b(2,3)])
qed

lemma reads_map:
  assumes "reads R s 0 v t" "\<And>w r. S w r \<longleftrightarrow> (\<exists>v. R v r \<and> w = f v)"
  shows "reads S s 0 (f v) t"
proof (rule reads_okI [OF reads_okD(1,2) [OF assms(1)]])
  show "S (f v) (gz_bits t)"
    unfolding assms(2) using reads_okD(3) [OF assms(1)] by blast
  fix w r
  assume "S w r"
  then obtain u where "R u r" "w = f u"
    unfolding assms(2) by blast
  then show "w = f v \<and> r = gz_bits t"
    using reads_okD(4,5) [OF assms(1)] by simp
qed

lemma reads_fail:
  assumes "reads R s ret v s'" "ret \<noteq> 0" and "\<And>w r. S w r \<Longrightarrow> \<exists>v b. R v b"
  shows "reads S s ret u s'"
  using reads_errD [OF assms(1,2)] assms(3) by (intro reads_errI) blast+

lemma field_unique: "field n bs v r \<Longrightarrow> field n bs v' r' \<Longrightarrow> v' = v \<and> r' = r"
  by (simp add: field_def)

lemma get_bits_field:
  assumes "reader_ok 8 s" "n \<le> 16" "gz_get_bits n s = (ret, v, s')"
  shows "reads (field n (gz_bits s)) s ret v s'"
proof -
  have g: "same_out s s'" "in_pos s' \<le> length (gz_in s')"
    "if n \<le> length (gz_bits s)
     then ret = 0 \<and> v = bits_val (take n (gz_bits s)) \<and> gz_bits s' = drop n (gz_bits s) \<and> reader_ok 8 s'
     else ret = WOLFBOOT_GZIP_E_TRUNCATED"
    using get_bits_ok [OF assms(1,2)] assms(3) by auto
  show ?thesis
  proof (cases "n \<le> length (gz_bits s)")
    case True
    then have r: "ret = 0" "field n (gz_bits s) v (gz_bits s')" "reader_ok 8 s'"
      using g(3) by (simp_all add: field_def)
    show ?thesis
      unfolding r(1) using g(1) r(3,2) field_unique [OF r(2)] by (rule reads_okI [where R = "field n (gz_bits s)"])
  qed (use g in \<open>auto simp: field_def gz_errors intro: reads_errI\<close>)
qed

lemma huff_decode_reads:
  assumes "huff_table ls h" "\<forall>l\<in>set ls. l \<le> 15" "reader_ok 8 s"
  shows "\<exists>c s'. gz_huff_decode h s = Some (c, s') \<and> reads (huff_sym ls (gz_bits s)) s (min c 0) (nat c) s'"
proof -
  obtain c s' where h: "gz_huff_decode h s = Some (c, s')" "same_out s s'" "in_pos s' \<le> length (gz_in s')"
    "(\<exists>sm. c = int sm \<and> huff_sym ls (gz_bits s) sm (gz_bits s') \<and> reader_ok 8 s') \<or>
     (c < 0 \<and> (\<forall>sm rest. \<not> huff_sym ls (gz_bits s) sm rest))"
    using huff_decode_sym [OF assms] by blast
  from h(4) have "reads (huff_sym ls (gz_bits s)) s (min c 0) (nat c) s'"
  proof (elim disjE exE conjE)
    fix sm
    assume s: "c = int sm" "huff_sym ls (gz_bits s) sm (gz_bits s')" "reader_ok 8 s'"
    have "reads (huff_sym ls (gz_bits s)) s 0 sm s'"
      using h(2) s(3,2) by (rule reads_okI [where R = "huff_sym ls (gz_bits s)"]) (use huff_sym_unique [OF s(2)] in blast)
    then show ?thesis
      using s(1) by simp
  next
    assume n: "c < 0" "\<forall>sm rest. \<not> huff_sym ls (gz_bits s) sm rest"
    then show ?thesis
      using h(2,3) by (intro reads_errI) auto
  qed
  with h(1) show ?thesis
    by blast
qed

lemma out_state_same: "same_out s s' \<Longrightarrow> out_state out0 xs s' = out_state out0 xs s"
  by (simp add: out_state_def same_out_def)

lemma emit_ok:
  assumes "out_state out0 xs s"
  shows "if length xs < length out0
    then \<exists>s'. gz_emit_byte b s = (0, s') \<and> out_state out0 (xs @ [b]) s' \<and> gz_in s' = gz_in s \<and> in_pos s' = in_pos s \<and>
      gz_bits s' = gz_bits s \<and> reader_ok k s' = reader_ok k s
    else gz_emit_byte b s = (WOLFBOOT_GZIP_E_OUTPUT, s)"
proof (cases "length xs < length out0")
  case True
  have "(xs @ drop (length xs) out0)[length xs := b] = (xs @ [b]) @ drop (Suc (length xs)) out0"
    using True by (simp add: list_update_append Cons_nth_drop_Suc [symmetric])
  then show ?thesis
    using assms True by (simp add: gz_emit_byte_def out_state_def gz_bits_def reader_ok_def)
next
  case False
  then show ?thesis
    using assms by (simp add: gz_emit_byte_def out_state_def)
qed

lemma length_lz_copy [simp]: "length (lz_copy n d xs) = length xs + n"
  by (induction n arbitrary: xs) simp_all

text \<open>The tables of the code cover the lengths 3 to 258 and the distances 1 to 32768 without gaps.\<close>

lemma gz_tables_contiguous:
  "list_all (\<lambda>i. gz_len_base ! Suc i = gz_len_base ! i + 2 ^ (gz_len_extra ! i)) [0..<27]"
  "list_all (\<lambda>i. gz_dist_base ! Suc i = gz_dist_base ! i + 2 ^ (gz_dist_extra ! i)) [0..<29]"
  by (simp_all add: gz_tables upt_rec)

subsection \<open>The block decoders\<close>

text \<open>The reader and the input stay as they are while bytes are written.\<close>

definition same_in :: "gz_state \<Rightarrow> gz_state \<Rightarrow> bool" where
  "same_in s s' \<longleftrightarrow> gz_in s' = gz_in s \<and> in_pos s' = in_pos s \<and> bit_buf s' = bit_buf s \<and> bit_count s' = bit_count s"

lemma same_in_refl [simp]: "same_in s s"
  by (simp add: same_in_def)

lemma same_in_trans: "same_in s s' \<Longrightarrow> same_in s' s'' \<Longrightarrow> same_in s s''"
  by (simp add: same_in_def)

lemma same_inD:
  "same_in s s' \<Longrightarrow> gz_in s' = gz_in s" "same_in s s' \<Longrightarrow> in_pos s' = in_pos s"
  "same_in s s' \<Longrightarrow> gz_bits s' = gz_bits s" "same_in s s' \<Longrightarrow> reader_ok k s' = reader_ok k s"
  by (simp_all add: same_in_def gz_bits_def reader_ok_def)

lemma emit_same_in: "gz_emit_byte b s = (ret, s') \<Longrightarrow> same_in s s'"
  by (auto simp: gz_emit_byte_def same_in_def split: if_splits)

lemma copy_loop_ok:
  "out_state out0 xs s \<Longrightarrow> 1 \<le> d \<Longrightarrow> d \<le> length xs \<Longrightarrow> p = length xs - d \<Longrightarrow>
   \<exists>ret s' xs'. copy_loop n p s = Some (ret, s') \<and> same_in s s' \<and> out_state out0 xs' s' \<and>
     (if length xs + n \<le> length out0 then ret = 0 \<and> xs' = lz_copy n d xs else ret = WOLFBOOT_GZIP_E_OUTPUT)"
proof (induction n arbitrary: xs s p)
  case 0
  then show ?case
    by (simp add: out_state_def)
next
  case (Suc n)
  have p: "p < length xs" "p < length (gz_out s)" "gz_out s ! p = xs ! p"
    using Suc.prems by (auto simp: out_state_def nth_append)
  obtain ret s1 where e: "gz_emit_byte (xs ! p) s = (ret, s1)"
    by fastforce
  show ?case
  proof (cases "length xs < length out0")
    case True
    then have s1: "ret = 0" "out_state out0 (xs @ [xs ! p]) s1"
      using emit_ok [OF Suc.prems(1), of "xs ! p" 0] e by auto
    have "d \<le> length (xs @ [xs ! p])" "p + 1 = length (xs @ [xs ! p]) - d"
      using Suc.prems(3,4) by simp_all
    from Suc.IH [OF s1(2) Suc.prems(2) this] obtain ret' s' xs' where r: "copy_loop n (p + 1) s1 = Some (ret', s')" "same_in s1 s'" "out_state out0 xs' s'"
      "if length (xs @ [xs ! p]) + n \<le> length out0 then ret' = 0 \<and> xs' = lz_copy n d (xs @ [xs ! p])
       else ret' = WOLFBOOT_GZIP_E_OUTPUT"
      by blast
    have "copy_loop (Suc n) p s = Some (ret', s')"
      using r(1) e p s1(1) by (simp add: rd_def)
    moreover have "if length xs + Suc n \<le> length out0 then ret' = 0 \<and> xs' = lz_copy (Suc n) d xs else ret' = WOLFBOOT_GZIP_E_OUTPUT"
      using r(4) Suc.prems(4) by simp
    ultimately show ?thesis
      using r(3) same_in_trans [OF emit_same_in [OF e] r(2)] by blast
  next
    case False
    then have "ret = WOLFBOOT_GZIP_E_OUTPUT" "s1 = s"
      using emit_ok [OF Suc.prems(1), of "xs ! p" 0] e by auto
    then have "copy_loop (Suc n) p s = Some (WOLFBOOT_GZIP_E_OUTPUT, s)"
      using e p by (simp add: rd_def gz_errors)
    then show ?thesis
      using Suc.prems(1) False by (intro exI [of _ WOLFBOOT_GZIP_E_OUTPUT] exI [of _ s] exI [of _ xs]) simp
  qed
qed

lemma stored_loop_ok:
  "out_state out0 xs s \<Longrightarrow> in_pos s + n \<le> length (gz_in s) \<Longrightarrow> bit_count s = 0 \<Longrightarrow> bit_buf s = 0 \<Longrightarrow>
   \<exists>ret s' xs'. stored_loop n s = Some (ret, s') \<and> gz_in s' = gz_in s \<and> in_pos s' \<le> length (gz_in s') \<and> out_state out0 xs' s' \<and>
     (if length xs + n \<le> length out0
      then ret = 0 \<and> xs' = xs @ take n (drop (in_pos s) (gz_in s)) \<and> in_pos s' = in_pos s + n \<and> bit_count s' = 0 \<and> bit_buf s' = 0
      else ret = WOLFBOOT_GZIP_E_OUTPUT)"
proof (induction n arbitrary: xs s)
  case 0
  then show ?case
    by (simp add: out_state_def)
next
  case (Suc n)
  let ?b = "gz_in s ! in_pos s"
  obtain ret s1 where e: "gz_emit_byte ?b s = (ret, s1)"
    by fastforce
  note si = emit_same_in [OF e]
  have d: "drop (in_pos s) (gz_in s) = ?b # drop (Suc (in_pos s)) (gz_in s)"
    using Suc.prems(2) by (simp add: Cons_nth_drop_Suc)
  show ?case
  proof (cases "length xs < length out0")
    case True
    let ?s = "s1\<lparr>in_pos := in_pos s1 + 1\<rparr>"
    have s1: "ret = 0" "out_state out0 (xs @ [?b]) ?s"
      using emit_ok [OF Suc.prems(1), of ?b 0] e True by (auto simp: out_state_def)
    have "in_pos ?s + n \<le> length (gz_in ?s)" "bit_count ?s = 0" "bit_buf ?s = 0"
      using si Suc.prems by (simp_all add: same_in_def)
    from Suc.IH [OF s1(2) this] obtain ret' s' xs' where
      r: "stored_loop n ?s = Some (ret', s')" "gz_in s' = gz_in ?s" "in_pos s' \<le> length (gz_in s')" "out_state out0 xs' s'"
        "if length (xs @ [?b]) + n \<le> length out0
         then ret' = 0 \<and> xs' = (xs @ [?b]) @ take n (drop (in_pos ?s) (gz_in ?s)) \<and> in_pos s' = in_pos ?s + n \<and> bit_count s' = 0 \<and> bit_buf s' = 0
         else ret' = WOLFBOOT_GZIP_E_OUTPUT"
      by blast
    have s': "in_pos ?s = Suc (in_pos s)" "gz_in ?s = gz_in s"
      using si by (simp_all add: same_in_def)
    have "stored_loop (Suc n) s = Some (ret', s')"
      using r(1) e s1(1) Suc.prems(2) by (simp add: rd_def)
    moreover have "if length xs + Suc n \<le> length out0
      then ret' = 0 \<and> xs' = xs @ take (Suc n) (drop (in_pos s) (gz_in s)) \<and> in_pos s' = in_pos s + Suc n \<and> bit_count s' = 0 \<and> bit_buf s' = 0
      else ret' = WOLFBOOT_GZIP_E_OUTPUT"
      using r(5) d unfolding s' by (cases "length xs + Suc n \<le> length out0") simp_all
    ultimately show ?thesis
      using r(2-4) unfolding s' by blast
  next
    case False
    then have "ret = WOLFBOOT_GZIP_E_OUTPUT" "s1 = s"
      using emit_ok [OF Suc.prems(1), of ?b 0] e by auto
    then have "stored_loop (Suc n) s = Some (WOLFBOOT_GZIP_E_OUTPUT, s)"
      using e Suc.prems(2) by (simp add: rd_def gz_errors)
    then show ?thesis
      using Suc.prems(1,2) False by (intro exI [of _ WOLFBOOT_GZIP_E_OUTPUT] exI [of _ s] exI [of _ xs]) simp
  qed
qed

lemma meets_cong: "gz_in t = gz_in s \<Longrightarrow> meets out0 R t res = meets out0 R s res"
  by (simp only: meets_def)

lemma meets_ok:
  assumes "res = Some (0, s')" "gz_in s' = gz_in s" "reader_ok 8 s'" "out_state out0 xs' s'" "R (gz_bits s') xs'"
    and "\<And>b x. R b x \<Longrightarrow> b = gz_bits s' \<and> x = xs'"
  shows "meets out0 R s res"
proof -
  have "in_pos s' \<le> length (gz_in s')"
    using assms(3) by (simp add: reader_ok_def)
  moreover have "\<forall>b x. R b x \<longrightarrow> b = gz_bits s' \<and> x = xs'"
    using assms(6) by blast
  ultimately show ?thesis
    unfolding assms(1) meets_Some if_P [OF refl] using assms(2-5) by blast
qed

lemma meets_err:
  assumes "res = Some (ret, s')" "gz_in s' = gz_in s" "in_pos s' \<le> length (gz_in s')" "out_state out0 xs' s'" "ret < 0"
    and "\<And>b x. R b x \<Longrightarrow> length out0 < length x"
  shows "meets out0 R s res"
proof -
  have ne: "ret \<noteq> 0"
    using assms(5) by simp
  show ?thesis
    unfolding assms(1) meets_Some if_not_P [OF ne] using assms(2-6) by blast
qed

lemma bits_val_append: "bits_val (u @ v) = bits_val u + 2 ^ length u * bits_val v"
  by (induction u) (simp_all add: algebra_simps)

lemma bits_val_byte [simp]: "bits_val (byte_bits b) = unat b"
  unfolding byte_bits_def bits_val_word by (simp add: take_bit_word_eq_self)

lemma byte_bits_inj: "byte_bits b = byte_bits c \<Longrightarrow> b = c"
  by (simp add: word_unat_eq_iff flip: bits_val_byte)

lemma bytes_bits_inj: "bytes_bits xs @ u = bytes_bits ys @ v \<Longrightarrow> length xs = length ys \<Longrightarrow> xs = ys \<and> u = v"
proof (induction xs arbitrary: ys)
  case (Cons x xs)
  then obtain y ys' where y: "ys = y # ys'"
    by (cases ys) auto
  have "byte_bits x = byte_bits y \<and> bytes_bits xs @ u = bytes_bits ys' @ v"
    using Cons.prems(1) y by simp
  then show ?case
    using Cons.IH [of ys'] Cons.prems(2) y byte_bits_inj by simp
qed simp

lemma rd16_field:
  "p + 2 \<le> length xs \<Longrightarrow> \<exists>v. rd16 xs p = Some v \<and> field 16 (bytes_bits (drop p xs)) v (bytes_bits (drop (p + 2) xs))"
proof -
  assume "p + 2 \<le> length xs"
  then have "p < length xs" "Suc p < length xs"
    by simp_all
  moreover from this have "drop p xs = xs ! p # xs ! Suc p # drop (p + 2) xs"
    using Cons_nth_drop_Suc [of p xs] Cons_nth_drop_Suc [of "Suc p" xs] by (simp add: numeral_2_eq_2)
  ultimately show ?thesis
    by (simp add: rd16_def rd_def field_def bits_val_append)
qed

lemma field_length: "field n bs v r \<Longrightarrow> length bs = n + length r"
  by (auto simp: field_def)

lemma stored_bits:
  assumes "reader_ok 8 s"
  shows "stored (gz_bits s) xs b x \<longleftrightarrow>
     (\<exists>len r1 nlen data. field 16 (bytes_bits (drop (in_pos s) (gz_in s))) len r1 \<and> field 16 r1 nlen (bytes_bits data @ b) \<and>
        nlen = len XOR 0xFFFF \<and> length data = len \<and> x = xs @ data)"
proof -
  have "drop (length (gz_bits s) mod 8) (gz_bits s) = bytes_bits (drop (in_pos s) (gz_in s))"
    using align_ok [OF assms] by (simp add: gz_bits_def same_out_def)
  then show ?thesis
    by (simp only: stored_def)
qed

text \<open>With both length fields read, the data of a stored block is determined.\<close>

lemma stored_data:
  assumes "field 16 bs len r1" "field 16 r1 nlen (bytes_bits inp)"
  shows "(\<exists>l r n data. field 16 bs l r \<and> field 16 r n (bytes_bits data @ b) \<and> n = l XOR 0xFFFF \<and> length data = l \<and> x = xs @ data)
    \<longleftrightarrow> nlen = len XOR 0xFFFF \<and> len \<le> length inp \<and> b = bytes_bits (drop len inp) \<and> x = xs @ take len inp"
    (is "?L \<longleftrightarrow> ?R")
proof
  assume ?L
  then obtain l r n data where h: "field 16 bs l r" "field 16 r n (bytes_bits data @ b)" "n = l XOR 0xFFFF" "length data = l" "x = xs @ data"
    by blast
  have l: "l = len" "r = r1"
    using field_unique [OF assms(1) h(1)] by simp_all
  have n: "n = nlen" "bytes_bits data @ b = bytes_bits inp"
    using field_unique [OF assms(2)] h(2) l(2) by blast+
  have "length (bytes_bits data @ b) = length (bytes_bits inp)"
    using n(2) by (rule arg_cong)
  then have le: "len \<le> length inp"
    using h(4) l(1) by simp
  have "bytes_bits data @ b = bytes_bits (take len inp) @ bytes_bits (drop len inp)"
    using n(2) by (metis append_take_drop_id bytes_bits_simps(3))
  then have "data = take len inp" "b = bytes_bits (drop len inp)"
    using bytes_bits_inj [of data b "take len inp" "bytes_bits (drop len inp)"] h(4) l(1) le by simp_all
  then show ?R
    using h(3,5) l(1) n(1) le by simp
next
  assume R: ?R
  have "bytes_bits (take len inp) @ b = bytes_bits inp"
    using R by (metis append_take_drop_id bytes_bits_simps(3))
  then show ?L
    using assms R by (intro exI [of _ len] exI [of _ r1] exI [of _ nlen] exI [of _ "take len inp"]) simp
qed

lemma stored_ok:
  assumes r: "reader_ok 8 s" and o: "out_state out0 xs s" and n: "length (gz_in s) \<le> 2 ^ 32 - 65540"
  shows "meets out0 (stored (gz_bits s) xs) s (gz_inflate_stored s)"
proof -
  let ?a = "gz_align_byte s" and ?p = "in_pos s" and ?in = "gz_in s"
  have a: "in_pos ?a = ?p" "gz_in ?a = ?in" "out_state out0 xs ?a"
    using align_ok(3,4) [OF r] o out_state_same [of s ?a] by (simp_all add: same_out_def)
  have p: "?p \<le> length ?in"
    using r by (simp add: reader_ok_def)
  have u4: "u32 (?p + 4) = ?p + 4"
    using p n by (simp add: u32_def)
  show ?thesis
  proof (cases "?p + 4 \<le> length ?in")
    case False
    have "gz_inflate_stored s = Some (WOLFBOOT_GZIP_E_TRUNCATED, ?a)"
      using False u4 p a by (simp add: gz_inflate_stored_def Let_def)
    then show ?thesis
    proof (rule meets_err [OF _ a(2) _ a(3)])
      show "length out0 < length x" if "stored (gz_bits s) xs b x" for b x
        using that False p unfolding stored_bits [OF r] by (auto dest!: field_length)
    qed (use a p in \<open>simp_all add: gz_errors\<close>)
  next
    case True
    obtain len where len: "rd16 ?in ?p = Some len" "field 16 (bytes_bits (drop ?p ?in)) len (bytes_bits (drop (?p + 2) ?in))"
      using rd16_field [of ?p ?in] True by auto
    obtain nlen where nlen: "rd16 ?in (?p + 2) = Some nlen" "field 16 (bytes_bits (drop (?p + 2) ?in)) nlen (bytes_bits (drop (?p + 4) ?in))"
      using rd16_field [of "?p + 2" ?in] True by (auto simp: numeral_eq_Suc)
    note st = stored_bits [OF r, of xs, unfolded stored_data [OF len(2) nlen(2)]]
    let ?s = "?a\<lparr>in_pos := ?p + 4\<rparr>"
    let ?t = "?s\<lparr>bit_buf := 0, bit_count := 0\<rparr>"
    have len16: "len < 65536"
      using len(2) bits_val_less [of "take 16 (bytes_bits (drop ?p ?in))"] by (auto simp: field_def min_def split: if_splits)
    then have u: "u32 (?p + 4 + len) = ?p + 4 + len"
      using n True by (simp add: u32_def)
    have eq: "gz_inflate_stored s =
        (if len XOR 0xFFFF \<noteq> nlen then Some (WOLFBOOT_GZIP_E_FORMAT, ?s)
         else if ?p + 4 + len > length ?in then Some (WOLFBOOT_GZIP_E_TRUNCATED, ?s)
         else stored_loop len ?t)"
      using True len(1) nlen(1) u4 u a by (simp add: gz_inflate_stored_def Let_def)
    have os: "out_state out0 xs ?s" "out_state out0 xs ?t"
      using a(3) by (simp_all add: out_state_def)
    show ?thesis
    proof (cases "len XOR 0xFFFF = nlen \<and> ?p + 4 + len \<le> length ?in")
      case False
      have no: "\<not> stored (gz_bits s) xs b x" for b x
        unfolding st using False True by auto
      have "gz_inflate_stored s =
          Some (if len XOR 0xFFFF \<noteq> nlen then WOLFBOOT_GZIP_E_FORMAT else WOLFBOOT_GZIP_E_TRUNCATED, ?s)"
        using eq False by (auto simp: not_le)
      then show ?thesis
        by (rule meets_err [OF _ _ _ os(1)]) (use True a no in \<open>simp_all add: gz_errors\<close>)
    next
      case fit: True
      have "in_pos ?t + len \<le> length (gz_in ?t)" "bit_count ?t = 0" "bit_buf ?t = 0"
        using fit a by simp_all
      from stored_loop_ok [OF os(2) this] obtain ret s' xs' where
        l: "stored_loop len ?t = Some (ret, s')" "gz_in s' = gz_in ?t" "in_pos s' \<le> length (gz_in s')" "out_state out0 xs' s'"
          "if length xs + len \<le> length out0
           then ret = 0 \<and> xs' = xs @ take len (drop (in_pos ?t) (gz_in ?t)) \<and> in_pos s' = in_pos ?t + len \<and> bit_count s' = 0 \<and> bit_buf s' = 0
           else ret = WOLFBOOT_GZIP_E_OUTPUT"
        by blast
      have le: "len \<le> length (drop (?p + 4) ?in)"
        using fit unfolding length_drop by linarith
      have ret: "gz_inflate_stored s = Some (ret, s')" "gz_in s' = ?in"
        using eq fit l(1,2) a by simp_all
      show ?thesis
      proof (cases "length xs + len \<le> length out0")
        case fits: True
        then have s': "ret = 0" "xs' = xs @ take len (drop (?p + 4) ?in)" "gz_bits s' = bytes_bits (drop len (drop (?p + 4) ?in))" "reader_ok 8 s'"
          using l(3,5) ret(2) a by (simp_all add: gz_bits_def reader_ok_def add.commute)
        show ?thesis
          by (rule meets_ok [where R = "stored (gz_bits s) xs", OF ret(1) [unfolded s'(1)] ret(2) s'(4) l(4)])
            (simp_all only: st s'(2,3) le fit simp_thms)
      next
        case False
        then have e: "ret = WOLFBOOT_GZIP_E_OUTPUT"
          using l(5) by simp
        show ?thesis
          by (rule meets_err [OF ret(1,2) l(3,4)]) (use st e False fit in \<open>auto simp: gz_errors\<close>)
      qed
    qed
  qed
qed

lemma field_0: "field 0 bs v r \<longleftrightarrow> v = 0 \<and> r = bs"
  by (auto simp: field_def)

lemma gz_extra_bits: "li < 29 \<Longrightarrow> gz_len_extra ! li \<le> 16" "d < 30 \<Longrightarrow> gz_dist_extra ! d \<le> 16"
proof -
  have "\<forall>e\<in>set gz_len_extra. e \<le> 16" "length gz_len_extra = 29"
    "\<forall>e\<in>set gz_dist_extra. e \<le> 16" "length gz_dist_extra = 30"
    by (simp_all add: gz_tables)
  then show "li < 29 \<Longrightarrow> gz_len_extra ! li \<le> 16" "d < 30 \<Longrightarrow> gz_dist_extra ! d \<le> 16"
    by simp_all
qed

lemma gz_dist_pos: "d < 30 \<Longrightarrow> 1 \<le> gz_dist_base ! d"
proof -
  have "\<forall>e\<in>set gz_dist_base. 1 \<le> e" "length gz_dist_base = 30"
    by (simp_all add: gz_tables)
  then show "d < 30 \<Longrightarrow> 1 \<le> gz_dist_base ! d"
    by simp
qed

lemma length_ok:
  assumes r: "reader_ok 8 s" and g: "gz_length li s = (ret, len, s')"
  shows "reads (len_at li (gz_bits s)) s ret len s'"
proof (cases "li < 29")
  case False
  then have "ret = WOLFBOOT_GZIP_E_HUFFMAN" "s' = s"
    using g by (simp_all add: gz_length_def)
  then show ?thesis
    using r False by (intro reads_errI) (simp_all add: gz_errors len_at_def reader_ok_def)
next
  case True
  let ?x = "gz_len_extra ! li"
  obtain c e t where b: "gz_get_bits ?x s = (c, e, t)"
    by (metis prod_cases3)
  note f = get_bits_field [OF r gz_extra_bits(1) [OF True] b]
  have at: "len_at li bs l rest \<longleftrightarrow> (\<exists>e. field ?x bs e rest \<and> l = gz_len_base ! li + e)" for bs l rest
    using True by (simp add: len_at_def)
  show ?thesis
  proof (cases "0 < ?x")
    case pos: True
    show ?thesis
    proof (cases "c = 0")
      case zero: True
      then have s: "ret = 0" "len = gz_len_base ! li + e" "s' = t"
        using g True pos b by (auto simp: gz_length_def)
      show ?thesis
        unfolding s by (rule reads_map [OF f [unfolded zero] at])
    next
      case False
      then have "ret = c" "s' = t"
        using g True pos b by (auto simp: gz_length_def)
      then show ?thesis
        using reads_fail [OF f False, of "len_at li (gz_bits s)" len] by (auto simp: at)
    qed
  next
    case False
    then have "ret = 0" "len = gz_len_base ! li" "s' = s"
      using g True by (simp_all add: gz_length_def)
    then show ?thesis
      using r False by (auto simp: at field_0 intro!: reads_okI)
  qed
qed

lemma distance_ok:
  assumes r: "reader_ok 8 s" and tab: "huff_table ds h" "\<forall>l\<in>set ds. l \<le> 15"
  shows "\<exists>ret dist s'. gz_distance h s = Some (ret, dist, s') \<and> reads (dist_at ds (gz_bits s)) s ret dist s'"
proof -
  obtain c t where h: "gz_huff_decode h s = Some (c, t)" "reads (huff_sym ds (gz_bits s)) s (min c 0) (nat c) t"
    using huff_decode_reads [OF tab r] by blast
  show ?thesis
  proof (cases "c < 0")
    case True
    then have "reads (huff_sym ds (gz_bits s)) s c (nat c) t" "c \<noteq> 0"
      using h(2) by simp_all
    then have "reads (dist_at ds (gz_bits s)) s c 0 t"
      by (rule reads_fail) (auto simp: dist_at_def)
    then show ?thesis
      using h(1) True by (auto simp: gz_distance_def)
  next
    case False
    then obtain d where d: "c = int d"
      using nonneg_int_cases [of c] by force
    then have hd: "reads (huff_sym ds (gz_bits s)) s 0 d t"
      using h(2) by simp
    note e = reads_okD [OF hd]
    show ?thesis
    proof (cases "d < 30")
      case large: False
      then have "\<not> dist_at ds (gz_bits s) w r" for w r
        using e(4) by (auto simp: dist_at_def)
      then have "reads (dist_at ds (gz_bits s)) s WOLFBOOT_GZIP_E_HUFFMAN 0 t"
        using e(1,2) by (intro reads_errI) (auto simp: gz_errors reader_ok_def)
      then show ?thesis
        using h(1) d large by (auto simp: gz_distance_def)
    next
      case True
      let ?x = "gz_dist_extra ! d"
      obtain ret v s' where b: "gz_get_bits ?x t = (ret, v, s')"
        by (metis prod_cases3)
      note f = get_bits_field [OF e(2) gz_extra_bits(2) [OF True] b]
      have at: "dist_at ds (gz_bits s) w rest \<longleftrightarrow> (\<exists>e. field ?x (gz_bits t) e rest \<and> w = gz_dist_base ! d + e)" for w rest
        unfolding dist_at_def using e(3,4,5) True by metis
      show ?thesis
      proof (cases "0 < ?x \<and> ret \<noteq> 0")
        case err: True
        have "\<not> dist_at ds (gz_bits s) w r" for w r
          unfolding at using reads_errD(4) [OF f conjunct2 [OF err]] by blast
        then have "reads (dist_at ds (gz_bits s)) s ret (gz_dist_base ! d) s'"
          using same_out_trans [OF e(1)] reads_errD [OF f conjunct2 [OF err]] by (intro reads_errI) blast+
        then show ?thesis
          using h(1) d True err b by (auto simp: gz_distance_def)
      next
        case ok: False
        define u where "u = (if 0 < ?x then s' else t)"
        define w where "w = (if 0 < ?x then v else 0)"
        have g: "gz_distance h s = Some (0, gz_dist_base ! d + w, u)"
          using h(1) d True ok b by (auto simp: gz_distance_def u_def w_def)
        have "reads (field ?x (gz_bits t)) t 0 w u"
        proof (cases "0 < ?x")
          case True
          then show ?thesis
            using f ok by (simp add: u_def w_def)
        next
          case False
          then show ?thesis
            using e(2) by (auto simp: u_def w_def field_0 intro!: reads_okI)
        qed
        then have "reads (dist_at ds (gz_bits s)) t 0 (gz_dist_base ! d + w) u"
          by (rule reads_map) (rule at)
        then have "reads (dist_at ds (gz_bits s)) s 0 (gz_dist_base ! d + w) u"
          unfolding reads_def using same_out_trans [OF e(1)] by blast
        with g show ?thesis
          by blast
      qed
    qed
  qed
qed

subsection \<open>Composing decoders\<close>

lemma meets_read:
  assumes "reads R s 0 v t" "meets out0 (Q v (gz_bits t)) t res"
    and S: "\<And>b x. S b x \<longleftrightarrow> (\<exists>v r. R v r \<and> Q v r b x)"
  shows "meets out0 S s res"
proof -
  note r = reads_okD [OF assms(1)]
  have "S b x \<longleftrightarrow> Q v (gz_bits t) b x" for b x
    unfolding S using r(3-5) by blast
  then have "S = Q v (gz_bits t)"
    by blast
  moreover have "gz_in t = gz_in s"
    using r(1) by (simp add: same_out_def)
  ultimately show ?thesis
    using assms(2) by (simp only: meets_cong [of t s])
qed

lemma meets_read_err:
  assumes "reads R s ret v t" "ret \<noteq> 0" "out_state out0 xs s" and "\<And>b x. S b x \<Longrightarrow> \<exists>v r. R v r"
  shows "meets out0 S s (Some (ret, t))"
proof -
  note r = reads_errD [OF assms(1,2)]
  have t: "gz_in t = gz_in s" "out_state out0 xs t"
    using r(1) out_state_same [OF r(1)] assms(3) by (simp_all add: same_out_def)
  show ?thesis
    by (rule meets_err [OF refl t(1) r(2) t(2) r(3)]) (use assms(4) r(4) in blast)
qed

lemma meets_okE:
  assumes "meets out0 R s (Some (0, t))"
  obtains xs where "gz_in t = gz_in s" "out_state out0 xs t" "reader_ok 8 t" "R (gz_bits t) xs"
    "\<forall>b x. R b x \<longrightarrow> b = gz_bits t \<and> x = xs"
  using assms unfolding meets_Some if_P [OF refl] by blast

lemma meets_errE:
  assumes "meets out0 R s (Some (ret, t))" "ret \<noteq> 0"
  obtains xs where "gz_in t = gz_in s" "in_pos t \<le> length (gz_in t)" "out_state out0 xs t" "ret < 0"
    "\<forall>b x. R b x \<longrightarrow> length out0 < length x"
  using assms(1) unfolding meets_Some if_not_P [OF assms(2)] by blast

lemma meets_seq:
  assumes "meets out0 R s (Some (0, t))"
    and Q: "\<And>xs. out_state out0 xs t \<Longrightarrow> reader_ok 8 t \<Longrightarrow> R (gz_bits t) xs \<Longrightarrow> meets out0 (Q (gz_bits t) xs) t res"
    and S: "\<And>b x. S b x \<longleftrightarrow> (\<exists>b1 x1. R b1 x1 \<and> Q b1 x1 b x)"
  shows "meets out0 S s res"
proof -
  obtain xs where t: "gz_in t = gz_in s" "out_state out0 xs t" "reader_ok 8 t" "R (gz_bits t) xs"
    "\<forall>b x. R b x \<longrightarrow> b = gz_bits t \<and> x = xs"
    using meets_okE [OF assms(1)] .
  have "S b x \<longleftrightarrow> Q (gz_bits t) xs b x" for b x
    unfolding S using t(4,5) by blast
  then have "S = Q (gz_bits t) xs"
    by blast
  then show ?thesis
    using Q [OF t(2-4)] meets_cong [OF t(1)] by simp
qed

lemma meets_seq_err:
  assumes "meets out0 R s (Some (ret, t))" "ret \<noteq> 0" and S: "\<And>b x. S b x \<Longrightarrow> \<exists>b1 x1. R b1 x1 \<and> length x1 \<le> length x"
  shows "meets out0 S s (Some (ret, t))"
proof -
  obtain xs where t: "gz_in t = gz_in s" "in_pos t \<le> length (gz_in t)" "out_state out0 xs t" "ret < 0"
    "\<forall>b x. R b x \<longrightarrow> length out0 < length x"
    using meets_errE [OF assms(1,2)] .
  show ?thesis
    by (rule meets_err [OF refl t(1-4)]) (use S t(5) in force)
qed

lemma meets_same_in: "same_in s t \<Longrightarrow> meets out0 R t res \<Longrightarrow> meets out0 R s res"
  by (simp only: meets_cong [of t s] same_in_def)

subsection \<open>Back-references\<close>

lemma dist_at_pos: "dist_at ds bs dist r \<Longrightarrow> 1 \<le> dist"
  using gz_dist_pos by (auto simp: dist_at_def intro: trans_le_add1)

lemma u32_le: "u32 n \<le> n"
  by (simp add: u32_def)

lemma match_ok:
  assumes r: "reader_ok 8 s" and o: "out_state out0 xs s" and tab: "huff_table ds h" "\<forall>l\<in>set ds. l \<le> 15"
  shows "meets out0 (lz_match ds sm (gz_bits s) xs) s (gz_match h sm s)"
proof -
  obtain c len t where l: "gz_length (sm - 257) s = (c, len, t)"
    by (metis prod_cases3)
  note lr = length_ok [OF r l]
  show ?thesis
  proof (cases "c = 0")
    case False
    then have "gz_match h sm s = Some (c, t)"
      using l by (simp add: gz_match_def)
    then show ?thesis
      using meets_read_err [OF lr False o, of "lz_match ds sm (gz_bits s) xs"] by (auto simp: lz_match_def)
  next
    case True
    note lr = lr [unfolded True]
    note t = reads_okD(1,2) [OF lr]
    have ot: "out_state out0 xs t"
      using o out_state_same [OF t(1)] by simp
    obtain d dist u where d: "gz_distance h t = Some (d, dist, u)" "reads (dist_at ds (gz_bits t)) t d dist u"
      using distance_ok [OF t(2) tab] by blast
    define Q where "Q = (\<lambda>len r b x. \<exists>dist. dist_at ds r dist b \<and> dist \<le> length xs \<and> x = lz_copy len dist xs)"
    have "meets out0 (Q len (gz_bits t)) t (gz_match h sm s)"
    proof (cases "d = 0")
      case False
      then have "gz_match h sm s = Some (d, u)"
        using l d(1) True by (simp add: gz_match_def)
      then show ?thesis
        using meets_read_err [OF d(2) False ot, of "Q len (gz_bits t)"] by (auto simp: Q_def)
    next
      case zero: True
      note dr = d(2) [unfolded zero]
      note u = reads_okD(1-3) [OF dr]
      have ou: "out_state out0 xs u"
        using ot out_state_same [OF u(1)] by simp
      have pos: "1 \<le> dist"
        by (rule dist_at_pos [OF u(3)])
      have out: "out_pos u = length xs" "length (gz_out u) = length out0"
        using ou by (simp_all add: out_state_def)
      have eq: "gz_match h sm s =
          (if dist > length xs then Some (WOLFBOOT_GZIP_E_DISTANCE, u)
           else if u32 (length xs + len) > length out0 then Some (WOLFBOOT_GZIP_E_OUTPUT, u)
           else copy_loop len (length xs - dist) u)"
        using l d(1) True zero pos out by (simp add: gz_match_def)
      have "meets out0 (\<lambda>b x. dist \<le> length xs \<and> b = gz_bits u \<and> x = lz_copy len dist xs) u (gz_match h sm s)"
        (is "meets _ ?R _ _")
      proof (cases "dist \<le> length xs \<and> u32 (length xs + len) \<le> length out0")
        case False
        have "gz_match h sm s = Some (if dist > length xs then WOLFBOOT_GZIP_E_DISTANCE else WOLFBOOT_GZIP_E_OUTPUT, u)"
          using False eq by auto
        moreover have "dist \<le> length xs \<Longrightarrow> length out0 < length xs + len"
          using False u32_le [of "length xs + len"] by linarith
        ultimately show ?thesis
          by (rule_tac meets_err [OF _ refl _ ou]) (use u(2) in \<open>auto simp: gz_errors reader_ok_def\<close>)
      next
        case fit: True
        obtain ret s' xs' where k: "copy_loop len (length xs - dist) u = Some (ret, s')" "same_in u s'" "out_state out0 xs' s'"
          "if length xs + len \<le> length out0 then ret = 0 \<and> xs' = lz_copy len dist xs else ret = WOLFBOOT_GZIP_E_OUTPUT"
          using copy_loop_ok [OF ou pos conjunct1 [OF fit] refl] by blast
        have m: "gz_match h sm s = Some (ret, s')"
          using eq fit k(1) by simp
        have i: "gz_in s' = gz_in u" "gz_bits s' = gz_bits u" "reader_ok 8 s'"
          using same_inD [OF k(2)] u(2) by simp_all
        show ?thesis
        proof (cases "length xs + len \<le> length out0")
          case True
          then show ?thesis
            using k(4) by (intro meets_ok [where R = ?R, OF _ i(1,3) k(3)]) (simp_all add: m i(2) fit)
        next
          case False
          then show ?thesis
            using k(4) i(3) by (intro meets_err [OF m i(1) _ k(3)]) (auto simp: gz_errors reader_ok_def)
        qed
      qed
      moreover have "Q len (gz_bits t) b x \<longleftrightarrow> (\<exists>v r. dist_at ds (gz_bits t) v r \<and> (v \<le> length xs \<and> b = r \<and> x = lz_copy len v xs))" for b x
        unfolding Q_def by blast
      ultimately show ?thesis
        by (rule_tac meets_read [OF dr, where Q = "\<lambda>v r b x. v \<le> length xs \<and> b = r \<and> x = lz_copy len v xs"])
    qed
    then show ?thesis
      by (rule meets_read [OF lr]) (auto simp: Q_def lz_match_def)
  qed
qed

subsection \<open>The body of a compressed block\<close>

lemma huff_sym_consumes: "huff_sym ls bs sm r \<Longrightarrow> length r < length bs"
  by (auto simp: huff_sym_def)

lemma lz_match_shorter: "lz_match ds sm bs xs bs' xs' \<Longrightarrow> length bs' < length bs"
  by (auto simp: lz_match_def len_at_def dist_at_def dest!: field_length huff_sym_consumes)

lemma lz_match_grows: "lz_match ds sm bs xs bs' xs' \<Longrightarrow> length xs \<le> length xs'"
  by (auto simp: lz_match_def)

lemma body_grows: "body ls ds bs xs bs' xs' \<Longrightarrow> length xs \<le> length xs'"
proof (induction rule: body.induct)
  case (body_match bs sm r xs r1 xs1 bs' xs')
  then show ?case
    using lz_match_grows by fastforce
qed simp_all

lemma body_shorter: "body ls ds bs xs bs' xs' \<Longrightarrow> length bs' < length bs"
proof (induction rule: body.induct)
  case (body_match bs sm r xs r1 xs1 bs' xs')
  then show ?case
    using lz_match_shorter huff_sym_consumes by fastforce
qed (use huff_sym_consumes in fastforce)+

definition body_at :: "nat list \<Rightarrow> nat list \<Rightarrow> byte list \<Rightarrow> nat \<Rightarrow> bool list \<Rightarrow> bool list \<Rightarrow> byte list \<Rightarrow> bool" where
  "body_at ls ds xs sm r bs' xs' \<longleftrightarrow>
     (if sm < 256 then body ls ds r (xs @ [of_nat sm]) bs' xs'
      else if sm = 256 then bs' = r \<and> xs' = xs
      else \<exists>r1 xs1. lz_match ds sm r xs r1 xs1 \<and> body ls ds r1 xs1 bs' xs')"

lemma body_iff: "body ls ds bs xs bs' xs' \<longleftrightarrow> (\<exists>sm r. huff_sym ls bs sm r \<and> body_at ls ds xs sm r bs' xs')"
proof
  assume "body ls ds bs xs bs' xs'"
  then show "\<exists>sm r. huff_sym ls bs sm r \<and> body_at ls ds xs sm r bs' xs'"
  proof (cases rule: body.cases)
    case body_end
    then show ?thesis
      by (intro exI [of _ 256] exI [of _ bs']) (simp add: body_at_def)
  next
    case (body_lit sm r)
    then show ?thesis
      by (intro exI [of _ sm] exI [of _ r]) (simp add: body_at_def)
  next
    case (body_match sm r r1 xs1)
    then show ?thesis
      by (intro exI [of _ sm] exI [of _ r]) (auto simp: body_at_def)
  qed
next
  assume "\<exists>sm r. huff_sym ls bs sm r \<and> body_at ls ds xs sm r bs' xs'"
  then obtain sm r where h: "huff_sym ls bs sm r" "body_at ls ds xs sm r bs' xs'"
    by blast
  consider "sm < 256" | "sm = 256" | "257 \<le> sm"
    by linarith
  then show "body ls ds bs xs bs' xs'"
  proof cases
    case 1
    then show ?thesis
      using h by (intro body_lit [OF h(1)]) (simp_all add: body_at_def)
  next
    case 2
    then show ?thesis
      using h by (simp add: body_at_def body_end)
  next
    case 3
    then obtain r1 xs1 where "lz_match ds sm r xs r1 xs1" "body ls ds r1 xs1 bs' xs'"
      using h(2) by (auto simp: body_at_def)
    then show ?thesis
      by (rule body_match [OF h(1) 3])
  qed
qed

lemma body_ok:
  assumes tab: "huff_table ls h" "\<forall>l\<in>set ls. l \<le> 15" "huff_table ds d" "\<forall>l\<in>set ds. l \<le> 15"
  shows "reader_ok 8 s \<Longrightarrow> out_state out0 xs s \<Longrightarrow> meets out0 (body ls ds (gz_bits s) xs) s (gz_inflate_huffman h d s)"
proof (induction "length (gz_bits s)" arbitrary: s xs rule: less_induct)
  case less
  obtain c t where h: "gz_huff_decode h s = Some (c, t)" "reads (huff_sym ls (gz_bits s)) s (min c 0) (nat c) t"
    using huff_decode_reads [OF tab(1,2) less.prems(1)] by blast
  note step = gz_inflate_huffman.simps [of h d s]
  show ?case
  proof (cases "c < 0")
    case True
    then have eq: "gz_inflate_huffman h d s = Some (c, t)" and hr: "reads (huff_sym ls (gz_bits s)) s c (nat c) t" "c \<noteq> 0"
      using h step by simp_all
    show ?thesis
      unfolding eq by (rule meets_read_err [OF hr less.prems(2)]) (unfold body_iff, blast)
  next
    case False
    then obtain sm where sm: "c = int sm"
      using nonneg_int_cases [of c] by force
    then have hr: "reads (huff_sym ls (gz_bits s)) s 0 sm t"
      using h(2) by simp
    note t = reads_okD(1-3) [OF hr]
    have ot: "out_state out0 xs t"
      using less.prems(2) out_state_same [OF t(1)] by simp
    have sh: "length (gz_bits t) < length (gz_bits s)"
      by (rule huff_sym_consumes [OF t(3)])
    have "meets out0 (body_at ls ds xs sm (gz_bits t)) t (gz_inflate_huffman h d s)"
    proof -
      consider "sm < 256" | "sm = 256" | "257 \<le> sm"
        by linarith
      then show ?thesis
      proof cases
        case 1
        have at: "body_at ls ds xs sm (gz_bits t) = body ls ds (gz_bits t) (xs @ [of_nat sm])"
          using 1 by (simp add: body_at_def fun_eq_iff)
        obtain e u where e: "gz_emit_byte (of_nat sm) t = (e, u)"
          by fastforce
        have eq: "gz_inflate_huffman h d s = (if e = 0 then gz_inflate_huffman h d u else Some (e, u))"
          using step h(1) sm 1 e by simp
        note sd = same_inD [OF emit_same_in [OF e]]
        show ?thesis
        proof (cases "length xs < length out0")
          case True
          then have u: "e = 0" "out_state out0 (xs @ [of_nat sm]) u"
            using emit_ok [OF ot, of "of_nat sm" 0] e by auto
          have "meets out0 (body ls ds (gz_bits u) (xs @ [of_nat sm])) u (gz_inflate_huffman h d u)"
            by (rule less.hyps) (use sh sd t(2) u(2) in simp_all)
          then show ?thesis
            unfolding at eq using meets_same_in [OF emit_same_in [OF e]] sd(3) u(1) by simp
        next
          case False
          then have u: "e = WOLFBOOT_GZIP_E_OUTPUT" "u = t"
            using emit_ok [OF ot, of "of_nat sm" 0] e by auto
          show ?thesis
            unfolding at eq
            by (rule meets_err [of _ e t, OF _ refl _ ot])
              (use u t(2) False body_grows [of ls ds "gz_bits t" "xs @ [of_nat sm]"] in \<open>auto simp: gz_errors reader_ok_def dest: body_grows\<close>)
        qed
      next
        case 2
        then have "gz_inflate_huffman h d s = Some (0, t)"
          using step h(1) sm by simp
        then show ?thesis
          by (rule meets_ok [where R = "body_at ls ds xs sm (gz_bits t)", OF _ refl t(2) ot]) (simp_all add: body_at_def 2)
      next
        case 3
        have at: "body_at ls ds xs sm (gz_bits t) b x \<longleftrightarrow>
            (\<exists>r1 xs1. lz_match ds sm (gz_bits t) xs r1 xs1 \<and> body ls ds r1 xs1 b x)" for b x
          using 3 by (simp add: body_at_def)
        note m = match_ok [OF t(2) ot tab(3,4), of sm]
        obtain e u where e: "gz_match d sm t = Some (e, u)"
          using m by (auto simp: meets_def split: option.splits)
        note m = m [unfolded e]
        have eq: "gz_inflate_huffman h d s = (if e = 0 then gz_inflate_huffman h d u else Some (e, u))"
          using step h(1) sm 3 e by simp
        show ?thesis
        proof (cases "e = 0")
          case True
          show ?thesis
            unfolding eq if_P [OF True]
          proof (rule meets_seq [OF m [unfolded True] _ at])
            fix xs1
            assume u: "out_state out0 xs1 u" "reader_ok 8 u" "lz_match ds sm (gz_bits t) xs (gz_bits u) xs1"
            show "meets out0 (body ls ds (gz_bits u) xs1) u (gz_inflate_huffman h d u)"
              by (rule less.hyps) (use sh lz_match_shorter [OF u(3)] u in simp_all)
          qed
        next
          case False
          show ?thesis
            unfolding eq if_not_P [OF False]
            by (rule meets_seq_err [OF m False]) (unfold at, use body_grows in blast)
        qed
      qed
    qed
    then show ?thesis
      by (rule meets_read [OF hr]) (rule body_iff)
  qed
qed

subsection \<open>The code lengths of a dynamic block\<close>

lemma fill_lens_ok:
  "idx + n \<le> length ls \<Longrightarrow> fill_lens n idx v ls = Some (take idx ls @ replicate n v @ drop (idx + n) ls)"
proof (induction n arbitrary: idx ls)
  case (Suc n)
  have "take (Suc idx) (ls[idx := v]) = take idx ls @ [v]"
    using Suc.prems by (simp add: take_Suc_conv_app_nth)
  then show ?case
    using Suc.IH [of "Suc idx" "ls[idx := v]"] Suc.prems by simp
qed simp

lemma repeat_ok:
  assumes "reader_ok 8 s" "extra \<le> 16" "take idx ls = acc" "idx = length acc" "tot \<le> length ls"
  shows "\<exists>ret idx' ls' s'. gz_repeat extra base v tot idx ls s = Some (ret, idx', ls', s') \<and> length ls' = length ls \<and>
    reads (run_at extra base v tot acc (gz_bits s)) s ret (take idx' ls') s' \<and>
    (ret = 0 \<longrightarrow> idx' \<le> tot \<and> idx + base \<le> idx')"
proof -
  obtain c e t where b: "gz_get_bits extra s = (c, e, t)"
    by (metis prod_cases3)
  note f = get_bits_field [OF assms(1,2) b]
  show ?thesis
  proof (cases "c = 0")
    case False
    have "reads (run_at extra base v tot acc (gz_bits s)) s c (take idx ls) t"
      by (rule reads_fail [OF f False]) (auto simp: run_at_def)
    then show ?thesis
      using b False by (simp add: gz_repeat_def)
  next
    case True
    note f = f [unfolded True]
    show ?thesis
    proof (cases "idx + (e + base) \<le> tot")
      case False
      have "\<not> run_at extra base v tot acc (gz_bits s) w r" for w r
        using False reads_okD(4) [OF f, of _ r] assms(4) by (auto simp: run_at_def)
      then have "reads (run_at extra base v tot acc (gz_bits s)) s WOLFBOOT_GZIP_E_FORMAT (take idx ls) t"
        using reads_okD(1,2) [OF f] by (intro reads_errI) (simp_all add: gz_errors reader_ok_def)
      then show ?thesis
        using b True False by (simp add: gz_repeat_def gz_errors)
    next
      case fit: True
      let ?ls = "take idx ls @ replicate (e + base) v @ drop (idx + (e + base)) ls"
      have le: "idx + (e + base) \<le> length ls"
        using fit assms(5) by linarith
      have "gz_repeat extra base v tot idx ls s = Some (0, idx + (e + base), ?ls, t)"
        using b True fit fill_lens_ok [OF le, of v] by (simp add: gz_repeat_def)
      moreover have "length ?ls = length ls"
        using le by simp
      moreover have "take (idx + (e + base)) ?ls = acc @ replicate (e + base) v"
        using le assms(3,4) by simp
      moreover have "reads (run_at extra base v tot acc (gz_bits s)) s 0 (acc @ replicate (e + base) v) t"
      proof (rule reads_okI [OF reads_okD(1,2) [OF f]])
        show "run_at extra base v tot acc (gz_bits s) (acc @ replicate (e + base) v) (gz_bits t)"
          unfolding run_at_def using reads_okD(3) [OF f] fit assms(4) by blast
        fix w r
        assume "run_at extra base v tot acc (gz_bits s) w r"
        then obtain e' where "field extra (gz_bits s) e' r" "w = acc @ replicate (e' + base) v"
          by (auto simp: run_at_def)
        then show "w = acc @ replicate (e + base) v \<and> r = gz_bits t"
          using reads_okD(4,5) [OF f] by simp
      qed
      ultimately show ?thesis
        using fit by (intro exI [of _ 0] exI [of _ "idx + (e + base)"] exI [of _ ?ls] exI [of _ t]) simp
    qed
  qed
qed

definition seq_at :: "nat list \<Rightarrow> nat \<Rightarrow> nat list \<Rightarrow> nat \<Rightarrow> bool list \<Rightarrow> nat list \<Rightarrow> bool list \<Rightarrow> bool" where
  "seq_at cl tot acc sm r acc' bs' \<longleftrightarrow>
     (if sm < 16 then len_seq cl tot r (acc @ [sm]) bs' acc'
      else case rep_sym sm acc of
        None \<Rightarrow> False
      | Some (extra, base, v) \<Rightarrow> \<exists>acc1 r1. run_at extra base v tot acc r acc1 r1 \<and> len_seq cl tot r1 acc1 bs' acc')"

lemma len_seq_iff:
  assumes "length acc < tot"
  shows "len_seq cl tot bs acc bs' acc' \<longleftrightarrow> (\<exists>sm r. huff_sym cl bs sm r \<and> seq_at cl tot acc sm r acc' bs')"
proof
  assume "len_seq cl tot bs acc bs' acc'"
  then show "\<exists>sm r. huff_sym cl bs sm r \<and> seq_at cl tot acc sm r acc' bs'"
  proof (cases rule: len_seq.cases)
    case (seq_len sm r)
    then show ?thesis
      by (intro exI [of _ sm] exI [of _ r]) (simp add: seq_at_def)
  next
    case (seq_run sm r extra base v acc1 r1)
    moreover have "\<not> sm < 16"
      using seq_run(3) by (auto simp: rep_sym_def split: if_splits)
    ultimately show ?thesis
      by (intro exI [of _ sm] exI [of _ r]) (auto simp: seq_at_def)
  qed (use assms in simp)
next
  assume "\<exists>sm r. huff_sym cl bs sm r \<and> seq_at cl tot acc sm r acc' bs'"
  then obtain sm r where h: "huff_sym cl bs sm r" "seq_at cl tot acc sm r acc' bs'"
    by blast
  show "len_seq cl tot bs acc bs' acc'"
  proof (cases "sm < 16")
    case True
    then show ?thesis
      using h by (intro seq_len [OF assms h(1)]) (simp_all add: seq_at_def)
  next
    case False
    then obtain extra base v acc1 r1 where "rep_sym sm acc = Some (extra, base, v)"
      "run_at extra base v tot acc r acc1 r1" "len_seq cl tot r1 acc1 bs' acc'"
      using h(2) by (auto simp: seq_at_def split: option.splits)
    then show ?thesis
      by (rule seq_run [OF assms h(1)])
  qed
qed

lemma rep_sym_cases:
  assumes "rep_sym sm acc = Some (extra, base, v)"
  shows "extra \<le> 16" "0 < base" "\<not> sm < 16"
  using assms by (auto simp: rep_sym_def split: if_splits)

lemma lens_step:
  assumes "idx < tot" "gz_huff_decode h s = Some (int sm, t)" "\<not> sm < 16" "idx = length acc" "acc \<noteq> [] \<longrightarrow> prev = last acc"
  shows "lens_loop h tot idx prev ls s =
    (case rep_sym sm acc of
       None \<Rightarrow> Some (WOLFBOOT_GZIP_E_FORMAT, ls, t)
     | Some (extra, base, v) \<Rightarrow>
         (case gz_repeat extra base v tot idx ls t of
            None \<Rightarrow> None
          | Some (ret, idx, ls, u) \<Rightarrow> if ret = 0 then lens_loop h tot idx v ls u else Some (ret, ls, u)))"
  using assms by (subst lens_loop.simps) (auto simp: rep_sym_def)

lemma lens_loop_ok:
  assumes tab: "huff_table cl h" "\<forall>l\<in>set cl. l \<le> 15"
  shows "reader_ok 8 s \<Longrightarrow> take idx ls = acc \<Longrightarrow> idx = length acc \<Longrightarrow> idx \<le> tot \<Longrightarrow> tot \<le> length ls \<Longrightarrow>
    acc \<noteq> [] \<longrightarrow> prev = last acc \<Longrightarrow>
    \<exists>ret ls' s'. lens_loop h tot idx prev ls s = Some (ret, ls', s') \<and> length ls' = length ls \<and>
      reads (\<lambda>all r. len_seq cl tot (gz_bits s) acc r all) s ret (take tot ls') s'"
proof (induction "length (gz_bits s)" arbitrary: s idx ls acc prev rule: less_induct)
  case less
  show ?case
  proof (cases "idx < tot")
    case False
    then have "len_seq cl tot (gz_bits s) acc r all \<longleftrightarrow> r = gz_bits s \<and> all = acc" for r all
      using less.prems(3,4) by (auto elim: len_seq.cases intro: seq_end)
    then have "reads (\<lambda>all r. len_seq cl tot (gz_bits s) acc r all) s 0 (take tot ls) s"
      using less.prems False by (intro reads_okI) auto
    then show ?thesis
      using False by (subst lens_loop.simps) simp
  next
    case True
    have lt: "length acc < tot"
      using True less.prems(3) by simp
    obtain c t where h: "gz_huff_decode h s = Some (c, t)" "reads (huff_sym cl (gz_bits s)) s (min c 0) (nat c) t"
      using huff_decode_reads [OF tab less.prems(1)] by blast
    show ?thesis
    proof (cases "c < 0")
      case neg: True
      then have "lens_loop h tot idx prev ls s = Some (c, ls, t)"
        using h(1) True by (subst lens_loop.simps) simp
      moreover have "reads (huff_sym cl (gz_bits s)) s c (nat c) t" "c \<noteq> 0"
        using h(2) neg by simp_all
      then have "reads (\<lambda>all r. len_seq cl tot (gz_bits s) acc r all) s c (take tot ls) t"
        by (rule reads_fail) (unfold len_seq_iff [OF lt], blast)
      ultimately show ?thesis
        by blast
    next
      case False
      then obtain sm where sm: "c = int sm"
        using nonneg_int_cases [of c] by force
      then have hr: "reads (huff_sym cl (gz_bits s)) s 0 sm t"
        using h(2) by simp
      note t = reads_okD(1-3) [OF hr]
      have sh: "length (gz_bits t) < length (gz_bits s)"
        by (rule huff_sym_consumes [OF t(3)])
      have "\<exists>ret ls' s'. lens_loop h tot idx prev ls s = Some (ret, ls', s') \<and> length ls' = length ls \<and>
          reads (seq_at cl tot acc sm (gz_bits t)) t ret (take tot ls') s'"
      proof (cases "sm < 16")
        case lit: True
        have at: "seq_at cl tot acc sm (gz_bits t) = (\<lambda>all r. len_seq cl tot (gz_bits t) (acc @ [sm]) r all)"
          using lit by (simp add: seq_at_def fun_eq_iff)
        have "take (idx + 1) (ls[idx := sm]) = acc @ [sm]"
          using less.prems(2,5) True by (simp add: take_Suc_conv_app_nth)
        from less.hyps [OF sh t(2) this, of sm] show ?thesis
          unfolding at using lit sm h(1) less.prems(3,5) True by (subst lens_loop.simps) simp
      next
        case False
        note step = lens_step [OF True h(1) [unfolded sm] False less.prems(3,6)]
        show ?thesis
        proof (cases "rep_sym sm acc")
          case None
          have "reads (seq_at cl tot acc sm (gz_bits t)) t WOLFBOOT_GZIP_E_FORMAT (take tot ls) t"
            using None False t(2) by (intro reads_errI) (simp_all add: seq_at_def gz_errors reader_ok_def)
          then show ?thesis
            unfolding step None by simp
        next
          case (Some rs)
          then obtain extra base v where rs: "rep_sym sm acc = Some (extra, base, v)"
            by (cases rs) simp
          note rc = rep_sym_cases [OF rs]
          obtain ret idx' ls' u where g: "gz_repeat extra base v tot idx ls t = Some (ret, idx', ls', u)" "length ls' = length ls"
            "reads (run_at extra base v tot acc (gz_bits t)) t ret (take idx' ls') u"
            "ret = 0 \<longrightarrow> idx' \<le> tot \<and> idx + base \<le> idx'"
            using repeat_ok [OF t(2) rc(1) less.prems(2,3,5), of base v] by blast
          have at: "seq_at cl tot acc sm (gz_bits t) all r \<longleftrightarrow>
              (\<exists>acc1 r1. run_at extra base v tot acc (gz_bits t) acc1 r1 \<and> len_seq cl tot r1 acc1 r all)" for all r
            using rs False by (simp add: seq_at_def)
          show ?thesis
          proof (cases "ret = 0")
            case False
            have "reads (seq_at cl tot acc sm (gz_bits t)) t ret (take tot ls') u"
              by (rule reads_fail [OF g(3) False]) (unfold at, blast)
            then show ?thesis
              unfolding step rs using g(1,2) False by simp
          next
            case zero: True
            note gr = g(3) [unfolded zero]
            note u = reads_okD(1-3) [OF gr]
            have "length (gz_bits u) < length (gz_bits s)"
              using u(3) sh by (auto simp: run_at_def dest!: field_length)
            moreover have "idx' = length (take idx' ls')" "idx' \<le> tot" "tot \<le> length ls'"
              using g(2,4) zero less.prems(5) by simp_all
            moreover have "v = last (take idx' ls')"
              using u(3) rc(2) by (auto simp: run_at_def)
            ultimately obtain ret2 ls2 w where l: "lens_loop h tot idx' v ls' u = Some (ret2, ls2, w)" "length ls2 = length ls'"
              "reads (\<lambda>all r. len_seq cl tot (gz_bits u) (take idx' ls') r all) u ret2 (take tot ls2) w"
              using less.hyps [OF _ u(2) refl, of idx' ls' v] by blast
            have "reads (seq_at cl tot acc sm (gz_bits t)) t ret2 (take tot ls2) w"
              by (rule reads_bind [OF gr, where Q = "\<lambda>acc1 r1 all r. len_seq cl tot r1 acc1 r all", OF l(3)]) (rule at)
            then show ?thesis
              unfolding step rs using g(1,2) zero l(1,2) by simp
          qed
        qed
      qed
      then obtain ret ls' s' where r: "lens_loop h tot idx prev ls s = Some (ret, ls', s')" "length ls' = length ls"
        "reads (seq_at cl tot acc sm (gz_bits t)) t ret (take tot ls') s'"
        by blast
      have "reads (\<lambda>all r. len_seq cl tot (gz_bits s) acc r all) s ret (take tot ls') s'"
        by (rule reads_bind [OF hr, where Q = "seq_at cl tot acc", OF r(3)]) (rule len_seq_iff [OF lt])
      with r(1,2) show ?thesis
        by blast
    qed
  qed
qed

lemma gz_cl_order_bound: "i < 19 \<Longrightarrow> gz_cl_order ! i < 19" "length gz_cl_order = 19"
proof -
  have "\<forall>k\<in>set gz_cl_order. k < 19" and l: "length gz_cl_order = 19"
    by (simp_all add: gz_cl_order_def)
  then show "i < 19 \<Longrightarrow> gz_cl_order ! i < 19" "length gz_cl_order = 19"
    by simp_all
qed

lemma cl_loop_ok:
  "reader_ok 8 s \<Longrightarrow> \<forall>i\<in>set is. i < 19 \<Longrightarrow> length cl = 19 \<Longrightarrow>
   \<exists>ret cl' s'. cl_loop is cl s = Some (ret, cl', s') \<and> length cl' = 19 \<and>
     reads (cl_seq (map ((!) gz_cl_order) is) (gz_bits s) cl) s ret cl' s'"
proof (induction "is" arbitrary: cl s)
  case Nil
  then have "reads (\<lambda>a b. a = cl \<and> b = gz_bits s) s 0 cl s"
    by (intro reads_okI) simp_all
  then show ?case
    using Nil by simp
next
  case (Cons i "is")
  let ?k = "gz_cl_order ! i"
  have k: "i < 19" "?k < 19"
    using Cons.prems(2) gz_cl_order_bound(1) by simp_all
  obtain c v t where b: "gz_get_bits 3 s = (c, v, t)"
    by (metis prod_cases3)
  have f: "reads (field 3 (gz_bits s)) s c v t"
    by (rule get_bits_field [OF Cons.prems(1) _ b]) simp
  show ?case
  proof (cases "c = 0")
    case False
    have "reads (cl_seq (map ((!) gz_cl_order) (i # is)) (gz_bits s) cl) s c cl t"
      by (rule reads_fail [OF f False]) auto
    then show ?thesis
      using b False Cons.prems(3) by (simp del: cl_seq.simps)
  next
    case True
    note f = f [unfolded True]
    obtain ret cl' s' where l: "cl_loop is (cl[?k := v]) t = Some (ret, cl', s')" "length cl' = 19"
      "reads (cl_seq (map ((!) gz_cl_order) is) (gz_bits t) (cl[?k := v])) t ret cl' s'"
      using Cons.IH [OF reads_okD(2) [OF f], of "cl[?k := v]"] Cons.prems(2,3) by auto
    have "reads (cl_seq (map ((!) gz_cl_order) (i # is)) (gz_bits s) cl) s ret cl' s'"
      by (rule reads_bind [OF f, where Q = "\<lambda>v r. cl_seq (map ((!) gz_cl_order) is) r (cl[?k := v])", OF l(3)]) simp
    then show ?thesis
      using b True l(1,2) k gz_cl_order_bound(2) Cons.prems(3) by (simp add: rd_def del: cl_seq.simps)
  qed
qed

lemma cl_order_take: "n \<le> 19 \<Longrightarrow> map ((!) gz_cl_order) [0..<n] = take n gz_cl_order"
  using gz_cl_order_bound(2) by (simp add: list_eq_iff_nth_eq)

lemma field_less: "field n bs v r \<Longrightarrow> v < 2 ^ n"
  using bits_val_less [of "take n bs"] by (auto simp: field_def min_def split: if_splits)

lemma dynamic_codes_ok:
  assumes r: "reader_ok 8 s" and h: "h2 < 32" "h3 < 16"
  shows "\<exists>ret hlit hdist ls s'. gz_dynamic_codes h1 h2 h3 s = Some (ret, hlit, hdist, ls, s') \<and> length ls = 320 \<and>
    reads (dyn_codes h1 h2 h3 (gz_bits s)) s ret (hlit, hdist, take (hlit + hdist) ls) s'"
proof (cases "h1 + 257 \<le> 288")
  case False
  have "reads (dyn_codes h1 h2 h3 (gz_bits s)) s WOLFBOOT_GZIP_E_FORMAT (0, 0, []) s"
    using r False by (intro reads_errI) (simp_all add: dyn_codes_def gz_errors reader_ok_def)
  then show ?thesis
    using False by (simp add: gz_dynamic_codes_def Let_def)
next
  case True
  obtain c cl t where l: "cl_loop [0..<h3 + 4] (replicate 19 0) s = Some (c, cl, t)" "length cl = 19"
    "reads (cl_seq (take (h3 + 4) gz_cl_order) (gz_bits s) (replicate 19 0)) s c cl t"
    using cl_loop_ok [OF r, of "[0..<h3 + 4]" "replicate 19 0"] h(2) cl_order_take [of "h3 + 4"] by auto
  define Q where "Q = (\<lambda>cl r v rest. \<exists>all. lens_ok cl \<and>
        len_seq cl (h1 + 257 + (h2 + 1)) r [] rest all \<and> v = (h1 + 257, h2 + 1, all))"
  have dc: "dyn_codes h1 h2 h3 (gz_bits s) v rest \<longleftrightarrow>
      (\<exists>cl r. cl_seq (take (h3 + 4) gz_cl_order) (gz_bits s) (replicate 19 0) cl r \<and> Q cl r v rest)" for v rest
    unfolding dyn_codes_def Q_def using True by blast
  show ?thesis
  proof (cases "c = 0")
    case False
    have "reads (dyn_codes h1 h2 h3 (gz_bits s)) s c (0, 0, []) t"
      by (rule reads_fail [OF l(3) False]) (unfold dc, blast)
    then show ?thesis
      using True h l(1) False by (simp add: gz_dynamic_codes_def Let_def)
  next
    case zero: True
    note lr = l(3) [unfolded zero]
    note t = reads_okD(1-3) [OF lr]
    obtain e ch where b: "gz_huff_build cl 19 = Some (e, ch)"
      "if lens_ok cl then e = 0 \<and> huff_table cl ch else e = WOLFBOOT_GZIP_E_HUFFMAN"
      using huff_build_ok [of 19 cl cl] l(2) by auto
    show ?thesis
    proof (cases "lens_ok cl")
      case False
      then have e: "e = WOLFBOOT_GZIP_E_HUFFMAN" "\<And>v r. \<not> Q cl (gz_bits t) v r"
        using b(2) by (simp_all add: Q_def)
      have "reads (Q cl (gz_bits t)) t e (0, 0, []) t"
        using t(2) e by (intro reads_errI) (simp_all add: gz_errors reader_ok_def)
      then have "reads (dyn_codes h1 h2 h3 (gz_bits s)) s e (0, 0, []) t"
        by (rule reads_bind [OF lr]) (rule dc)
      then show ?thesis
        using True h l(1) b(1) zero e(1) by (simp add: gz_dynamic_codes_def Let_def gz_errors)
    next
      case ok: True
      then have e: "e = 0" "huff_table cl ch" "\<forall>l\<in>set cl. l \<le> 15"
        using b(2) by (simp_all add: lens_ok_def)
      let ?tot = "h1 + 257 + (h2 + 1)"
      have "?tot \<le> length (replicate 320 0)"
        using True h by simp
      then obtain ret ls u where w: "lens_loop ch ?tot 0 0 (replicate 320 0) t = Some (ret, ls, u)" "length ls = 320"
        "reads (\<lambda>all r. len_seq cl ?tot (gz_bits t) [] r all) t ret (take ?tot ls) u"
        using lens_loop_ok [OF e(2,3) t(2), of 0 "replicate 320 0" "[]" ?tot 0] by auto
      have "reads (Q cl (gz_bits t)) t ret (h1 + 257, h2 + 1, take ?tot ls) u"
      proof (cases "ret = 0")
        case True
        show ?thesis
          unfolding True by (rule reads_map [OF w(3) [unfolded True], where f = "\<lambda>all. (h1 + 257, h2 + 1, all)"])
            (unfold Q_def, use ok in blast)
      next
        case False
        show ?thesis
          by (rule reads_fail [OF w(3) False]) (unfold Q_def, blast)
      qed
      then have "reads (dyn_codes h1 h2 h3 (gz_bits s)) s ret (h1 + 257, h2 + 1, take ?tot ls) u"
        by (rule reads_bind [OF lr]) (rule dc)
      then show ?thesis
        using True h l(1) b(1) zero e(1) w(1,2) by (simp add: gz_dynamic_codes_def Let_def)
    qed
  qed
qed

lemma dynamic_lens_ok:
  assumes r: "reader_ok 8 s"
  shows "\<exists>ret hlit hdist ls s'. gz_dynamic_lens s = Some (ret, hlit, hdist, ls, s') \<and> length ls = 320 \<and>
    reads (dyn_lens (gz_bits s)) s ret (hlit, hdist, take (hlit + hdist) ls) s'"
proof -
  let ?z = "(0, 0, []) :: nat \<times> nat \<times> nat list"
  define Q2 where "Q2 = (\<lambda>h1 h2 r2 v rest. \<exists>h3 r3. field 4 r2 h3 r3 \<and> dyn_codes h1 h2 h3 r3 v rest)"
  define Q1 where "Q1 = (\<lambda>h1 r1 v rest. \<exists>h2 r2. field 5 r1 h2 r2 \<and> Q2 h1 h2 r2 v rest)"
  have dl: "dyn_lens (gz_bits s) v rest \<longleftrightarrow> (\<exists>h1 r1. field 5 (gz_bits s) h1 r1 \<and> Q1 h1 r1 v rest)" for v rest
    unfolding dyn_lens_def Q1_def Q2_def by blast
  obtain c1 h1 t1 where b1: "gz_get_bits 5 s = (c1, h1, t1)"
    by (metis prod_cases3)
  have f1: "reads (field 5 (gz_bits s)) s c1 h1 t1"
    by (rule get_bits_field [OF r _ b1]) simp
  show ?thesis
  proof (cases "c1 = 0")
    case False
    have "reads (dyn_lens (gz_bits s)) s c1 ?z t1"
      by (rule reads_fail [OF f1 False]) (unfold dl, blast)
    then show ?thesis
      using b1 False by (simp add: gz_dynamic_lens_def)
  next
    case z1: True
    note f1 = f1 [unfolded z1]
    obtain c2 h2 t2 where b2: "gz_get_bits 5 t1 = (c2, h2, t2)"
      by (metis prod_cases3)
    have f2: "reads (field 5 (gz_bits t1)) t1 c2 h2 t2"
      by (rule get_bits_field [OF reads_okD(2) [OF f1] _ b2]) simp
    show ?thesis
    proof (cases "c2 = 0")
      case False
      have "reads (Q1 h1 (gz_bits t1)) t1 c2 ?z t2"
        by (rule reads_fail [OF f2 False]) (unfold Q1_def, blast)
      then have "reads (dyn_lens (gz_bits s)) s c2 ?z t2"
        by (rule reads_bind [OF f1]) (rule dl)
      then show ?thesis
        using b1 b2 z1 False by (simp add: gz_dynamic_lens_def)
    next
      case z2: True
      note f2 = f2 [unfolded z2]
      have q1: "Q1 h1 (gz_bits t1) v rest \<longleftrightarrow> (\<exists>h2 r2. field 5 (gz_bits t1) h2 r2 \<and> Q2 h1 h2 r2 v rest)" for v rest
        unfolding Q1_def by blast
      obtain c3 h3 t3 where b3: "gz_get_bits 4 t2 = (c3, h3, t3)"
        by (metis prod_cases3)
      have f3: "reads (field 4 (gz_bits t2)) t2 c3 h3 t3"
        by (rule get_bits_field [OF reads_okD(2) [OF f2] _ b3]) simp
      have lift: "reads (dyn_lens (gz_bits s)) s ret v u" if h: "reads (Q2 h1 h2 (gz_bits t2)) t2 ret v u" for ret v u
        by (rule reads_bind [OF f1 _ dl], rule reads_bind [OF f2 _ q1], rule h)
      show ?thesis
      proof (cases "c3 = 0")
        case False
        have "reads (Q2 h1 h2 (gz_bits t2)) t2 c3 ?z t3"
          by (rule reads_fail [OF f3 False]) (unfold Q2_def, blast)
        from lift [OF this] show ?thesis
          using b1 b2 b3 z1 z2 False by (simp add: gz_dynamic_lens_def)
      next
        case z3: True
        note f3 = f3 [unfolded z3]
        have "h2 < 32" "h3 < 16"
          using field_less [OF reads_okD(3) [OF f2]] field_less [OF reads_okD(3) [OF f3]] by simp_all
        from dynamic_codes_ok [OF reads_okD(2) [OF f3] this, of h1] obtain ret hlit hdist ls u where
          g: "gz_dynamic_codes h1 h2 h3 t3 = Some (ret, hlit, hdist, ls, u)" "length ls = 320"
            "reads (dyn_codes h1 h2 h3 (gz_bits t3)) t3 ret (hlit, hdist, take (hlit + hdist) ls) u"
          by blast
        have "reads (Q2 h1 h2 (gz_bits t2)) t2 ret (hlit, hdist, take (hlit + hdist) ls) u"
          by (rule reads_bind [OF f3, where Q = "dyn_codes h1 h2", OF g(3)]) (unfold Q2_def, blast)
        from lift [OF this] g(1,2) show ?thesis
          using b1 b2 b3 z1 z2 z3 by (simp add: gz_dynamic_lens_def)
      qed
    qed
  qed
qed

lemma dyn_lens_bounds:
  assumes "dyn_lens bs (hlit, hdist, all) r"
  shows "257 \<le> hlit" "hlit \<le> 288" "hdist \<le> 32"
proof -
  obtain h1 h2 r1 r2 where "field 5 r1 h2 r2" "hlit = h1 + 257" "hdist = h2 + 1" "h1 + 257 \<le> 288"
    using assms unfolding dyn_lens_def dyn_codes_def by blast
  then show "257 \<le> hlit" "hlit \<le> 288" "hdist \<le> 32"
    using field_less [of 5 r1 h2 r2] by simp_all
qed

lemma dynamic_ok:
  assumes r: "reader_ok 8 s" and o: "out_state out0 xs s"
  shows "meets out0 (dyn_block (gz_bits s) xs) s (gz_inflate_dynamic s)"
proof -
  obtain ret hlit hdist ls t where g: "gz_dynamic_lens s = Some (ret, hlit, hdist, ls, t)" "length ls = 320"
    "reads (dyn_lens (gz_bits s)) s ret (hlit, hdist, take (hlit + hdist) ls) t"
    using dynamic_lens_ok [OF r] by blast
  define Q where "Q = (\<lambda>(hlit, hdist :: nat, all) r b x. all ! 256 \<noteq> 0 \<and> lens_ok (take hlit all) \<and> lens_ok (drop hlit all) \<and>
    body (take hlit all) (drop hlit all) r xs b x)"
  have db: "dyn_block (gz_bits s) xs b x \<longleftrightarrow> (\<exists>v r. dyn_lens (gz_bits s) v r \<and> Q v r b x)" for b x
    unfolding dyn_block_def dyn_header_def Q_def split_paired_Ex prod.case by blast
  show ?thesis
  proof (cases "ret = 0")
    case False
    have eq: "gz_inflate_dynamic s = Some (ret, t)"
      using g(1) False by (simp add: gz_inflate_dynamic_def)
    show ?thesis
      unfolding eq by (rule meets_read_err [OF g(3) False o]) (unfold db, blast)
  next
    case zero: True
    note gr = g(3) [unfolded zero]
    note t = reads_okD(1-3) [OF gr]
    note bd = dyn_lens_bounds [OF t(3)]
    have ot: "out_state out0 xs t"
      using o out_state_same [OF t(1)] by simp
    let ?all = "take (hlit + hdist) ls"
    have sp: "?all ! 256 = ls ! 256" "take hlit ?all = take hlit ls" "drop hlit ?all = take hdist (drop hlit ls)"
      using bd by (simp_all add: drop_take min_def)
    have q: "Q (hlit, hdist, ?all) (gz_bits t) b x \<longleftrightarrow> ls ! 256 \<noteq> 0 \<and> lens_ok (take hlit ls) \<and> lens_ok (take hdist (drop hlit ls)) \<and>
        body (take hlit ls) (take hdist (drop hlit ls)) (gz_bits t) xs b x" for b x
      unfolding Q_def prod.case sp ..
    obtain e1 lt where b1: "gz_huff_build ls hlit = Some (e1, lt)"
      "if lens_ok (take hlit ls) then e1 = 0 \<and> huff_table (take hlit ls) lt else e1 = WOLFBOOT_GZIP_E_HUFFMAN"
      using huff_build_ok [of hlit ls "take hlit ls"] g(2) bd by auto
    have hd: "hdist \<le> length (drop hlit ls)" "hdist \<le> 288"
      using g(2) bd unfolding length_drop by linarith+
    obtain e2 dt where b2: "gz_huff_build (drop hlit ls) hdist = Some (e2, dt)"
      "if lens_ok (take hdist (drop hlit ls)) then e2 = 0 \<and> huff_table (take hdist (drop hlit ls)) dt else e2 = WOLFBOOT_GZIP_E_HUFFMAN"
      using huff_build_ok [OF hd(1,2) refl] by blast
    have "meets out0 (Q (hlit, hdist, ?all) (gz_bits t)) t (gz_inflate_dynamic s)"
    proof (cases "ls ! 256 \<noteq> 0 \<and> lens_ok (take hlit ls) \<and> lens_ok (take hdist (drop hlit ls))")
      case True
      then have eq: "gz_inflate_dynamic s = gz_inflate_huffman lt dt t"
        using g(1) zero b1 b2 by (simp add: gz_inflate_dynamic_def)
      have qq: "Q (hlit, hdist, ?all) (gz_bits t) = body (take hlit ls) (take hdist (drop hlit ls)) (gz_bits t) xs"
        unfolding fun_eq_iff q using True by blast
      show ?thesis
        unfolding eq qq by (rule body_ok [OF _ _ _ _ t(2) ot]) (use b1(2) b2(2) True in \<open>simp_all add: lens_ok_def\<close>)
    next
      case False
      have eq: "gz_inflate_dynamic s = Some (WOLFBOOT_GZIP_E_HUFFMAN, t)"
        using False g(1) zero b1 b2 by (auto simp: gz_inflate_dynamic_def gz_errors split: if_splits)
      show ?thesis
        unfolding eq by (rule meets_err [OF refl refl _ ot]) (use t(2) False in \<open>simp_all add: q gz_errors reader_ok_def\<close>)
    qed
    then show ?thesis
      by (rule meets_read [OF gr]) (rule db)
  qed
qed

lemma count_list_replicate: "count_list (replicate n x) y = (if x = y then n else 0)"
  by (induction n) auto

lemma all_upto_15: "(\<forall>l::nat. 1 \<le> l \<and> l \<le> 15 \<longrightarrow> P l) \<longleftrightarrow> list_all P [1..<16]"
  by (auto simp: list_all_iff)

lemma first_code_numeral:
  "first_code ls (numeral k) = 2 * (first_code ls (pred_numeral k) + (if pred_numeral k = 0 then 0 else count_list ls (pred_numeral k)))"
  by (simp add: numeral_eq_Suc)

lemma fixed_lens_ok: "lens_ok gz_fixed_lengths" "lens_ok (replicate 30 5)"
proof -
  have c: "count_list gz_fixed_lengths l = (if l = 8 then 152 else if l = 9 then 112 else if l = 7 then 24 else 0)" for l
    by (simp add: gz_fixed_lengths_def count_list_replicate)
  have "\<forall>l\<in>set gz_fixed_lengths. l \<le> 15"
    by (auto simp: gz_fixed_lengths_def)
  then show "lens_ok gz_fixed_lengths"
    unfolding lens_ok_def all_upto_15 by (simp add: c upt_rec first_code_numeral)
  show "lens_ok (replicate 30 5)"
    unfolding lens_ok_def all_upto_15 by (simp add: count_list_replicate upt_rec first_code_numeral)
qed

lemma build_fixed_ok:
  "\<exists>lt dt. gz_build_fixed = Some (0, lt, dt) \<and> huff_table gz_fixed_lengths lt \<and> huff_table (replicate 30 5) dt"
proof -
  have len: "length gz_fixed_lengths = 288"
    by (simp add: gz_fixed_lengths_def)
  obtain lt where 1: "gz_huff_build gz_fixed_lengths 288 = Some (0, lt)" "huff_table gz_fixed_lengths lt"
    using huff_build_ok [of 288 gz_fixed_lengths gz_fixed_lengths] fixed_lens_ok(1) len by auto
  obtain dt where 2: "gz_huff_build (replicate 30 5 @ drop 30 gz_fixed_lengths) 30 = Some (0, dt)" "huff_table (replicate 30 5) dt"
    using huff_build_ok [of 30 "replicate 30 5 @ drop 30 gz_fixed_lengths" "replicate 30 5"] fixed_lens_ok(2) len by auto
  show ?thesis
    using 1 2 by (simp add: gz_build_fixed_def)
qed

subsection \<open>The sequence of blocks\<close>

lemma block_grows: "block btype bs xs bs' xs' \<Longrightarrow> length xs \<le> length xs'"
  by (auto simp: block_def stored_def dyn_block_def dest: body_grows)

lemma stored_shorter: "stored bs xs bs' xs' \<Longrightarrow> length bs' < length bs"
  unfolding stored_def by (auto dest!: field_length)

lemma dyn_block_shorter:
  assumes "dyn_block bs xs bs' xs'"
  shows "length bs' \<le> length bs"
proof -
  have cl: "cl_seq ks b cl cl' b' \<Longrightarrow> length b' \<le> length b" for ks b cl cl' b'
  proof (induction ks arbitrary: b cl)
    case (Cons k ks)
    then obtain v r where "field 3 b v r" "cl_seq ks r (cl[k := v]) cl' b'"
      by auto
    then show ?case
      using Cons.IH field_length by fastforce
  qed simp
  have ln: "len_seq cl tot b acc b' acc' \<Longrightarrow> length b' \<le> length b" for cl tot b acc b' acc'
    by (induction rule: len_seq.induct) (auto simp: run_at_def dest!: field_length huff_sym_consumes)
  show ?thesis
    using assms unfolding dyn_block_def dyn_header_def dyn_lens_def dyn_codes_def
    by (auto dest!: field_length cl ln body_shorter)
qed

lemma block_shorter: "block btype bs xs bs' xs' \<Longrightarrow> length bs' \<le> length bs"
  unfolding block_def using stored_shorter dyn_block_shorter body_shorter by (meson less_imp_le)

lemma deflate_grows: "deflate bs xs bs' xs' \<Longrightarrow> length xs \<le> length xs'"
  by (induction rule: deflate.induct) (auto dest!: block_grows)

lemma field_1: "field 1 bs v r \<Longrightarrow> v = 0 \<or> v = 1"
  using field_less [of 1 bs v r] by auto

definition more :: "nat \<Rightarrow> bool list \<Rightarrow> byte list \<Rightarrow> bool list \<Rightarrow> byte list \<Rightarrow> bool" where
  "more bfinal bs xs bs' xs' \<longleftrightarrow> (if bfinal = 0 then deflate bs xs bs' xs' else bs' = bs \<and> xs' = xs)"

lemma deflate_iff:
  "deflate bs xs bs' xs' \<longleftrightarrow>
     (\<exists>f r. field 1 bs f r \<and> (\<exists>btype r'. field 2 r btype r' \<and> (\<exists>b1 x1. block btype r' xs b1 x1 \<and> more f b1 x1 bs' xs')))"
proof
  assume "deflate bs xs bs' xs'"
  then show "\<exists>f r. field 1 bs f r \<and> (\<exists>btype r'. field 2 r btype r' \<and> (\<exists>b1 x1. block btype r' xs b1 x1 \<and> more f b1 x1 bs' xs'))"
  proof (cases rule: deflate.cases)
    case (deflate_last r btype r')
    then have "more 1 bs' xs' bs' xs'"
      by (simp add: more_def)
    with deflate_last show ?thesis
      by blast
  next
    case (deflate_more r btype r' bs1 xs1)
    then have "more 0 bs1 xs1 bs' xs'"
      by (simp add: more_def)
    with deflate_more show ?thesis
      by blast
  qed
next
  assume "\<exists>f r. field 1 bs f r \<and> (\<exists>btype r'. field 2 r btype r' \<and> (\<exists>b1 x1. block btype r' xs b1 x1 \<and> more f b1 x1 bs' xs'))"
  then obtain f r btype r' b1 x1 where h: "field 1 bs f r" "field 2 r btype r'" "block btype r' xs b1 x1" "more f b1 x1 bs' xs'"
    by blast
  show "deflate bs xs bs' xs'"
  proof (cases "f = 0")
    case True
    then show ?thesis
      using deflate_more [OF h(1) [unfolded True] h(2,3)] h(4) by (simp add: more_def)
  next
    case False
    then have f: "f = 1"
      using field_1 [OF h(1)] by simp
    show ?thesis
      using deflate_last [OF h(1) [unfolded f] h(2,3)] h(4) f by (simp add: more_def)
  qed
qed

definition fixed_ok :: "(gz_huff \<times> gz_huff) option \<Rightarrow> bool" where
  "fixed_ok fixed \<longleftrightarrow>
     (\<forall>lt dt. fixed = Some (lt, dt) \<longrightarrow> huff_table gz_fixed_lengths lt \<and> huff_table (replicate 30 5) dt)"

text \<open>One block, whatever its type.\<close>

lemma block_ok:
  assumes r: "reader_ok 8 u" and o: "out_state out0 xs u" and n: "length (gz_in u) \<le> 2 ^ 32 - 65540" and fx: "fixed_ok fixed"
    and b: "gz_get_bits 1 s = (0, bfinal, t)" "gz_get_bits 2 t = (0, btype, u)"
  shows "\<exists>ret w fixed'. fixed_ok fixed' \<and>
    inflate_loop fixed s = (if ret = 0 \<and> bfinal = 0 then inflate_loop fixed' w else Some (ret, w)) \<and>
    meets out0 (block btype (gz_bits u) xs) u (Some (ret, w))"
proof -
  note step = inflate_loop.simps [of fixed s]
  have res: "\<exists>ret w. res = Some (ret, w)" if "meets out0 R u res" for R res
    using that by (auto simp: meets_def split: option.splits)
  consider "btype = 0" | "btype = 1" | "btype = 2" | "3 \<le> btype"
    by linarith
  then show ?thesis
  proof cases
    case 1
    note m = stored_ok [OF r o n]
    have R: "block btype (gz_bits u) xs = stored (gz_bits u) xs"
      using 1 by (simp add: block_def fun_eq_iff)
    obtain ret w where e: "gz_inflate_stored u = Some (ret, w)"
      using res [OF m] by blast
    have "inflate_loop fixed s = (if ret = 0 \<and> bfinal = 0 then inflate_loop fixed w else Some (ret, w))"
      using step b 1 e by simp
    then show ?thesis
      unfolding R using fx m [unfolded e] by blast
  next
    case 2
    have R: "block btype (gz_bits u) xs = body gz_fixed_lengths (replicate 30 5) (gz_bits u) xs"
      using 2 by (simp add: block_def fun_eq_iff)
    obtain lt dt where f: "(case fixed of Some f \<Rightarrow> Some (0, f) | None \<Rightarrow> gz_build_fixed) = Some (0, lt, dt)"
      "huff_table gz_fixed_lengths lt" "huff_table (replicate 30 5) dt"
      using build_fixed_ok fx by (cases fixed) (auto simp: fixed_ok_def)
    have m: "meets out0 (body gz_fixed_lengths (replicate 30 5) (gz_bits u) xs) u (gz_inflate_huffman lt dt u)"
      by (rule body_ok [OF f(2) _ f(3) _ r o]) (use fixed_lens_ok in \<open>simp_all add: lens_ok_def\<close>)
    obtain ret w where e: "gz_inflate_huffman lt dt u = Some (ret, w)"
      using res [OF m] by blast
    have "inflate_loop fixed s = (if ret = 0 \<and> bfinal = 0 then inflate_loop (Some (lt, dt)) w else Some (ret, w))"
      unfolding step using b 2 e f(1) by simp
    moreover have "fixed_ok (Some (lt, dt))"
      using f(2,3) by (simp add: fixed_ok_def)
    ultimately show ?thesis
      unfolding R using m [unfolded e] by blast
  next
    case 3
    note m = dynamic_ok [OF r o]
    have R: "block btype (gz_bits u) xs = dyn_block (gz_bits u) xs"
      using 3 by (simp add: block_def fun_eq_iff)
    obtain ret w where e: "gz_inflate_dynamic u = Some (ret, w)"
      using res [OF m] by blast
    have "inflate_loop fixed s = (if ret = 0 \<and> bfinal = 0 then inflate_loop fixed w else Some (ret, w))"
      using step b 3 e by simp
    then show ?thesis
      unfolding R using fx m [unfolded e] by blast
  next
    case 4
    have "inflate_loop fixed s = Some (WOLFBOOT_GZIP_E_FORMAT, u)"
      using step b 4 by simp
    moreover have "meets out0 (block btype (gz_bits u) xs) u (Some (WOLFBOOT_GZIP_E_FORMAT, u))"
      by (rule meets_err [OF refl refl _ o]) (use r 4 in \<open>auto simp: block_def gz_errors reader_ok_def\<close>)
    ultimately show ?thesis
      using fx by (intro exI [of _ WOLFBOOT_GZIP_E_FORMAT] exI [of _ u] exI [of _ fixed]) (simp add: gz_errors)
  qed
qed

lemma inflate_loop_ok:
  "reader_ok 8 s \<Longrightarrow> out_state out0 xs s \<Longrightarrow> length (gz_in s) \<le> 2 ^ 32 - 65540 \<Longrightarrow> fixed_ok fixed \<Longrightarrow>
   meets out0 (deflate (gz_bits s) xs) s (inflate_loop fixed s)"
proof (induction "length (gz_bits s)" arbitrary: s xs fixed rule: less_induct)
  case less
  define D2 where "D2 = (\<lambda>f btype r' b x. \<exists>b1 x1. block btype r' xs b1 x1 \<and> more f b1 x1 b x)"
  define D1 where "D1 = (\<lambda>f r b x. \<exists>btype r'. field 2 r btype r' \<and> D2 f btype r' b x)"
  have df: "deflate (gz_bits s) xs b x \<longleftrightarrow> (\<exists>f r. field 1 (gz_bits s) f r \<and> D1 f r b x)" for b x
    unfolding deflate_iff [of "gz_bits s"] D1_def D2_def by blast
  obtain c1 f t where b1: "gz_get_bits 1 s = (c1, f, t)"
    by (metis prod_cases3)
  have f1: "reads (field 1 (gz_bits s)) s c1 f t"
    by (rule get_bits_field [OF less.prems(1) _ b1]) simp
  show ?case
  proof (cases "c1 = 0")
    case False
    have eq: "inflate_loop fixed s = Some (c1, t)"
      unfolding inflate_loop.simps [of fixed s] b1 using False by simp
    show ?thesis
      unfolding eq by (rule meets_read_err [OF f1 False less.prems(2)]) (unfold df, blast)
  next
    case z1: True
    note f1 = f1 [unfolded z1]
    note t = reads_okD(1-3) [OF f1]
    have ot: "out_state out0 xs t"
      using less.prems(2) out_state_same [OF t(1)] by simp
    have sh: "length (gz_bits t) < length (gz_bits s)"
      using field_length [OF t(3)] by simp
    obtain c2 btype u where b2: "gz_get_bits 2 t = (c2, btype, u)"
      by (metis prod_cases3)
    have f2: "reads (field 2 (gz_bits t)) t c2 btype u"
      by (rule get_bits_field [OF t(2) _ b2]) simp
    have "meets out0 (D1 f (gz_bits t)) t (inflate_loop fixed s)"
    proof (cases "c2 = 0")
      case False
      have eq: "inflate_loop fixed s = Some (c2, u)"
        unfolding inflate_loop.simps [of fixed s] b1 prod.case b2 using z1 False by simp
      show ?thesis
        unfolding eq by (rule meets_read_err [OF f2 False ot]) (unfold D1_def, blast)
    next
      case z2: True
      note f2 = f2 [unfolded z2]
      note u = reads_okD(1-3) [OF f2]
      have ou: "out_state out0 xs u" and iu: "gz_in u = gz_in s"
        using ot out_state_same [OF u(1)] t(1) u(1) by (simp_all add: same_out_def)
      have su: "length (gz_bits u) < length (gz_bits s)"
        using field_length [OF u(3)] sh by simp
      obtain ret w fixed' where k: "fixed_ok fixed'"
        "inflate_loop fixed s = (if ret = 0 \<and> f = 0 then inflate_loop fixed' w else Some (ret, w))"
        "meets out0 (block btype (gz_bits u) xs) u (Some (ret, w))"
        using block_ok [OF u(2) ou _ less.prems(4) b1 [unfolded z1] b2 [unfolded z2]] less.prems(3) iu by auto
      have "meets out0 (D2 f btype (gz_bits u)) u (inflate_loop fixed s)"
      proof (cases "ret = 0")
        case False
        have "\<exists>b1 x1. block btype (gz_bits u) xs b1 x1 \<and> length x1 \<le> length x" if h: "D2 f btype (gz_bits u) b x" for b x
        proof -
          obtain b1 x1 where d: "block btype (gz_bits u) xs b1 x1" "more f b1 x1 b x"
            using h unfolding D2_def by blast
          have "length x1 \<le> length x"
            using d(2) deflate_grows [of b1 x1 b x] by (auto simp: more_def split: if_splits)
          with d(1) show ?thesis
            by blast
        qed
        then show ?thesis
          unfolding k(2) using meets_seq_err [OF k(3) False] False by simp
      next
        case z: True
        have iw: "length (gz_in w) \<le> 2 ^ 32 - 65540"
          using meets_okE [OF k(3) [unfolded z]] iu less.prems(3) by metis
        show ?thesis
        proof (rule meets_seq [OF k(3) [unfolded z], where Q = "more f"])
          fix x1
          assume w: "out_state out0 x1 w" "reader_ok 8 w" "block btype (gz_bits u) xs (gz_bits w) x1"
          show "meets out0 (more f (gz_bits w) x1) w (inflate_loop fixed s)"
          proof (cases "f = 0")
            case True
            have "meets out0 (deflate (gz_bits w) x1) w (inflate_loop fixed' w)"
              by (rule less.hyps [OF _ w(2,1) iw k(1)]) (use block_shorter [OF w(3)] su in simp)
            moreover have "more f (gz_bits w) x1 = deflate (gz_bits w) x1"
              using True by (simp add: more_def fun_eq_iff)
            ultimately show ?thesis
              unfolding k(2) using z True by simp
          next
            case False
            then have "inflate_loop fixed s = Some (0, w)"
              unfolding k(2) using z by simp
            then show ?thesis
              by (rule meets_ok [where R = "more f (gz_bits w) x1", OF _ refl w(2,1)]) (simp_all add: more_def False)
          qed
        qed (unfold D2_def, blast)
      qed
      then show ?thesis
        by (rule meets_read [OF f2]) (unfold D1_def, blast)
    qed
    then show ?thesis
      by (rule meets_read [OF f1]) (rule df)
  qed
qed

lemma inflate_ok:
  assumes "reader_ok 8 s" "out_state out0 xs s" "length (gz_in s) \<le> 2 ^ 32 - 65540"
  shows "meets out0 (deflate (gz_bits s) xs) s (gz_inflate s)"
  unfolding gz_inflate_def by (rule inflate_loop_ok [OF assms]) (simp add: fixed_ok_def)

end
