(* ===== verification/Gzip_Props.thy ===== *)
theory Gzip_Props
  imports Gzip_Deflate
begin

text \<open>
  The gzip wrapper of \<open>src/gzip.c\<close>: \<open>wolfBoot_gunzip\<close> accepts exactly the members of RFC 1952 whose
  data fits the output buffer, and decodes them.
\<close>

section \<open>The gzip file format (RFC 1952)\<close>

definition extra_field :: "byte list \<Rightarrow> byte list \<Rightarrow> bool" where
  "extra_field bs rest \<longleftrightarrow> (\<exists>lo hi data. bs = lo # hi # data @ rest \<and> length data = unat lo + 256 * unat hi)"

definition zstring :: "byte list \<Rightarrow> byte list \<Rightarrow> bool" where
  "zstring bs rest \<longleftrightarrow> (\<exists>name. bs = name @ 0 # rest \<and> 0 \<notin> set name)"

definition hcrc :: "byte list \<Rightarrow> byte list \<Rightarrow> bool" where
  "hcrc bs rest \<longleftrightarrow> (\<exists>a b. bs = a # b # rest)"

definition optional :: "bool \<Rightarrow> (byte list \<Rightarrow> byte list \<Rightarrow> bool) \<Rightarrow> byte list \<Rightarrow> byte list \<Rightarrow> bool" where
  "optional p R bs rest \<longleftrightarrow> (if p then R bs rest else rest = bs)"

definition gzip_fields :: "byte \<Rightarrow> byte list \<Rightarrow> byte list \<Rightarrow> bool" where
  "gzip_fields flg bs rest \<longleftrightarrow>
     (\<exists>r1 r2 r3.
        optional (bit flg 2) extra_field bs r1 \<and> optional (bit flg 3) zstring r1 r2 \<and>
        optional (bit flg 4) zstring r2 r3 \<and> optional (bit flg 1) hcrc r3 rest)"

definition gzip_header :: "byte list \<Rightarrow> byte list \<Rightarrow> bool" where
  "gzip_header bs rest \<longleftrightarrow>
     (\<exists>flg info r. bs = [0x1F, 0x8B, 8, flg] @ info @ r \<and> length info = 6 \<and>
        \<not> bit flg 5 \<and> \<not> bit flg 6 \<and> \<not> bit flg 7 \<and> gzip_fields flg r rest)"

text \<open>The checksum and the size of the data, in little-endian order.\<close>

definition crc32 :: "byte list \<Rightarrow> 32 word" where
  "crc32 xs = foldl gz_crc32_byte 0xFFFFFFFF xs XOR 0xFFFFFFFF"

definition gz_le32 :: "byte list \<Rightarrow> nat" where
  "gz_le32 bs = bits_val (bytes_bits (take 4 bs))"

definition gzip_trailer :: "byte list \<Rightarrow> byte list \<Rightarrow> bool" where
  "gzip_trailer tr xs \<longleftrightarrow> 8 \<le> length tr \<and> of_nat (gz_le32 tr) = crc32 xs \<and> gz_le32 (drop 4 tr) = length xs"

definition gzip_member :: "byte list \<Rightarrow> byte list \<Rightarrow> bool" where
  "gzip_member bs xs \<longleftrightarrow>
     (\<exists>r b tr. gzip_header bs r \<and> deflate (bytes_bits r) [] b xs \<and>
        drop (length b mod 8) b = bytes_bits tr \<and> gzip_trailer tr xs)"

section \<open>The header\<close>

text \<open>
  A step over a header field: it moves the position, and says so exactly when the field is there.
\<close>

definition skips :: "(byte list \<Rightarrow> byte list \<Rightarrow> bool) \<Rightarrow> gz_state \<Rightarrow> int \<Rightarrow> gz_state \<Rightarrow> bool" where
  "skips R s ret s' \<longleftrightarrow>
     s' = s\<lparr>in_pos := in_pos s'\<rparr> \<and> in_pos s' \<le> length (gz_in s) \<and>
     (if ret = 0 then R (drop (in_pos s) (gz_in s)) (drop (in_pos s') (gz_in s)) \<and>
        (\<forall>r. R (drop (in_pos s) (gz_in s)) r \<longrightarrow> r = drop (in_pos s') (gz_in s))
      else ret < 0 \<and> (\<forall>r. \<not> R (drop (in_pos s) (gz_in s)) r))"

lemma drop_two: "p + 2 \<le> length xs \<Longrightarrow> drop p xs = xs ! p # xs ! (p + 1) # drop (p + 2) xs"
  using Cons_nth_drop_Suc [of p xs] Cons_nth_drop_Suc [of "Suc p" xs] by (simp add: numeral_2_eq_2)

lemma skip_extra_ok:
  assumes p: "in_pos s \<le> length (gz_in s)" and n: "length (gz_in s) \<le> 2 ^ 32 - 65540"
  shows "\<exists>ret s'. gz_skip_extra s = Some (ret, s') \<and> skips extra_field s ret s'"
proof -
  let ?p = "in_pos s" and ?in = "gz_in s"
  have u: "u32 (?p + 2) = ?p + 2"
    using p n by (simp add: u32_def)
  show ?thesis
  proof (cases "?p + 2 \<le> length ?in")
    case False
    have "\<not> extra_field (drop ?p ?in) r" for r
    proof
      assume "extra_field (drop ?p ?in) r"
      then have "2 \<le> length (drop ?p ?in)"
        by (auto simp: extra_field_def simp del: length_drop)
      with False show False
        by simp
    qed
    then have "skips extra_field s WOLFBOOT_GZIP_E_TRUNCATED s"
      unfolding skips_def using p by (auto simp: gz_errors)
    then show ?thesis
      using False u by (simp add: gz_skip_extra_def)
  next
    case True
    define lo hi where "lo = ?in ! ?p" and "hi = ?in ! (?p + 1)"
    define xlen where "xlen = unat lo + 256 * unat hi"
    have d: "drop ?p ?in = lo # hi # drop (?p + 2) ?in"
      unfolding lo_def hi_def by (rule drop_two [OF True])
    have r16: "rd16 ?in ?p = Some xlen"
      using True by (simp add: rd16_def rd_def xlen_def lo_def hi_def)
    have "xlen < 65536"
      unfolding xlen_def using unat_byte_bound [of lo] unat_byte_bound [of hi] by linarith
    then have u2: "u32 (?p + 2 + xlen) = ?p + 2 + xlen"
      using True n by (simp add: u32_def)
    have ef: "extra_field (drop ?p ?in) r \<longleftrightarrow> ?p + 2 + xlen \<le> length ?in \<and> r = drop (?p + 2 + xlen) ?in" for r
    proof
      assume "extra_field (drop ?p ?in) r"
      then obtain data where e: "drop (?p + 2) ?in = data @ r" "length data = xlen"
        unfolding extra_field_def d xlen_def by auto
      have "length (drop (?p + 2) ?in) = length (data @ r)"
        using e(1) by (rule arg_cong)
      moreover have "drop xlen (drop (?p + 2) ?in) = r"
        unfolding e(1) using e(2) by simp
      ultimately show "?p + 2 + xlen \<le> length ?in \<and> r = drop (?p + 2 + xlen) ?in"
        using True e(2) by (auto simp: add.commute)
    next
      assume h: "?p + 2 + xlen \<le> length ?in \<and> r = drop (?p + 2 + xlen) ?in"
      then have "drop (?p + 2) ?in = take xlen (drop (?p + 2) ?in) @ r"
        by (metis append_take_drop_id drop_drop add.commute)
      moreover have "length (take xlen (drop (?p + 2) ?in)) = xlen"
        using h by auto
      ultimately show "extra_field (drop ?p ?in) r"
        unfolding extra_field_def d xlen_def by blast
    qed
    show ?thesis
    proof (cases "?p + 2 + xlen \<le> length ?in")
      case fit: True
      have "gz_skip_extra s = Some (0, s\<lparr>in_pos := ?p + 2 + xlen\<rparr>)"
        using True u u2 r16 fit by (simp add: gz_skip_extra_def Let_def)
      moreover have "skips extra_field s 0 (s\<lparr>in_pos := ?p + 2 + xlen\<rparr>)"
        unfolding skips_def ef using fit by auto
      ultimately show ?thesis
        by blast
    next
      case no: False
      have "gz_skip_extra s = Some (WOLFBOOT_GZIP_E_TRUNCATED, s\<lparr>in_pos := ?p + 2\<rparr>)"
        using True u u2 r16 no by (simp add: gz_skip_extra_def Let_def)
      moreover have "skips extra_field s WOLFBOOT_GZIP_E_TRUNCATED (s\<lparr>in_pos := ?p + 2\<rparr>)"
        unfolding skips_def ef using no True by (auto simp: gz_errors)
      ultimately show ?thesis
        by blast
    qed
  qed
qed

lemma zstring_Cons: "zstring (b # bs) r \<longleftrightarrow> (if b = 0 then r = bs else zstring bs r)"
proof
  assume "zstring (b # bs) r"
  then obtain name where n: "b # bs = name @ 0 # r" "0 \<notin> set name"
    by (auto simp: zstring_def)
  then show "if b = 0 then r = bs else zstring bs r"
    by (cases name) (auto simp: zstring_def)
next
  assume h: "if b = 0 then r = bs else zstring bs r"
  show "zstring (b # bs) r"
  proof (cases "b = 0")
    case True
    then show ?thesis
      using h by (auto simp: zstring_def intro: exI [of _ "[]"])
  next
    case False
    then obtain name where "bs = name @ 0 # r" "0 \<notin> set name"
      using h by (auto simp: zstring_def)
    then show ?thesis
      using False by (auto simp: zstring_def intro!: exI [of _ "b # name"])
  qed
qed

lemma skip_zstring_ok:
  "in_pos s \<le> length (gz_in s) \<Longrightarrow> gz_skip_zstring s = (ret, s') \<Longrightarrow> skips zstring s ret s'"
proof (induction s arbitrary: ret s' rule: gz_skip_zstring.induct)
  case (1 s)
  let ?p = "in_pos s" and ?in = "gz_in s"
  note step = gz_skip_zstring.simps [of s]
  show ?case
  proof (cases "?p < length ?in")
    case False
    then have "ret = WOLFBOOT_GZIP_E_TRUNCATED" "s' = s" "drop ?p ?in = []"
      using 1(3) step by simp_all
    then show ?thesis
      using 1(2) by (auto simp: skips_def zstring_def gz_errors)
  next
    case True
    have d: "drop ?p ?in = ?in ! ?p # drop (?p + 1) ?in"
      using True by (simp add: Cons_nth_drop_Suc)
    show ?thesis
    proof (cases "?in ! ?p = 0")
      case zero: True
      then have "ret = 0" "s' = s\<lparr>in_pos := ?p + 1\<rparr>"
        using 1(3) step True by simp_all
      then show ?thesis
        unfolding skips_def d zstring_Cons using True zero by auto
    next
      case False
      let ?s = "s\<lparr>in_pos := ?p + 1\<rparr>"
      have "skips zstring ?s ret s'"
        using 1(1) [of ret s'] 1(3) step True False by simp
      then show ?thesis
        unfolding skips_def d zstring_Cons using False by auto
    qed
  qed
qed

lemma skip_hcrc_ok:
  assumes p: "in_pos s \<le> length (gz_in s)" and n: "length (gz_in s) \<le> 2 ^ 32 - 65540" and "gz_skip_hcrc s = (ret, s')"
  shows "skips hcrc s ret s'"
proof -
  let ?p = "in_pos s" and ?in = "gz_in s"
  have u: "u32 (?p + 2) = ?p + 2"
    using p n by (simp add: u32_def)
  show ?thesis
  proof (cases "?p + 2 \<le> length ?in")
    case True
    have "drop ?p ?in = ?in ! ?p # ?in ! (?p + 1) # drop (?p + 2) ?in"
      by (rule drop_two [OF True])
    moreover have "ret = 0" "s' = s\<lparr>in_pos := ?p + 2\<rparr>"
      using assms(3) True u by (simp_all add: gz_skip_hcrc_def)
    ultimately show ?thesis
      using True by (auto simp: skips_def hcrc_def)
  next
    case False
    have "\<not> hcrc (drop ?p ?in) r" for r
    proof
      assume "hcrc (drop ?p ?in) r"
      then have "2 \<le> length (drop ?p ?in)"
        by (auto simp: hcrc_def simp del: length_drop)
      with False show False
        by simp
    qed
    moreover have "ret = WOLFBOOT_GZIP_E_TRUNCATED" "s' = s"
      using assms(3) False u by (simp_all add: gz_skip_hcrc_def)
    ultimately show ?thesis
      unfolding skips_def using p by (auto simp: gz_errors)
  qed
qed

lemma skips_optional:
  assumes "in_pos s \<le> length (gz_in s)" "p \<Longrightarrow> skips R s ret s'" "\<not> p \<Longrightarrow> ret = 0 \<and> s' = s"
  shows "skips (optional p R) s ret s'"
proof (cases p)
  case True
  then show ?thesis
    using assms(2) by (simp add: skips_def optional_def)
next
  case False
  then show ?thesis
    using assms(1,3) by (auto simp: skips_def optional_def)
qed

text \<open>Two fields in a row: the second is looked at only after the first was there.\<close>

lemma skips_seq:
  assumes a: "skips R s ret t" and b: "ret = 0 \<Longrightarrow> skips Q t ret' u" and c: "ret \<noteq> 0 \<Longrightarrow> ret' = ret \<and> u = t"
  shows "skips (\<lambda>x y. \<exists>r. R x r \<and> Q r y) s ret' u"
proof (cases "ret = 0")
  case False
  then show ?thesis
    using a c by (auto simp: skips_def)
next
  case True
  define p where "p = in_pos t"
  have t: "t = s\<lparr>in_pos := p\<rparr>" "p \<le> length (gz_in s)"
    using a by (simp_all add: skips_def p_def)
  have r: "R (drop (in_pos s) (gz_in s)) (drop p (gz_in s))" "\<And>r. R (drop (in_pos s) (gz_in s)) r \<Longrightarrow> r = drop p (gz_in s)"
    using a True by (simp_all add: skips_def p_def)
  then have eq: "(\<exists>r. R (drop (in_pos s) (gz_in s)) r \<and> Q r y) \<longleftrightarrow> Q (drop p (gz_in s)) y" for y
    by blast
  show ?thesis
    using b [OF True] t unfolding skips_def eq by auto
qed

lemma skips_in:
  assumes "skips R s ret s'"
  shows "gz_in s' = gz_in s" "in_pos s' \<le> length (gz_in s')" "s' = s\<lparr>in_pos := in_pos s'\<rparr>"
proof -
  show e: "s' = s\<lparr>in_pos := in_pos s'\<rparr>"
    using assms by (simp add: skips_def)
  show i: "gz_in s' = gz_in s"
    using arg_cong [OF e, of gz_in] by simp
  show "in_pos s' \<le> length (gz_in s')"
    using assms i by (simp add: skips_def)
qed

lemma fields_ok:
  assumes p: "in_pos s \<le> length (gz_in s)" and n: "length (gz_in s) \<le> 2 ^ 32 - 65540"
    and 1: "(if bit flg 2 then gz_skip_extra s else Some (0, s)) = Some (r1, s1)"
    and 2: "(if r1 = 0 \<and> bit flg 3 then gz_skip_zstring s1 else (r1, s1)) = (r2, s2)"
    and 3: "(if r2 = 0 \<and> bit flg 4 then gz_skip_zstring s2 else (r2, s2)) = (r3, s3)"
    and 4: "(if r3 = 0 \<and> bit flg 1 then gz_skip_hcrc s3 else (r3, s3)) = (r4, s4)"
  shows "skips (gzip_fields flg) s r4 s4"
proof -
  have a: "skips (optional (bit flg 2) extra_field) s r1 s1"
    by (rule skips_optional [OF p]) (use 1 skip_extra_ok [OF p n] in \<open>auto split: if_splits\<close>)
  note ai = skips_in [OF a]
  have b: "skips (\<lambda>x y. \<exists>r. optional (bit flg 2) extra_field x r \<and> optional (bit flg 3) zstring r y) s r2 s2"
    by (rule skips_seq [OF a]) (rule skips_optional [OF ai(2)], use 2 skip_zstring_ok [OF ai(2)] in \<open>auto split: if_splits\<close>)
  note bi = skips_in [OF b]
  have c: "skips (\<lambda>x y. \<exists>r. (\<exists>r'. optional (bit flg 2) extra_field x r' \<and> optional (bit flg 3) zstring r' r) \<and>
      optional (bit flg 4) zstring r y) s r3 s3"
    by (rule skips_seq [OF b]) (rule skips_optional [OF bi(2)], use 3 skip_zstring_ok [OF bi(2)] in \<open>auto split: if_splits\<close>)
  note ci = skips_in [OF c]
  have n3: "length (gz_in s3) \<le> 2 ^ 32 - 65540"
    using n ci(1) by simp
  have d: "skips (\<lambda>x y. \<exists>r. (\<exists>r'. (\<exists>r''. optional (bit flg 2) extra_field x r'' \<and> optional (bit flg 3) zstring r'' r') \<and>
      optional (bit flg 4) zstring r' r) \<and> optional (bit flg 1) hcrc r y) s r4 s4"
    by (rule skips_seq [OF c]) (rule skips_optional [OF ci(2)], use 4 skip_hcrc_ok [OF ci(2) n3] in \<open>auto split: if_splits\<close>)
  have "gzip_fields flg = (\<lambda>x y. \<exists>r. (\<exists>r'. (\<exists>r''. optional (bit flg 2) extra_field x r'' \<and> optional (bit flg 3) zstring r'' r') \<and>
      optional (bit flg 4) zstring r' r) \<and> optional (bit flg 1) hcrc r y)"
    unfolding fun_eq_iff gzip_fields_def by blast
  with d show ?thesis
    by simp
qed

lemma flg_bits:
  "(flg AND GZIP_FLG_FHCRC \<noteq> 0) = bit flg 1" "(flg AND GZIP_FLG_FEXTRA \<noteq> 0) = bit flg 2"
  "(flg AND GZIP_FLG_FNAME \<noteq> 0) = bit flg 3" "(flg AND GZIP_FLG_FCOMMENT \<noteq> 0) = bit flg 4"
  "(flg AND GZIP_FLG_RESERVED = 0) = (\<not> bit flg 5 \<and> \<not> bit flg 6 \<and> \<not> bit flg 7)"
proof -
  have e: "(flg AND 2 ^ n \<noteq> 0) = bit flg n" for n
    by (simp add: and_exp_eq_0_iff_not_bit)
  show "(flg AND GZIP_FLG_FHCRC \<noteq> 0) = bit flg 1" "(flg AND GZIP_FLG_FEXTRA \<noteq> 0) = bit flg 2"
    "(flg AND GZIP_FLG_FNAME \<noteq> 0) = bit flg 3" "(flg AND GZIP_FLG_FCOMMENT \<noteq> 0) = bit flg 4"
    using e [of 1] e [of 2] e [of 3] e [of 4]
    by (simp_all add: GZIP_FLG_FHCRC_def GZIP_FLG_FEXTRA_def GZIP_FLG_FNAME_def GZIP_FLG_FCOMMENT_def)
  have "GZIP_FLG_RESERVED = 2 ^ 5 OR 2 ^ 6 OR 2 ^ 7"
    by (simp add: GZIP_FLG_RESERVED_def)
  then have "flg AND GZIP_FLG_RESERVED = (flg AND 2 ^ 5) OR (flg AND 2 ^ 6) OR (flg AND 2 ^ 7)"
    by (auto simp only: bit_eq_iff bit_and_iff bit_or_iff)
  then show "(flg AND GZIP_FLG_RESERVED = 0) = (\<not> bit flg 5 \<and> \<not> bit flg 6 \<and> \<not> bit flg 7)"
    using e [of 5] e [of 6] e [of 7] by (simp only: or_eq_0_iff) blast
qed

lemma header_split:
  assumes "10 \<le> length inp"
  shows "gzip_header inp r \<longleftrightarrow>
    inp ! 0 = 0x1F \<and> inp ! 1 = 0x8B \<and> inp ! 2 = 8 \<and> \<not> bit (inp ! 3) 5 \<and> \<not> bit (inp ! 3) 6 \<and> \<not> bit (inp ! 3) 7 \<and>
    gzip_fields (inp ! 3) (drop 10 inp) r"
proof -
  have i: "inp = [inp ! 0, inp ! 1, inp ! 2, inp ! 3] @ take 6 (drop 4 inp) @ drop 10 inp"
    using assms drop_two [of 0 inp] drop_two [of 2 inp] append_take_drop_id [of 6 "drop 4 inp"] by simp
  have l: "length (take 6 (drop 4 inp)) = 6"
    using assms by simp
  show ?thesis
  proof
    assume "gzip_header inp r"
    then obtain flg info t where h: "inp = [0x1F, 0x8B, 8, flg] @ info @ t" "length info = 6"
      "\<not> bit flg 5 \<and> \<not> bit flg 6 \<and> \<not> bit flg 7" "gzip_fields flg t r"
      unfolding gzip_header_def by blast
    have "drop 10 inp = t" "inp ! 3 = flg" "inp ! 0 = 0x1F" "inp ! 1 = 0x8B" "inp ! 2 = 8"
      using h(1,2) by simp_all
    then show "inp ! 0 = 0x1F \<and> inp ! 1 = 0x8B \<and> inp ! 2 = 8 \<and> \<not> bit (inp ! 3) 5 \<and> \<not> bit (inp ! 3) 6 \<and>
        \<not> bit (inp ! 3) 7 \<and> gzip_fields (inp ! 3) (drop 10 inp) r"
      using h(3,4) by simp
  next
    assume h: "inp ! 0 = 0x1F \<and> inp ! 1 = 0x8B \<and> inp ! 2 = 8 \<and> \<not> bit (inp ! 3) 5 \<and> \<not> bit (inp ! 3) 6 \<and>
        \<not> bit (inp ! 3) 7 \<and> gzip_fields (inp ! 3) (drop 10 inp) r"
    then have "inp = [0x1F, 0x8B, 8, inp ! 3] @ take 6 (drop 4 inp) @ drop 10 inp"
      using i by simp
    then show "gzip_header inp r"
      unfolding gzip_header_def using h l by blast
  qed
qed

lemma parse_header_ok:
  assumes "in_pos s = 0" and n: "length (gz_in s) \<le> 2 ^ 32 - 65540"
  shows "\<exists>ret s'. gz_parse_header s = Some (ret, s') \<and> skips gzip_header s ret s'"
proof -
  let ?in = "gz_in s" and ?flg = "gz_in s ! 3"
  show ?thesis
  proof (cases "10 \<le> length ?in")
    case False
    have "\<not> gzip_header ?in r" for r
      using False by (auto simp: gzip_header_def)
    then have "skips gzip_header s WOLFBOOT_GZIP_E_TRUNCATED s"
      using assms(1) by (simp add: skips_def gz_errors)
    then show ?thesis
      using False by (simp add: gz_parse_header_def)
  next
    case True
    note hs = header_split [OF True]
    show ?thesis
    proof (cases "?in ! 0 = 0x1F \<and> ?in ! 1 = 0x8B \<and> ?in ! 2 = 8 \<and> ?flg AND GZIP_FLG_RESERVED = 0")
      case False
      then have "gz_parse_header s = Some (WOLFBOOT_GZIP_E_FORMAT, s)"
        using True by (auto simp: gz_parse_header_def Let_def)
      moreover have "\<not> gzip_header ?in r" for r
        unfolding hs using False flg_bits(5) [of ?flg] by blast
      then have "skips gzip_header s WOLFBOOT_GZIP_E_FORMAT s"
        using assms(1) by (simp add: skips_def gz_errors)
      ultimately show ?thesis
        by blast
    next
      case ok: True
      let ?s = "s\<lparr>in_pos := 10\<rparr>"
      have gh: "gzip_header ?in r \<longleftrightarrow> gzip_fields ?flg (drop 10 ?in) r" for r
        unfolding hs using ok flg_bits(5) [of ?flg] by blast
      obtain r1 s1 where 1: "(if bit ?flg 2 then gz_skip_extra ?s else Some (0, ?s)) = Some (r1, s1)"
        using skip_extra_ok [of ?s] True n by (cases "bit ?flg 2") auto
      obtain r2 s2 where 2: "(if r1 = 0 \<and> bit ?flg 3 then gz_skip_zstring s1 else (r1, s1)) = (r2, s2)"
        by fastforce
      obtain r3 s3 where 3: "(if r2 = 0 \<and> bit ?flg 4 then gz_skip_zstring s2 else (r2, s2)) = (r3, s3)"
        by fastforce
      obtain r4 s4 where 4: "(if r3 = 0 \<and> bit ?flg 1 then gz_skip_hcrc s3 else (r3, s3)) = (r4, s4)"
        by fastforce
      have "gz_parse_header s = Some (r4, s4)"
        unfolding gz_parse_header_def Let_def flg_bits(1-4) using True ok 1 2 3 4 by simp
      moreover have "skips (gzip_fields ?flg) ?s r4 s4"
        by (rule fields_ok [OF _ _ 1 2 3 4]) (use True n in simp_all)
      then have "skips gzip_header s r4 s4"
        using assms(1) by (cases "r4 = 0") (simp_all add: skips_def gh)
      ultimately show ?thesis
        by blast
    qed
  qed
qed

section \<open>The trailer\<close>

lemma align_bits:
  assumes "reader_ok 8 s"
  shows "drop (length (gz_bits s) mod 8) (gz_bits s) = bytes_bits (drop (in_pos s) (gz_in s))"
  using align_ok [OF assms] by (simp add: gz_bits_def same_out_def)

lemma bytes_bits_eq: "bytes_bits xs = bytes_bits ys \<longleftrightarrow> xs = ys"
proof
  assume h: "bytes_bits xs = bytes_bits ys"
  have "length (bytes_bits xs) = length (bytes_bits ys)"
    using h by (rule arg_cong)
  then have "length xs = length ys"
    by simp
  then show "xs = ys"
    using bytes_bits_inj [of xs "[]" ys "[]"] h by simp
qed simp

lemma rd32_gz_le32:
  assumes "p + 4 \<le> length xs"
  shows "rd32 xs p = Some (gz_le32 (drop p xs))"
proof -
  have e: "p + 2 + 1 = p + 3" "p + 2 + 2 = p + 4"
    by simp_all
  have "p + 2 \<le> length xs" "p + 2 + 2 \<le> length xs"
    using assms by simp_all
  note d = drop_two [OF this(1)] drop_two [OF this(2), unfolded e]
  have "gz_le32 (drop p xs) = unat (xs ! p) + 256 * (unat (xs ! (p + 1)) + 256 * (unat (xs ! (p + 2)) + 256 * unat (xs ! (p + 3))))"
    unfolding gz_le32_def d by (simp add: bits_val_append)
  then show ?thesis
    using assms by (simp add: rd32_def rd16_def rd_def e(1) add.commute [of 3 p] del: add_2_eq_Suc')
qed

lemma gz_le32_less: "gz_le32 bs < 2 ^ 32"
proof -
  have "gz_le32 bs < 2 ^ length (bytes_bits (take 4 bs))"
    unfolding gz_le32_def by (rule bits_val_less)
  also have "\<dots> \<le> 2 ^ 32"
    by (rule power_increasing) simp_all
  finally show ?thesis .
qed

lemma parse_trailer_ok:
  assumes r: "reader_ok 8 s" and n: "length (gz_in s) \<le> 2 ^ 32 - 65540"
  shows "\<exists>ret s'. gz_parse_trailer s crc len = Some (ret, s') \<and> out_pos s' = out_pos s \<and> gz_out s' = gz_out s \<and> ret \<le> 0 \<and>
    (ret = 0 \<longleftrightarrow> (\<exists>tr. drop (length (gz_bits s) mod 8) (gz_bits s) = bytes_bits tr \<and>
       8 \<le> length tr \<and> of_nat (gz_le32 tr) = crc \<and> gz_le32 (drop 4 tr) = len))"
proof -
  let ?p = "in_pos s" and ?in = "gz_in s"
  let ?a = "(gz_align_byte s)\<lparr>bit_buf := 0, bit_count := 0\<rparr>"
  have a: "in_pos ?a = ?p" "gz_in ?a = ?in" "out_pos ?a = out_pos s" "gz_out ?a = gz_out s"
    using align_ok(3,4) [OF r] by (simp_all add: same_out_def)
  have p: "?p \<le> length ?in"
    using r by (simp add: reader_ok_def)
  have u: "u32 (?p + 8) = ?p + 8"
    using p n by (simp add: u32_def)
  have tr: "(\<exists>tr. drop (length (gz_bits s) mod 8) (gz_bits s) = bytes_bits tr \<and> 8 \<le> length tr \<and> of_nat (gz_le32 tr) = crc \<and>
      gz_le32 (drop 4 tr) = len) \<longleftrightarrow>
      ?p + 8 \<le> length ?in \<and> of_nat (gz_le32 (drop ?p ?in)) = crc \<and> gz_le32 (drop (?p + 4) ?in) = len"
    unfolding align_bits [OF r] bytes_bits_eq using p by (auto simp: add.commute)
  show ?thesis
    unfolding tr
  proof (cases "?p + 8 \<le> length ?in")
    case False
    then have "gz_parse_trailer s crc len = Some (WOLFBOOT_GZIP_E_TRUNCATED, ?a)"
      using a u by (simp add: gz_parse_trailer_def Let_def)
    then show "\<exists>ret s'. gz_parse_trailer s crc len = Some (ret, s') \<and> out_pos s' = out_pos s \<and> gz_out s' = gz_out s \<and> ret \<le> 0 \<and>
        (ret = 0 \<longleftrightarrow> ?p + 8 \<le> length ?in \<and> of_nat (gz_le32 (drop ?p ?in)) = crc \<and> gz_le32 (drop (?p + 4) ?in) = len)"
      using a False by (simp add: gz_errors)
  next
    case True
    have "rd32 ?in ?p = Some (gz_le32 (drop ?p ?in))" "rd32 ?in (?p + 4) = Some (gz_le32 (drop (?p + 4) ?in))"
      using True by (simp_all add: rd32_gz_le32)
    then have "gz_parse_trailer s crc len =
        Some (if of_nat (gz_le32 (drop ?p ?in)) \<noteq> crc then WOLFBOOT_GZIP_E_CRC32
              else if gz_le32 (drop (?p + 4) ?in) \<noteq> len then WOLFBOOT_GZIP_E_ISIZE else 0, ?a\<lparr>in_pos := ?p + 8\<rparr>)"
      using a u True by (simp add: gz_parse_trailer_def Let_def)
    then show "\<exists>ret s'. gz_parse_trailer s crc len = Some (ret, s') \<and> out_pos s' = out_pos s \<and> gz_out s' = gz_out s \<and> ret \<le> 0 \<and>
        (ret = 0 \<longleftrightarrow> ?p + 8 \<le> length ?in \<and> of_nat (gz_le32 (drop ?p ?in)) = crc \<and> gz_le32 (drop (?p + 4) ?in) = len)"
      using a True by (simp add: gz_errors)
  qed
qed

section \<open>The whole stream\<close>

lemma gunzip_ok:
  assumes n: "length inp \<le> 2 ^ 32 - 65540"
  shows "\<exists>ret k out'. wolfBoot_gunzip (Some inp) (Some out0) True = Some (ret, Some (k, out')) \<and>
    k \<le> length out0 \<and> length out' = length out0 \<and> drop k out' = drop k out0 \<and> ret \<le> 0 \<and>
    (ret = 0 \<longrightarrow> gzip_member inp (take k out') \<and> (\<forall>xs. gzip_member inp xs \<longrightarrow> xs = take k out')) \<and>
    (ret \<noteq> 0 \<longrightarrow> (\<forall>xs. gzip_member inp xs \<longrightarrow> length out0 < length xs))"
proof -
  let ?s = "\<lparr>gz_in = inp, in_pos = 0, bit_buf = 0, bit_count = 0, gz_out = out0, out_pos = 0, gz_crc32 = 0xFFFFFFFF\<rparr>"
  obtain r1 s1 where h: "gz_parse_header ?s = Some (r1, s1)" "skips gzip_header ?s r1 s1"
    using parse_header_ok [of ?s] n by auto
  define p where "p = in_pos s1"
  have s1: "s1 = ?s\<lparr>in_pos := p\<rparr>" "p \<le> length inp"
    using skips_in(2,3) [OF h(2)] skips_in(1) [OF h(2)] by (simp_all add: p_def)
  show ?thesis
  proof (cases "r1 = 0")
    case False
    have "wolfBoot_gunzip (Some inp) (Some out0) True = Some (r1, Some (0, out0))"
      using h(1) False s1(1) by (simp add: wolfBoot_gunzip_def)
    moreover have "r1 < 0" "\<not> gzip_member inp xs" for xs
      using h(2) False by (auto simp: skips_def gzip_member_def)
    ultimately show ?thesis
      using False by simp
  next
    case z1: True
    have hd: "gzip_header inp r \<longleftrightarrow> r = drop p inp" for r
      using h(2) z1 by (auto simp: skips_def p_def)
    have r1: "reader_ok 8 s1" "out_state out0 [] s1" "length (gz_in s1) \<le> 2 ^ 32 - 65540" "gz_bits s1 = bytes_bits (drop p inp)"
      using s1 n by (simp_all add: reader_ok_def out_state_def gz_bits_def)
    note m = inflate_ok [OF r1(1-3)]
    obtain r2 s2 where d: "gz_inflate s1 = Some (r2, s2)"
      using m by (auto simp: meets_def split: option.splits)
    note m = m [unfolded d r1(4)]
    show ?thesis
    proof (cases "r2 = 0")
      case False
      obtain xs where e: "out_state out0 xs s2" "r2 < 0" "\<forall>b x. deflate (bytes_bits (drop p inp)) [] b x \<longrightarrow> length out0 < length x"
        using meets_errE [OF m False] by metis
      have "wolfBoot_gunzip (Some inp) (Some out0) True = Some (r2, Some (out_pos s2, gz_out s2))"
        using h(1) z1 d False by (simp add: wolfBoot_gunzip_def)
      moreover have "\<forall>xs. gzip_member inp xs \<longrightarrow> length out0 < length xs"
        using e(3) by (auto simp: gzip_member_def hd)
      ultimately show ?thesis
        using e(1,2) False by (simp add: out_state_def)
    next
      case z2: True
      obtain xs where e: "gz_in s2 = gz_in s1" "out_state out0 xs s2" "reader_ok 8 s2" "deflate (bytes_bits (drop p inp)) [] (gz_bits s2) xs"
        "\<forall>b x. deflate (bytes_bits (drop p inp)) [] b x \<longrightarrow> b = gz_bits s2 \<and> x = xs"
        using meets_okE [OF m [unfolded z2]] by metis
      let ?u = "s2\<lparr>gz_crc32 := gz_crc32 s2 XOR 0xFFFFFFFF\<rparr>"
      have u: "reader_ok 8 ?u" "length (gz_in ?u) \<le> 2 ^ 32 - 65540" "gz_bits ?u = gz_bits s2"
        "gz_crc32 ?u = crc32 xs" "out_pos ?u = length xs"
        using e(1-3) s1(1) n by (simp_all add: reader_ok_def gz_bits_def out_state_def crc32_def)
      obtain r3 s3 where t: "gz_parse_trailer ?u (crc32 xs) (length xs) = Some (r3, s3)" "out_pos s3 = out_pos ?u" "gz_out s3 = gz_out ?u" "r3 \<le> 0"
        "r3 = 0 \<longleftrightarrow> (\<exists>tr. drop (length (gz_bits ?u) mod 8) (gz_bits ?u) = bytes_bits tr \<and>
          8 \<le> length tr \<and> of_nat (gz_le32 tr) = crc32 xs \<and> gz_le32 (drop 4 tr) = length xs)"
        using parse_trailer_ok [OF u(1,2)] by blast
      have g: "wolfBoot_gunzip (Some inp) (Some out0) True = Some (r3, Some (length xs, gz_out s2))"
        using h(1) z1 d z2 t(1-3) u(4,5) by (simp add: wolfBoot_gunzip_def Let_def)
      have mem: "gzip_member inp x \<longleftrightarrow> x = xs \<and> r3 = 0" for x
        unfolding gzip_member_def hd t(5) u(3) gzip_trailer_def using e(4,5) by blast
      have o: "gz_out s2 = xs @ drop (length xs) out0" "length xs \<le> length out0"
        using e(2) by (simp_all add: out_state_def)
      then show ?thesis
        using g t(4) by (simp add: mem)
    qed
  qed
qed

section \<open>A stream with one stored block\<close>

fun le_bytes :: "nat \<Rightarrow> nat \<Rightarrow> byte list" where
  "le_bytes 0 n = []"
| "le_bytes (Suc k) n = of_nat n # le_bytes k (n div 256)"

definition gzip_stored :: "byte list \<Rightarrow> byte list" where
  "gzip_stored xs =
     [0x1F, 0x8B, 8, 0] @ replicate 6 0 @
     [1] @ le_bytes 2 (length xs) @ le_bytes 2 (length xs XOR 0xFFFF) @ xs @
     le_bytes 4 (unat (crc32 xs)) @ le_bytes 4 (length xs)"

lemma length_le_bytes [simp]: "length (le_bytes k n) = k"
  by (induction k arbitrary: n) simp_all

lemma bits_val_le_bytes: "bits_val (bytes_bits (le_bytes k n)) = n mod 256 ^ k"
proof (induction k arbitrary: n)
  case (Suc k)
  have "bits_val (bytes_bits (le_bytes (Suc k) n)) = n mod 256 + 256 * (n div 256 mod 256 ^ k)"
    using Suc by (simp add: bits_val_append unat_of_nat)
  also have "\<dots> = n mod 256 ^ Suc k"
    by (simp add: mod_mult2_eq add.commute)
  finally show ?case .
qed simp

lemma field_le16: "n < 65536 \<Longrightarrow> field 16 (bytes_bits (le_bytes 2 n) @ r) n r"
  using bits_val_le_bytes [of 2 n] by (simp add: field_def)

lemma deflate_stored:
  assumes "length xs < 65536"
  shows "deflate (bytes_bits ([1] @ le_bytes 2 (length xs) @ le_bytes 2 (length xs XOR 0xFFFF) @ xs @ tr)) [] (bytes_bits tr) xs"
proof -
  let ?r = "le_bytes 2 (length xs) @ le_bytes 2 (length xs XOR 0xFFFF) @ xs @ tr"
  have one: "byte_bits 1 = True # False # False # replicate 5 False"
    by (simp add: byte_bits_def upt_rec, simp add: numeral_eq_Suc)
  have x: "length xs XOR 0xFFFF < 65536"
  proof -
    have "take_bit 16 (length xs XOR 0xFFFF) = length xs XOR 0xFFFF"
      using assms by (simp add: take_bit_nat_eq_self)
    then show ?thesis
      using take_bit_nat_less_exp [of 16 "length xs XOR 0xFFFF"] by simp
  qed
  have l: "length (replicate 5 False @ bytes_bits ?r) mod 8 = 5"
    by simp presburger
  show ?thesis
  proof (rule deflate_last)
    show "field 1 (bytes_bits ([1] @ ?r)) 1 (False # False # replicate 5 False @ bytes_bits ?r)"
      by (simp add: one field_def)
    show "field 2 (False # False # replicate 5 False @ bytes_bits ?r) 0 (replicate 5 False @ bytes_bits ?r)"
      by (simp add: field_def numeral_2_eq_2)
    have "stored (replicate 5 False @ bytes_bits ?r) [] (bytes_bits tr) xs"
      unfolding stored_def l
      using field_le16 [OF assms, of "bytes_bits (le_bytes 2 (length xs XOR 0xFFFF) @ xs @ tr)"]
        field_le16 [OF x, of "bytes_bits (xs @ tr)"]
      by (auto simp: drop_append)
    then show "block 0 (replicate 5 False @ bytes_bits ?r) [] (bytes_bits tr) xs"
      by (simp add: block_def)
  qed
qed

lemma member_stored:
  assumes "length xs < 65536"
  shows "gzip_member (gzip_stored xs) xs"
proof -
  let ?tr = "le_bytes 4 (unat (crc32 xs)) @ le_bytes 4 (length xs)"
  have "gzip_header (gzip_stored xs) ([1] @ le_bytes 2 (length xs) @ le_bytes 2 (length xs XOR 0xFFFF) @ xs @ ?tr)"
    unfolding gzip_header_def gzip_stored_def
    by (intro exI [of _ 0] exI [of _ "replicate 6 0"] exI) (simp add: gzip_fields_def optional_def)
  moreover have "gzip_trailer ?tr xs"
  proof -
    have "unat (crc32 xs) < 2 ^ 32"
      using unsigned_less [of "crc32 xs", where ?'a = nat] by simp
    then show ?thesis
      using assms by (simp add: gzip_trailer_def gz_le32_def bits_val_le_bytes)
  qed
  ultimately show ?thesis
    unfolding gzip_member_def using deflate_stored [OF assms, of ?tr]
    by (intro exI conjI) auto
qed

section \<open>Properties\<close>

text \<open>
  C3. Decompression refines the file formats: \<open>wolfBoot_gunzip\<close> succeeds exactly on the members of
  RFC 1952 whose DEFLATE data (RFC 1951), checksum and size are right and fit the output buffer,
  and the buffer then starts with the one decoding of the input.
\<close>

theorem gunzip_refines:
  assumes "length inp \<le> 2 ^ 32 - 65540"
  shows "\<exists>ret k out'. wolfBoot_gunzip (Some inp) (Some out0) True = Some (ret, Some (k, out')) \<and>
    (ret = 0 \<longleftrightarrow> (\<exists>xs. gzip_member inp xs \<and> length xs \<le> length out0)) \<and>
    (ret = 0 \<longrightarrow> (\<forall>xs. gzip_member inp xs \<longleftrightarrow> xs = take k out'))"
proof -
  obtain ret k out' where g: "wolfBoot_gunzip (Some inp) (Some out0) True = Some (ret, Some (k, out'))"
    "k \<le> length out0" "length out' = length out0"
    "ret = 0 \<longrightarrow> gzip_member inp (take k out') \<and> (\<forall>xs. gzip_member inp xs \<longrightarrow> xs = take k out')"
    "ret \<noteq> 0 \<longrightarrow> (\<forall>xs. gzip_member inp xs \<longrightarrow> length out0 < length xs)"
    using gunzip_ok [OF assms, of out0] by blast
  have "length (take k out') \<le> length out0"
    using g(2,3) by simp
  then have "ret = 0 \<longleftrightarrow> (\<exists>xs. gzip_member inp xs \<and> length xs \<le> length out0)"
    using g(4,5) by (meson not_le)
  moreover have "ret = 0 \<longrightarrow> (\<forall>xs. gzip_member inp xs \<longleftrightarrow> xs = take k out')"
    using g(4) by blast
  ultimately show ?thesis
    using g(1) by blast
qed

theorem gunzip_refines_witness:
  "length (gzip_stored [0x77, 0x62]) \<le> 2 ^ 32 - 65540 \<and>
   (\<exists>ret k out'. wolfBoot_gunzip (Some (gzip_stored [0x77, 0x62])) (Some [0, 0, 0]) True = Some (ret, Some (k, out')) \<and>
     (ret = 0 \<longleftrightarrow> (\<exists>xs. gzip_member (gzip_stored [0x77, 0x62]) xs \<and> length xs \<le> length ([0, 0, 0] :: byte list))) \<and>
     (ret = 0 \<longrightarrow> (\<forall>xs. gzip_member (gzip_stored [0x77, 0x62]) xs \<longleftrightarrow> xs = take k out')))"
proof -
  have l: "length (gzip_stored [0x77, 0x62]) \<le> 2 ^ 32 - 65540"
    by (simp add: gzip_stored_def)
  show ?thesis
    by (rule conjI [OF l gunzip_refines [OF l]])
qed

text \<open>
  C13. Decompression is memory safe on every input, well formed or not: \<open>wolfBoot_gunzip\<close> returns,
  reads nothing outside the input, never uses an uninitialised table entry, writes nothing outside
  the output buffer, reports a length within it and leaves the bytes behind that length alone.
\<close>

theorem gunzip_safe:
  assumes "length inp \<le> 2 ^ 32 - 65540"
  shows "\<exists>ret k out'. wolfBoot_gunzip (Some inp) (Some out0) True = Some (ret, Some (k, out')) \<and> ret \<le> 0 \<and>
    k \<le> length out0 \<and> length out' = length out0 \<and> drop k out' = drop k out0"
  using gunzip_ok [OF assms, of out0] by blast

theorem gunzip_safe_witness:
  "length ([0x1F, 0x8B, 8, 0, 0, 0, 0, 0, 0, 0, 5] :: byte list) \<le> 2 ^ 32 - 65540 \<and>
   (\<exists>ret k out'. wolfBoot_gunzip (Some [0x1F, 0x8B, 8, 0, 0, 0, 0, 0, 0, 0, 5]) (Some [7, 8]) True = Some (ret, Some (k, out')) \<and>
     ret \<le> 0 \<and> k \<le> length ([7, 8] :: byte list) \<and> length out' = length ([7, 8] :: byte list) \<and> drop k out' = drop k [7, 8])"
proof -
  have l: "length ([0x1F, 0x8B, 8, 0, 0, 0, 0, 0, 0, 0, 5] :: byte list) \<le> 2 ^ 32 - 65540"
    by simp
  show ?thesis
    by (rule conjI [OF l gunzip_safe [OF l]])
qed

text \<open>
  C38. Round trip: a stream with the data in one stored block comes back as the data, whatever
  follows it in the output buffer.
\<close>

theorem gunzip_roundtrip:
  assumes "length xs < 65536" "length xs \<le> length out0"
  shows "wolfBoot_gunzip (Some (gzip_stored xs)) (Some out0) True = Some (0, Some (length xs, xs @ drop (length xs) out0))"
proof -
  have "length (gzip_stored xs) \<le> 2 ^ 32 - 65540"
    using assms(1) by (simp add: gzip_stored_def)
  then obtain ret k out' where g: "wolfBoot_gunzip (Some (gzip_stored xs)) (Some out0) True = Some (ret, Some (k, out'))"
    "k \<le> length out0" "length out' = length out0" "drop k out' = drop k out0"
    "ret = 0 \<longrightarrow> gzip_member (gzip_stored xs) (take k out') \<and> (\<forall>ys. gzip_member (gzip_stored xs) ys \<longrightarrow> ys = take k out')"
    "ret \<noteq> 0 \<longrightarrow> (\<forall>ys. gzip_member (gzip_stored xs) ys \<longrightarrow> length out0 < length ys)"
    using gunzip_ok [of "gzip_stored xs" out0] by blast
  have "ret = 0" "xs = take k out'"
    using g(5,6) member_stored [OF assms(1)] assms(2) by (meson not_less)+
  then show ?thesis
    using g(1-4) append_take_drop_id [of k out'] by simp
qed

theorem gunzip_roundtrip_witness:
  "length ([0x77, 0x62] :: byte list) < 65536 \<and> length ([0x77, 0x62] :: byte list) \<le> length ([0, 0, 9] :: byte list) \<and>
   wolfBoot_gunzip (Some (gzip_stored [0x77, 0x62])) (Some [0, 0, 9]) True = Some (0, Some (2, [0x77, 0x62, 9]))"
  using gunzip_roundtrip [of "[0x77, 0x62]" "[0, 0, 9]"] by simp

text \<open>
  C39. The Huffman tables implement the canonical code: \<open>gz_huff_build\<close> accepts exactly the code
  lengths that are not over-subscribed, and \<open>gz_huff_decode\<close> then returns a symbol exactly when its
  canonical code is next in the input, and consumes that code.
\<close>

theorem huff_canonical:
  assumes "n \<le> length lengths" "n \<le> 288"
  shows "\<exists>ret h. gz_huff_build lengths n = Some (ret, h) \<and>
    (if lens_ok (take n lengths)
     then ret = 0 \<and>
       (\<forall>s. reader_ok 8 s \<longrightarrow>
          (\<exists>c t. gz_huff_decode h s = Some (c, t) \<and>
             (\<forall>sm rest. huff_sym (take n lengths) (gz_bits s) sm rest \<longleftrightarrow> c = int sm \<and> rest = gz_bits t)))
     else ret = WOLFBOOT_GZIP_E_HUFFMAN)"
proof -
  obtain ret h where b: "gz_huff_build lengths n = Some (ret, h)"
    "if lens_ok (take n lengths) then ret = 0 \<and> huff_table (take n lengths) h else ret = WOLFBOOT_GZIP_E_HUFFMAN"
    using huff_build_ok [OF assms refl] by blast
  have "\<exists>c t. gz_huff_decode h s = Some (c, t) \<and>
      (\<forall>sm rest. huff_sym (take n lengths) (gz_bits s) sm rest \<longleftrightarrow> c = int sm \<and> rest = gz_bits t)"
    if ok: "lens_ok (take n lengths)" and r: "reader_ok 8 s" for s
  proof -
    have t: "huff_table (take n lengths) h" "\<forall>l\<in>set (take n lengths). l \<le> 15"
      using b(2) ok by (simp_all add: lens_ok_def)
    obtain c t where d: "gz_huff_decode h s = Some (c, t)"
      "reads (huff_sym (take n lengths) (gz_bits s)) s (min c 0) (nat c) t"
      using huff_decode_reads [OF t r] by blast
    show ?thesis
    proof (cases "c < 0")
      case True
      then have "\<not> huff_sym (take n lengths) (gz_bits s) sm rest" for sm rest
        using reads_errD(4) [OF d(2)] by simp
      with d(1) True show ?thesis
        by auto
    next
      case False
      then have h: "reads (huff_sym (take n lengths) (gz_bits s)) s 0 (nat c) t"
        using d(2) by simp
      have "huff_sym (take n lengths) (gz_bits s) sm rest \<longleftrightarrow> c = int sm \<and> rest = gz_bits t" for sm rest
        using reads_okD(3) [OF h] reads_okD(4,5) [OF h, of sm rest] False by auto
      with d(1) show ?thesis
        by blast
    qed
  qed
  then show ?thesis
    using b by (intro exI [of _ ret] exI [of _ h]) auto
qed

theorem huff_canonical_witness:
  "(3 :: nat) \<le> length [1, 2, 2 :: nat] \<and> (3 :: nat) \<le> 288 \<and>
   (\<exists>ret h. gz_huff_build [1, 2, 2] 3 = Some (ret, h) \<and>
     (if lens_ok (take 3 [1, 2, 2])
      then ret = 0 \<and>
        (\<forall>s. reader_ok 8 s \<longrightarrow>
           (\<exists>c t. gz_huff_decode h s = Some (c, t) \<and>
              (\<forall>sm rest. huff_sym (take 3 [1, 2, 2]) (gz_bits s) sm rest \<longleftrightarrow> c = int sm \<and> rest = gz_bits t)))
      else ret = WOLFBOOT_GZIP_E_HUFFMAN))"
proof -
  have l: "(3 :: nat) \<le> length [1, 2, 2 :: nat]" "(3 :: nat) \<le> 288"
    by simp_all
  show ?thesis
    by (rule conjI [OF l(1) conjI [OF l(2) huff_canonical [OF l]]])
qed

section \<open>Inputs near the end of the address range\<close>

text \<open>
  The positions are \<open>uint32_t\<close>, so \<open>in_pos + 4\<close> wraps around within the last four bytes of the
  range: the length check of a stored block then passes and its length field is read outside the
  input. This is why the properties bound the length of the input.
\<close>

lemma stored_check_wraps:
  assumes "reader_ok 8 s" "length (gz_in s) = 2 ^ 32 - 1" "in_pos s = 2 ^ 32 - 2"
  shows "gz_inflate_stored s = None"
  using align_ok(3,4) [OF assms(1)] assms(2,3)
  by (simp add: gz_inflate_stored_def Let_def u32_def rd16_def rd_def same_out_def)

end
