(* ===== verification/Ramboot.thy ===== *)
theory Ramboot
  imports Boot
begin

text \<open>
  Booting from RAM (\<open>src/update_ram.c\<close>): there is no swap. The partition with the higher version is
  verified, in RAM after a copy (\<open>WOLFBOOT_USE_RAMBOOT\<close>) or in flash, and started from RAM; when it
  fails, the other partition is tried.

  The build modelled has fixed partitions in memory-mapped flash, \<open>WOLFBOOT_DUALBOOT\<close>, a load
  address, and none of the options for ELF, FIT, device trees, U-Boot images, TPM and wolfHSM. RAM is a
  memory of its own; \<open>None\<close> is a panic or a loop that does not end.
\<close>

section \<open>Booting from RAM (\<open>src/update_ram.c\<close>)\<close>

record ram_cfg =
  WOLFBOOT_USE_RAMBOOT :: bool
  WOLFBOOT_LOAD_ADDRESS :: nat
  WOLFBOOT_RAMBOOT_MAX_SIZE :: "nat option"
  WOLFBOOT_ORIGIN :: nat
  wb_end :: nat

subsection \<open>The partition to try (\<open>src/libwolfboot.c\<close>)\<close>

definition wolfBoot_dualboot_candidate :: "cfg \<Rightarrow> 's hal \<Rightarrow> 's \<Rightarrow> nat option \<times> 's" where
  "wolfBoot_dualboot_candidate c H s =
     (let boot_v = wolfBoot_current_firmware_version c (flash_mem H s);
          update_v = wolfBoot_update_firmware_version c (flash_mem H s)
      in if boot_v = 0 \<and> update_v = 0 then (None, s)
         else
           (let candidate = (if boot_v = 0 then PART_UPDATE
                             else if 0 < boot_v \<and> 0 < update_v \<and> update_v > boot_v then PART_UPDATE
                             else PART_BOOT);
                fallback_possible = (0 < boot_v \<and> 0 < update_v);
                (p_state, s) = (if fallback_possible then wolfBoot_get_partition_state c H candidate s
                                else (None, s))
            in if p_state = Some IMG_STATE_TESTING then
                 (let candidate_v = (if candidate = PART_BOOT then boot_v else update_v);
                      fallback_v = (if candidate = PART_BOOT then update_v else boot_v)
                  in if \<not> ALLOW_DOWNGRADE c \<and> fallback_v < candidate_v then (Some candidate, s)
                     else (Some (candidate XOR 1), wolfBoot_erase_partition c H candidate s))
               else (Some candidate, s)))"

definition wolfBoot_fallback_is_possible :: "cfg \<Rightarrow> mem \<Rightarrow> bool" where
  "wolfBoot_fallback_is_possible c m =
     (\<not> (wolfBoot_current_firmware_version c m = 0 \<or> wolfBoot_update_firmware_version c m = 0))"

subsection \<open>Loading an image\<close>

definition ramboot_region_overlap :: "nat \<Rightarrow> nat \<Rightarrow> nat \<Rightarrow> nat \<Rightarrow> bool" where
  "ramboot_region_overlap img_lo img_hi wb_lo wb_hi =
     (if img_hi < img_lo then True
      else if wb_lo = 0 then img_lo < wb_hi
      else img_lo < wb_hi \<and> img_hi > wb_lo)"

text \<open>
  The version is assigned to an \<open>int\<close>, so that versions from \<open>2 ^ 31\<close> on count as negative.
  \<open>memcpy\<close> reads from the mapped flash \<open>m\<close> and writes to \<open>ram\<close>.
\<close>

definition wolfBoot_ramboot :: "cfg \<Rightarrow> ram_cfg \<Rightarrow> mem \<Rightarrow> nat \<Rightarrow> nat \<Rightarrow> mem \<Rightarrow> int \<times> mem" where
  "wolfBoot_ramboot c r m src dst ram =
     (let ram = mwrite ram dst (mread m src (IMAGE_HEADER_SIZE c));
          version = wolfBoot_get_blob_version c ram dst
      in if version = 0 \<or> version \<ge> 2 ^ 31 then (-1, ram)
         else
           (let img_size = wolfBoot_image_size ram dst
            in if (case WOLFBOOT_RAMBOOT_MAX_SIZE r of
                     Some max_size \<Rightarrow> img_size > max_size
                   | None \<Rightarrow> WOLFBOOT_PARTITION_SIZE c \<le> IMAGE_HEADER_SIZE c
                            \<or> img_size > WOLFBOOT_PARTITION_SIZE c - IMAGE_HEADER_SIZE c) then (-1, ram)
               else if ramboot_region_overlap dst (u32 (dst + IMAGE_HEADER_SIZE c + img_size))
                         (WOLFBOOT_ORIGIN r) (wb_end r) then (-1, ram)
               else (0, mwrite ram (dst + IMAGE_HEADER_SIZE c)
                          (mread m (src + IMAGE_HEADER_SIZE c) img_size))))"

subsection \<open>The boot decision\<close>

text \<open>One attempt: load, open and verify the image of a partition.\<close>

definition ram_try ::
  "crypto \<Rightarrow> cfg \<Rightarrow> ram_cfg \<Rightarrow> mem \<Rightarrow> nat \<Rightarrow> wolfBoot_image \<Rightarrow> mem \<Rightarrow> (int \<times> wolfBoot_image \<times> mem) option" where
  "ram_try K c r m active os_image ram =
     (let source_address = wolfBoot_get_image_from_part c active;
          load_address = WOLFBOOT_LOAD_ADDRESS r - IMAGE_HEADER_SIZE c;
          (ret, ram) = (if WOLFBOOT_USE_RAMBOOT r then wolfBoot_ramboot c r m source_address load_address ram
                        else (0, ram))
      in if ret \<noteq> 0 then Some (ret, os_image, ram)
         else
           (let (ret, os_image) =
                  (if WOLFBOOT_USE_RAMBOOT r then wolfBoot_open_image_address c ram os_image load_address
                   else wolfBoot_open_image c m active);
                mapped = (if WOLFBOOT_USE_RAMBOOT r then ram else m)
            in if ret < 0 then Some (ret, os_image, ram)
               else
                 (case wolfBoot_verify_integrity K c mapped os_image of
                    None \<Rightarrow> None
                  | Some (ret, os_image) \<Rightarrow>
                      if ret < 0 then Some (ret, os_image, ram)
                      else
                        (case wolfBoot_verify_authenticity K c mapped os_image of
                           None \<Rightarrow> None
                         | Some (ret, os_image) \<Rightarrow> Some (ret, os_image, ram)))))"

partial_function (option) ram_loop ::
  "crypto \<Rightarrow> cfg \<Rightarrow> ram_cfg \<Rightarrow> 's hal \<Rightarrow> nat \<Rightarrow> nat \<Rightarrow> nat option \<Rightarrow> wolfBoot_image \<Rightarrow> 's \<Rightarrow> mem \<Rightarrow>
     (nat \<times> wolfBoot_image \<times> 's \<times> mem) option" where
  "ram_loop K c r H boot_v update_v active os_image s ram =
     (let (active, s) = (case active of None \<Rightarrow> wolfBoot_dualboot_candidate c H s | Some a \<Rightarrow> (Some a, s))
      in case active of
           None \<Rightarrow> None
         | Some active \<Rightarrow>
             (let max_v = (if boot_v > update_v then boot_v else update_v);
                  active_v = (if active = PART_UPDATE then update_v else boot_v)
              in if \<not> ALLOW_DOWNGRADE c \<and> max_v > 0 \<and> active_v < max_v then None
                 else
                   (case ram_try K c r (flash_mem H s) active os_image ram of
                      None \<Rightarrow> None
                    | Some (ret, os_image, ram) \<Rightarrow>
                        if \<not> ret < 0 then Some (active, os_image, s, ram)
                        else if \<not> wolfBoot_fallback_is_possible c (flash_mem H s) then None
                        else ram_loop K c r H boot_v update_v (Some (active XOR 1)) os_image s ram)))"

text \<open>\<open>wolfBoot_start\<close> of this file: the address it jumps to, the device and RAM at that moment.\<close>

definition wolfBoot_start_ram ::
  "crypto \<Rightarrow> cfg \<Rightarrow> ram_cfg \<Rightarrow> 's hal \<Rightarrow> 's \<Rightarrow> mem \<Rightarrow> (nat \<times> 's \<times> mem) option" where
  "wolfBoot_start_ram K c r H s ram =
     (case ram_loop K c r H (wolfBoot_current_firmware_version c (flash_mem H s))
             (wolfBoot_update_firmware_version c (flash_mem H s)) None image_zero s ram of
        None \<Rightarrow> None
      | Some (active, os_image, s, ram) \<Rightarrow>
          (let load_address = WOLFBOOT_LOAD_ADDRESS r;
               (p_state, s) = wolfBoot_get_partition_state c H active s;
               s = (if p_state = Some IMG_STATE_UPDATING then
                      hal_flash_lock H (snd (wolfBoot_set_partition_state c H active IMG_STATE_TESTING
                        (hal_flash_unlock H s)))
                    else s);
               ram = (if WOLFBOOT_USE_RAMBOOT r then ram
                      else mwrite ram load_address (mread (flash_mem H s) (fw_base os_image) (fw_size os_image)))
           in if hal_flash_protect < 0 then None
              else if \<not> (hdr_ok os_image \<and> sha_ok os_image \<and> signature_ok os_image) then None
              else Some (load_address, s, ram)))"

subsection \<open>Verification failures leave no trace\<close>

lemma integrity_keeps:
  "wolfBoot_verify_integrity K c m img = Some (ret, img') \<Longrightarrow>
     signature_ok img' = signature_ok img \<and> hdr_ok img' = hdr_ok img \<and> img_hdr img' = img_hdr img"
  by (auto simp: wolfBoot_verify_integrity_def Let_def split: prod.splits option.splits if_splits)

lemma authenticity_keeps:
  "wolfBoot_verify_authenticity K c m img = Some (ret, img') \<Longrightarrow>
     hdr_ok img' = hdr_ok img \<and> img_hdr img' = img_hdr img \<and> (ret < 0 \<longrightarrow> signature_ok img' = signature_ok img \<or> \<not> signature_ok img')"
  by (auto simp: wolfBoot_verify_authenticity_def Let_def verify_signature_keeps dest!: integrity_keeps
      split: prod.splits option.splits if_splits)

subsection \<open>What is booted is authentic\<close>

text \<open>The load address leaves room for the header and is not the null pointer.\<close>

definition ram_cfg_ok :: "cfg \<Rightarrow> ram_cfg \<Rightarrow> bool" where
  "ram_cfg_ok c r \<longleftrightarrow> IMAGE_HEADER_SIZE c < WOLFBOOT_LOAD_ADDRESS r"

text \<open>
  The image structure between two attempts: nothing is marked as signed, and a header pointer
  that was set is the one of the load address.
\<close>

definition not_verified :: "cfg \<Rightarrow> ram_cfg \<Rightarrow> wolfBoot_image \<Rightarrow> bool" where
  "not_verified c r img \<longleftrightarrow> \<not> signature_ok img \<and>
     (hdr_ok img \<longrightarrow> img_hdr img = WOLFBOOT_LOAD_ADDRESS r - IMAGE_HEADER_SIZE c)"

definition ram_authentic :: "crypto \<Rightarrow> cfg \<Rightarrow> ram_cfg \<Rightarrow> mem \<Rightarrow> wolfBoot_image \<Rightarrow> bool" where
  "ram_authentic K c r ram img \<longleftrightarrow>
     hdr_ok img \<and> sha_ok img \<and> signature_ok img \<and> img_hdr img = WOLFBOOT_LOAD_ADDRESS r - IMAGE_HEADER_SIZE c \<and>
     fw_base img = WOLFBOOT_LOAD_ADDRESS r \<and> fw_size img = wolfBoot_image_size ram (img_hdr img) \<and>
     le32_at ram (img_hdr img) = WOLFBOOT_MAGIC \<and> image_authentic K c ram img"

lemma ram_try_ok:
  assumes "cfg_ok c" "ram_cfg_ok c r" "\<And>x. length (wc_Sha256 K x) = 32" "WOLFBOOT_USE_RAMBOOT r" "not_verified c r img"
  shows "\<exists>ret img' ram'. ram_try K c r m active img ram = Some (ret, img', ram') \<and>
    (if ret < 0 then not_verified c r img' else ram_authentic K c r ram' img')"
proof -
  let ?l = "WOLFBOOT_LOAD_ADDRESS r - IMAGE_HEADER_SIZE c"
  obtain ret ram' where l: "wolfBoot_ramboot c r m (wolfBoot_get_image_from_part c active) ?l ram = (ret, ram')"
    by fastforce
  have ret: "ret = 0 \<or> ret = -1"
    using l by (auto simp: wolfBoot_ramboot_def Let_def split: if_splits)
  show ?thesis
  proof (cases "ret = 0")
    case False
    then show ?thesis
      using l ret assms(4,5) by (simp add: ram_try_def)
  next
    case True
    obtain ret1 img1 where o: "wolfBoot_open_image_address c ram' img ?l = (ret1, img1)"
      by fastforce
    have sz: "WOLFBOOT_PARTITION_SIZE c < 2147483648"
      using cfg_okD [OF assms(1)] by simp
    have img1: "\<not> signature_ok img1" "not_verified c r img1" "ret1 = 0 \<or> ret1 = -1"
      "ret1 = 0 \<longrightarrow> hdr_ok img1 \<and> img_hdr img1 = ?l \<and> fw_base img1 = WOLFBOOT_LOAD_ADDRESS r \<and>
         fw_size img1 = wolfBoot_image_size ram' ?l \<and> le32_at ram' ?l = WOLFBOOT_MAGIC \<and> fw_size img1 < 2147483648"
      using o assms(2,5) sz
      by (auto simp: wolfBoot_open_image_address_def Let_def not_verified_def ram_cfg_ok_def split: if_splits)
    note step = ram_try_def l o
    show ?thesis
    proof (cases "ret1 = 0")
      case False
      then show ?thesis
        using img1(2,3) True assms(4) by (simp add: step)
    next
      case z: True
      have i: "fw_base img1 \<noteq> 0" "fw_size img1 < 2147483648"
        using img1(4) z assms(2) by (simp_all add: ram_cfg_ok_def)
      obtain r1 img2 where v: "wolfBoot_verify_integrity K c ram' img1 = Some (r1, img2)" "r1 = 0 \<or> r1 = -1" "hdr_ok img2 = hdr_ok img1"
        "r1 = 0 \<longrightarrow> (\<exists>r2 img3. wolfBoot_verify_authenticity K c ram' img2 = Some (r2, img3)
           \<and> (r2 = 0 \<or> r2 < 0) \<and> (r2 = 0 \<longleftrightarrow> image_authentic K c ram' img1)
           \<and> (r2 = 0 \<longrightarrow> sha_ok img3 \<and> signature_ok img3)
           \<and> hdr_ok img3 = hdr_ok img1 \<and> fw_base img3 = fw_base img1 \<and> fw_size img3 = fw_size img1
           \<and> img_hdr img3 = img_hdr img1)"
        using integrity_then_authenticity [OF i assms(3) img1(1), of c ram'] by blast
      note k = integrity_keeps [OF v(1)]
      show ?thesis
      proof (cases "r1 = 0")
        case False
        then show ?thesis
          using v(1,2) k img1(2) True z assms(4) by (simp add: step not_verified_def)
      next
        case r1: True
        then obtain r2 img3 where a: "wolfBoot_verify_authenticity K c ram' img2 = Some (r2, img3)" "r2 = 0 \<or> r2 < 0"
          "r2 = 0 \<longleftrightarrow> image_authentic K c ram' img1" "r2 = 0 \<longrightarrow> sha_ok img3 \<and> signature_ok img3"
          "hdr_ok img3 = hdr_ok img1" "fw_base img3 = fw_base img1" "fw_size img3 = fw_size img1" "img_hdr img3 = img_hdr img1"
          using v(4) by blast
        have e: "ram_try K c r m active img ram = Some (r2, img3, ram')"
          using v(1) r1 a(1) True z assms(4) by (simp add: step)
        show ?thesis
        proof (cases "r2 = 0")
          case True
          have "image_authentic K c ram' img3"
            using a(3) True authentic_cong [OF a(8,6,7), of K c ram'] by simp
          then show ?thesis
            using e True a img1(4) z by (simp add: ram_authentic_def)
        next
          case False
          then show ?thesis
            using e a(2,5,8) authenticity_keeps [OF a(1)] k img1(1,2) by (auto simp: not_verified_def)
        qed
      qed
    qed
  qed
qed

text \<open>
  The loop boots what an attempt accepts: if every attempt keeps \<open>I\<close> when it fails and gives \<open>Q\<close>
  when it succeeds, the result of the loop satisfies \<open>Q\<close>.
\<close>

definition attempts ::
  "crypto \<Rightarrow> cfg \<Rightarrow> ram_cfg \<Rightarrow> (wolfBoot_image \<Rightarrow> bool) \<Rightarrow> (mem \<Rightarrow> nat \<Rightarrow> wolfBoot_image \<Rightarrow> mem \<Rightarrow> bool) \<Rightarrow> bool" where
  "attempts K c r I Q \<longleftrightarrow>
     (\<forall>m p img ram. I img \<and> (p = PART_BOOT \<or> p = PART_UPDATE) \<longrightarrow>
        (\<exists>ret img' ram'. ram_try K c r m p img ram = Some (ret, img', ram') \<and>
           (if ret < 0 then I img' else Q m p img' ram')))"

lemma candidate_part: "wolfBoot_dualboot_candidate c H s = (Some p, s') \<Longrightarrow> p = PART_BOOT \<or> p = PART_UPDATE"
  by (auto simp: wolfBoot_dualboot_candidate_def Let_def part_defs split: if_splits prod.splits)

lemma other_part: "p = PART_BOOT \<or> p = PART_UPDATE \<Longrightarrow> p XOR 1 = PART_BOOT \<or> p XOR 1 = PART_UPDATE"
  by (auto simp: part_defs)

lemma ram_loop_result:
  assumes "ram_loop K c r H bv uv active img s ram = Some res"
  shows "attempts K c r I Q \<and> I img \<and> (\<forall>p. active = Some p \<longrightarrow> p = PART_BOOT \<or> p = PART_UPDATE) \<longrightarrow>
    (case res of (p, img', s', ram') \<Rightarrow> (p = PART_BOOT \<or> p = PART_UPDATE) \<and> Q (flash_mem H s') p img' ram')"
  using assms
proof (induction K c r H bv uv active img s ram res rule: ram_loop.raw_induct [rotated, consumes 1])
  case (1 loop K c r H bv uv active img s ram res)
  show ?case
  proof
    assume pre: "attempts K c r I Q \<and> I img \<and> (\<forall>p. active = Some p \<longrightarrow> p = PART_BOOT \<or> p = PART_UPDATE)"
    obtain act s1 where a: "(case active of None \<Rightarrow> wolfBoot_dualboot_candidate c H s | Some a \<Rightarrow> (Some a, s)) = (act, s1)"
      by fastforce
    obtain p where act: "act = Some p"
      using 1(2) a by (cases act) auto
    have p: "p = PART_BOOT \<or> p = PART_UPDATE"
      using a act pre candidate_part [of c H s p s1] by (auto split: option.splits)
    obtain ret img1 ram1 where t: "ram_try K c r (flash_mem H s1) p img ram = Some (ret, img1, ram1)"
      "if ret < 0 then I img1 else Q (flash_mem H s1) p img1 ram1"
      using pre p unfolding attempts_def by blast
    show "case res of (p, img', s', ram') \<Rightarrow> (p = PART_BOOT \<or> p = PART_UPDATE) \<and> Q (flash_mem H s') p img' ram'"
    proof (cases "ret < 0")
      case False
      then have "res = (p, img1, s1, ram1)"
        using 1(2) a act t(1) by (auto simp: Let_def split: if_splits)
      then show ?thesis
        using p t(2) False by simp
    next
      case True
      then have "loop K c r H bv uv (Some (p XOR 1)) img1 s1 ram1 = Some res"
        using 1(2) a act t(1) by (auto simp: Let_def split: if_splits)
      moreover have "I img1" "attempts K c r I Q" "\<forall>pa. Some (p XOR 1) = Some pa \<longrightarrow> pa = PART_BOOT \<or> pa = PART_UPDATE"
        using pre t(2) True other_part [OF p] by simp_all
      ultimately show ?thesis
        using 1(1) by blast
    qed
  qed
qed

lemma ramboot_attempts:
  assumes "cfg_ok c" "ram_cfg_ok c r" "\<And>x. length (wc_Sha256 K x) = 32" "WOLFBOOT_USE_RAMBOOT r"
  shows "attempts K c r (not_verified c r) (\<lambda>m p img ram. ram_authentic K c r ram img)"
  unfolding attempts_def using ram_try_ok [OF assms] by blast

text \<open>Without the copy the image is verified in flash.\<close>

definition flash_authentic :: "crypto \<Rightarrow> cfg \<Rightarrow> mem \<Rightarrow> nat \<Rightarrow> wolfBoot_image \<Rightarrow> bool" where
  "flash_authentic K c m p img \<longleftrightarrow>
     hdr_ok img \<and> sha_ok img \<and> signature_ok img \<and> fw_base img = wolfBoot_get_image_from_part c p + IMAGE_HEADER_SIZE c \<and>
     fw_size img = wolfBoot_image_size m (wolfBoot_get_image_from_part c p) \<and>
     fw_size img + IMAGE_HEADER_SIZE c \<le> WOLFBOOT_PARTITION_SIZE c \<and> image_authentic K c m img"

lemma xip_try:
  assumes "cfg_ok c" "\<And>x. length (wc_Sha256 K x) = 32" "\<not> WOLFBOOT_USE_RAMBOOT r" and p: "p = PART_BOOT \<or> p = PART_UPDATE"
  shows "\<exists>ret img'. ram_try K c r m p img ram = Some (ret, img', ram) \<and>
    (ret < 0 \<longleftrightarrow> \<not> (\<exists>img. wolfBoot_open_image c m p = (0, img) \<and> image_authentic K c m img)) \<and>
    (\<not> ret < 0 \<longrightarrow> flash_authentic K c m p img')"
proof -
  obtain r0 img0 where o: "wolfBoot_open_image c m p = (r0, img0)"
    by fastforce
  note step = ram_try_def o assms(3)
  from open_image_ret [OF o] show ?thesis
  proof
    assume "r0 = -1"
    then show ?thesis
      by (simp add: step)
  next
    assume r0: "r0 = 0"
    note ok = open_image_ok [OF assms(1) o [unfolded r0] p]
    have adr: "img_hdr img0 = wolfBoot_get_image_from_part c p"
      using ok(2) p by (auto simp: wolfBoot_get_image_from_part_def)
    obtain r1 img1 where v: "wolfBoot_verify_integrity K c m img0 = Some (r1, img1)" "r1 = 0 \<or> r1 = -1" "hdr_ok img1 = hdr_ok img0"
      "r1 = -1 \<longrightarrow> \<not> image_authentic K c m img0"
      "r1 = 0 \<longrightarrow> (\<exists>r2 img2. wolfBoot_verify_authenticity K c m img1 = Some (r2, img2)
         \<and> (r2 = 0 \<or> r2 < 0) \<and> (r2 = 0 \<longleftrightarrow> image_authentic K c m img0)
         \<and> (r2 = 0 \<longrightarrow> sha_ok img2 \<and> signature_ok img2)
         \<and> hdr_ok img2 = hdr_ok img0 \<and> fw_base img2 = fw_base img0 \<and> fw_size img2 = fw_size img0
         \<and> img_hdr img2 = img_hdr img0)"
      using integrity_then_authenticity [OF ok(11,12) assms(2) ok(9), of c m] by blast
    show ?thesis
    proof (cases "r1 = 0")
      case False
      then show ?thesis
        using v(1,2,4) r0 o by (simp add: step)
    next
      case True
      then obtain r2 img2 where a: "wolfBoot_verify_authenticity K c m img1 = Some (r2, img2)"
        "r2 = 0 \<or> r2 < 0" "r2 = 0 \<longleftrightarrow> image_authentic K c m img0"
        "r2 = 0 \<longrightarrow> sha_ok img2 \<and> signature_ok img2"
        "hdr_ok img2 = hdr_ok img0" "fw_base img2 = fw_base img0" "fw_size img2 = fw_size img0" "img_hdr img2 = img_hdr img0"
        using v(5) by blast
      have e: "ram_try K c r m p img ram = Some (r2, img2, ram)"
        using v(1) True a(1) r0 by (simp add: step)
      show ?thesis
      proof (cases "r2 = 0")
        case True
        have "image_authentic K c m img2"
          using a(3) True authentic_cong [OF a(8,6,7), of K c m] by simp
        then show ?thesis
          using e True a ok adr o r0 by (simp add: flash_authentic_def wolfBoot_image_size_def)
      next
        case False
        then show ?thesis
          using e a(2,3) o r0 by auto
      qed
    qed
  qed
qed

lemma xip_attempts:
  assumes "cfg_ok c" "\<And>x. length (wc_Sha256 K x) = 32" "\<not> WOLFBOOT_USE_RAMBOOT r"
  shows "attempts K c r (\<lambda>_. True) (\<lambda>m p img ram. flash_authentic K c m p img)"
  unfolding attempts_def using xip_try [OF assms] by (metis (no_types, lifting))

text \<open>
  Two images that are present and fail: nothing is invalidated, and the loop goes on with the other
  partition, forever.
\<close>

lemma ram_loop_alternates:
  assumes "cfg_ok c" "\<And>x. length (wc_Sha256 K x) = 32" "\<not> WOLFBOOT_USE_RAMBOOT r"
    and "p = PART_BOOT \<or> p = PART_UPDATE" "wolfBoot_fallback_is_possible c (flash_mem H s)"
    and "ALLOW_DOWNGRADE c \<or> bv = uv"
    and "\<not> (\<exists>img. wolfBoot_open_image c (flash_mem H s) p = (0, img) \<and> image_authentic K c (flash_mem H s) img)"
  shows "\<exists>img'. ram_loop K c r H bv uv (Some p) img s ram = ram_loop K c r H bv uv (Some (p XOR 1)) img' s ram"
proof -
  obtain ret img' where t: "ram_try K c r (flash_mem H s) p img ram = Some (ret, img', ram)"
    "ret < 0 \<longleftrightarrow> \<not> (\<exists>img. wolfBoot_open_image c (flash_mem H s) p = (0, img) \<and> image_authentic K c (flash_mem H s) img)"
    using xip_try [OF assms(1-4), of "flash_mem H s" img ram] by blast
  have "ret < 0"
    using t(2) assms(7) by blast
  then show ?thesis
    using t(1) assms(5,6) by (subst ram_loop.simps) auto
qed

subsection \<open>The bounds of the copy\<close>

definition ramboot_limit :: "cfg \<Rightarrow> ram_cfg \<Rightarrow> nat" where
  "ramboot_limit c r =
     (case WOLFBOOT_RAMBOOT_MAX_SIZE r of
        Some max_size \<Rightarrow> max_size | None \<Rightarrow> WOLFBOOT_PARTITION_SIZE c - IMAGE_HEADER_SIZE c)"

lemma mwrite_mread_id [simp]: "mwrite m a (mread m a n) = m"
  by (rule ext) (auto simp: mwrite_def mread_def)

lemma overlap_clear:
  assumes "\<not> ramboot_region_overlap lo (u32 (lo + n)) wb_lo wb_hi" "n < 2 ^ 32" "lo < 2 ^ 32"
  shows "lo + n < 2 ^ 32" "lo + n \<le> wb_lo \<or> wb_hi \<le> lo"
proof -
  have le: "lo \<le> u32 (lo + n)"
    using assms(1) by (auto simp: ramboot_region_overlap_def split: if_splits)
  show l: "lo + n < 2 ^ 32"
  proof (rule ccontr)
    assume "\<not> lo + n < 2 ^ 32"
    then have "u32 (lo + n) = lo + n - 2 ^ 32"
      using assms(2,3) by (simp add: u32_def mod_if)
    then show False
      using le assms(2) \<open>\<not> lo + n < 2 ^ 32\<close> by linarith
  qed
  then have "u32 (lo + n) = lo + n"
    by (simp add: u32_def)
  then show "lo + n \<le> wb_lo \<or> wb_hi \<le> lo"
    using assms(1) by (auto simp: ramboot_region_overlap_def split: if_splits)
qed

subsection \<open>Properties\<close>

text \<open>
  C5. Secure boot from RAM: whatever flash and RAM hold and whatever the flash driver does, with
  \<open>WOLFBOOT_USE_RAMBOOT\<close> the boot loader only jumps to the load address when RAM holds there, behind
  its header, an image that is authentic in RAM at that moment, after any number of failed attempts.
\<close>

theorem ram_start_authentic:
  assumes "cfg_ok c" "ram_cfg_ok c r" "\<forall>x. length (wc_Sha256 K x) = 32" "WOLFBOOT_USE_RAMBOOT r"
    and "wolfBoot_start_ram K c r H s ram = Some (entry, s', ram')"
  shows "entry = WOLFBOOT_LOAD_ADDRESS r \<and> (\<exists>img. ram_authentic K c r ram' img)"
proof -
  obtain a img s1 ram1 where l: "ram_loop K c r H (wolfBoot_current_firmware_version c (flash_mem H s))
      (wolfBoot_update_firmware_version c (flash_mem H s)) None image_zero s ram = Some (a, img, s1, ram1)"
    using assms(5) by (auto simp: wolfBoot_start_ram_def split: option.splits)
  have "ram_authentic K c r ram1 img"
    using ram_loop_result [OF l, of "not_verified c r" "\<lambda>m p img ram. ram_authentic K c r ram img"]
      ramboot_attempts [OF assms(1,2) _ assms(4)] assms(3) by (simp add: not_verified_def image_zero_def)
  moreover have "entry = WOLFBOOT_LOAD_ADDRESS r" "ram' = ram1"
    using assms(4,5) l by (auto simp: wolfBoot_start_ram_def Let_def split: if_splits prod.splits)
  ultimately show ?thesis
    by blast
qed

text \<open>The simulator with an image of version 2 in UPDATE; RAM is mapped to the same addresses.\<close>

definition demo_ram_cfg :: ram_cfg where
  "demo_ram_cfg = \<lparr>WOLFBOOT_USE_RAMBOOT = True, WOLFBOOT_LOAD_ADDRESS = 0x100100, WOLFBOOT_RAMBOOT_MAX_SIZE = Some 64,
     WOLFBOOT_ORIGIN = 0x1000, wb_end = 0x9000\<rparr>"

lemma demo_ram_versions:
  "wolfBoot_current_firmware_version sim_config demo_update_mem = 0"
  "wolfBoot_update_firmware_version sim_config demo_update_mem = 2"
  by (simp_all add: wolfBoot_current_firmware_version_def wolfBoot_update_firmware_version_def
      wolfBoot_get_image_version_def wolfBoot_get_blob_version_def wolfBoot_get_image_from_part_def
      demo_update_boot demo_update_magic demo_update_fields demo_update_values WOLFBOOT_MAGIC_def IMAGE_HEADER_OFFSET_def)

lemma demo_ramboot:
  "wolfBoot_ramboot sim_config demo_ram_cfg demo_update_mem 0x100000 0x100000 demo_update_mem = (0, demo_update_mem)"
  using demo_ram_versions(2) demo_update_magic(2)
  by (simp add: wolfBoot_ramboot_def demo_ram_cfg_def wolfBoot_update_firmware_version_def wolfBoot_get_image_version_def
      wolfBoot_get_image_from_part_def wolfBoot_image_size_def ramboot_region_overlap_def u32_def)

lemma demo_ram_try:
  "\<exists>img. ram_try demo_crypto sim_config demo_ram_cfg demo_update_mem PART_UPDATE image_zero demo_update_mem
     = Some (0, img, demo_update_mem) \<and> hdr_ok img \<and> sha_ok img \<and> signature_ok img"
proof -
  let ?img = "\<lparr>img_hdr = 0x100000, img_trailer = 0x140000, sha_hash = 0, fw_base = 0x100100, fw_size = 16,
     img_part = img_part image_zero, hdr_ok = True, signature_ok = False, sha_ok = False\<rparr>"
  have o: "wolfBoot_open_image_address sim_config demo_update_mem image_zero 0x100000 = (0, ?img)"
    using demo_update_magic
    by (simp add: wolfBoot_open_image_address_def wolfBoot_image_size_def image_zero_def Let_def)
  have "image_authentic demo_crypto sim_config demo_update_mem ?img"
    by (rule demo_update_authentic) simp
  then obtain img1 img2 where v: "wolfBoot_verify_integrity demo_crypto sim_config demo_update_mem ?img = Some (0, img1)"
    "wolfBoot_verify_authenticity demo_crypto sim_config demo_update_mem img1 = Some (0, img2)"
    "hdr_ok img2" "sha_ok img2" "signature_ok img2"
    using integrity_then_authenticity [of ?img demo_crypto sim_config demo_update_mem] by auto
  have "wolfBoot_get_image_from_part sim_config PART_UPDATE = 0x100000" "WOLFBOOT_USE_RAMBOOT demo_ram_cfg"
    "WOLFBOOT_LOAD_ADDRESS demo_ram_cfg - IMAGE_HEADER_SIZE sim_config = 0x100000"
    by (simp_all add: wolfBoot_get_image_from_part_def demo_ram_cfg_def)
  then show ?thesis
    using v by (simp add: ram_try_def demo_ramboot o)
qed

lemma demo_ram_start:
  "\<exists>s' ram'. wolfBoot_start_ram demo_crypto sim_config demo_ram_cfg (sim_hal sim_config) demo_update_sim demo_update_mem
     = Some (0x100100, s', ram')"
proof -
  let ?H = "sim_hal sim_config"
  obtain img where t: "ram_try demo_crypto sim_config demo_ram_cfg demo_update_mem PART_UPDATE image_zero demo_update_mem
     = Some (0, img, demo_update_mem)" "hdr_ok img" "sha_ok img" "signature_ok img"
    using demo_ram_try by blast
  have f: "flash_mem ?H demo_update_sim = demo_update_mem"
    by (simp add: sim_hal_def)
  have "wolfBoot_dualboot_candidate sim_config ?H demo_update_sim = (Some PART_UPDATE, demo_update_sim)"
    by (simp add: wolfBoot_dualboot_candidate_def f demo_ram_versions)
  then have "ram_loop demo_crypto sim_config demo_ram_cfg ?H 0 2 None image_zero demo_update_sim demo_update_mem =
      Some (PART_UPDATE, img, demo_update_sim, demo_update_mem)"
    by (subst ram_loop.simps) (simp add: f t(1))
  then show ?thesis
    using t(2-4) by (simp add: wolfBoot_start_ram_def f demo_ram_versions demo_ram_cfg_def hal_flash_protect_def Let_def
        split: prod.split)
qed

theorem ram_start_authentic_witness:
  "\<exists>s' ram'. wolfBoot_start_ram demo_crypto sim_config demo_ram_cfg (sim_hal sim_config) demo_update_sim demo_update_mem
      = Some (0x100100, s', ram') \<and> (\<exists>img. ram_authentic demo_crypto sim_config demo_ram_cfg ram' img)"
proof -
  obtain s' ram' where r: "wolfBoot_start_ram demo_crypto sim_config demo_ram_cfg (sim_hal sim_config) demo_update_sim demo_update_mem
      = Some (0x100100, s', ram')"
    using demo_ram_start by blast
  have "ram_cfg_ok sim_config demo_ram_cfg" "\<forall>x. length (wc_Sha256 demo_crypto x) = 32" "WOLFBOOT_USE_RAMBOOT demo_ram_cfg"
    by (simp_all add: demo_ram_cfg_def ram_cfg_ok_def)
  from ram_start_authentic [OF sim_config_ok this r] r show ?thesis
    by blast
qed

text \<open>
  C40. The copy to RAM is bounded before the image is authenticated: \<open>wolfBoot_ramboot\<close> writes nothing
  outside the header and the size limit behind it, and when it accepts the size it loads exactly the
  bytes of the partition, clear of the memory of the boot loader itself.
\<close>

theorem ramboot_bounds:
  assumes "wolfBoot_ramboot c r m src dst ram = (ret, ram')" "dst < 2 ^ 32" "IMAGE_HEADER_SIZE c + ramboot_limit c r < 2 ^ 32"
    and "8 \<le> IMAGE_HEADER_SIZE c"
  shows "same_outside dst (IMAGE_HEADER_SIZE c + ramboot_limit c r) ram ram' \<and>
    (ret = 0 \<longrightarrow>
       (let n = IMAGE_HEADER_SIZE c + wolfBoot_image_size ram' dst
        in mread ram' dst n = mread m src n \<and> (dst + n \<le> WOLFBOOT_ORIGIN r \<or> wb_end r \<le> dst)))"
proof -
  let ?h = "IMAGE_HEADER_SIZE c"
  let ?ram = "mwrite ram dst (mread m src ?h)"
  let ?n = "wolfBoot_image_size ?ram dst"
  let ?ok = "mwrite ?ram (dst + ?h) (mread m (src + ?h) ?n)"
  have hdr: "same_outside dst (?h + ramboot_limit c r) ram ?ram"
    by (auto simp: same_outside_def mem_simps)
  have cases: "ret = -1 \<and> ram' = ?ram \<or>
      ret = 0 \<and> ram' = ?ok \<and> ?n \<le> ramboot_limit c r \<and>
      \<not> ramboot_region_overlap dst (u32 (dst + ?h + ?n)) (WOLFBOOT_ORIGIN r) (wb_end r)"
    using assms(1) by (auto simp: wolfBoot_ramboot_def Let_def ramboot_limit_def split: if_splits option.splits)
  show ?thesis
  proof (cases "ret = 0")
    case False
    then show ?thesis
      using cases hdr by auto
  next
    case True
    then have ok: "ram' = ?ok" "?n \<le> ramboot_limit c r"
      "\<not> ramboot_region_overlap dst (u32 (dst + (?h + ?n))) (WOLFBOOT_ORIGIN r) (wb_end r)"
      using cases by (auto simp: add.assoc)
    have "same_outside dst (?h + ramboot_limit c r) ram ram'"
      using ok(1,2) by (auto simp: same_outside_def mem_simps)
    moreover have sz: "wolfBoot_image_size ram' dst = ?n"
      unfolding wolfBoot_image_size_def ok(1) le32_at_def using assms(4)
      by (intro arg_cong [of _ _ le32] mread_cong) (simp add: mwrite_apply)
    moreover have "mread ram' dst (?h + ?n) = mread m src (?h + ?n)"
      unfolding ok(1) by (intro mread_cong) (auto simp: mwrite_apply)
    moreover have "dst + (?h + ?n) \<le> WOLFBOOT_ORIGIN r \<or> wb_end r \<le> dst"
      by (rule overlap_clear(2) [OF ok(3)]) (use assms(2,3) ok(2) in linarith)+
    ultimately show ?thesis
      by (simp add: Let_def)
  qed
qed

theorem ramboot_bounds_witness:
  "wolfBoot_ramboot sim_config demo_ram_cfg demo_update_mem 0x100000 0x100000 demo_update_mem = (0, demo_update_mem) \<and>
   wb_end demo_ram_cfg \<le> 0x100000 \<and> same_outside 0x100000 320 demo_update_mem demo_update_mem"
proof -
  have "IMAGE_HEADER_SIZE sim_config + ramboot_limit sim_config demo_ram_cfg = 320"
    by (simp add: ramboot_limit_def demo_ram_cfg_def)
  then show ?thesis
    using ramboot_bounds [OF demo_ramboot] demo_ramboot by (simp add: demo_ram_cfg_def)
qed

end
