(* ===== verification/Gpt.thy ===== *)
theory Gpt
  imports Prelude
begin

text \<open>
  GUID partition tables (\<open>src/gpt.c\<close>, \<open>include/gpt.h\<close>): the CRC, the protective MBR, the header and the
  entries of the partition table, and partition names. A sector or an entry is a byte memory from
  address 0; the packed structures are read in place on a little-endian target. Pointers are to
  objects, so that the tests for \<open>NULL\<close> do not arise; \<open>None\<close> is the return value \<open>-1\<close>.
\<close>

section \<open>GUID partition tables (\<open>src/gpt.c\<close>)\<close>

subsection \<open>Data of \<open>include/gpt.h\<close>\<close>

definition GPT_SECTOR_SIZE :: nat where "GPT_SECTOR_SIZE = 512"
definition GPT_SIGNATURE :: nat where "GPT_SIGNATURE = 0x5452415020494645"
definition GPT_PTYPE_PROTECTIVE :: byte where "GPT_PTYPE_PROTECTIVE = 0xEE"
definition GPT_PART_NAME_SIZE :: nat where "GPT_PART_NAME_SIZE = 36"
definition GPT_MBR_ENTRY_START :: nat where "GPT_MBR_ENTRY_START = 0x01BE"
definition GPT_MBR_BOOTSIG_OFFSET :: nat where "GPT_MBR_BOOTSIG_OFFSET = 0x01FE"
definition GPT_MBR_BOOTSIG_VALUE :: nat where "GPT_MBR_BOOTSIG_VALUE = 0xAA55"
definition GPT_PART_ENTRY_SIZE :: nat where "GPT_PART_ENTRY_SIZE = 256"
definition GPT_MAX_PART_ENTRIES :: nat where "GPT_MAX_PART_ENTRIES = 128"

lemmas gpt_consts =
  GPT_SECTOR_SIZE_def GPT_SIGNATURE_def GPT_PTYPE_PROTECTIVE_def GPT_PART_NAME_SIZE_def
  GPT_MBR_ENTRY_START_def GPT_MBR_BOOTSIG_OFFSET_def GPT_MBR_BOOTSIG_VALUE_def
  GPT_PART_ENTRY_SIZE_def GPT_MAX_PART_ENTRIES_def

text \<open>64-bit integers.\<close>

definition u64 :: "nat \<Rightarrow> nat" where
  "u64 n = n mod 2 ^ 64"

definition UINT64_MAX :: nat where
  "UINT64_MAX = 2 ^ 64 - 1"

definition le64_at :: "mem \<Rightarrow> nat \<Rightarrow> nat" where
  "le64_at m a = le32_at m a + 2 ^ 32 * le32_at m (a + 4)"

record gpt_mbr_part_entry =
  stat :: byte
  chs_first :: "byte list"
  ptype :: byte
  chs_last :: "byte list"
  lba_first :: nat
  lba_size :: nat

definition gpt_mbr_part_entry_at :: "mem \<Rightarrow> nat \<Rightarrow> gpt_mbr_part_entry" where
  "gpt_mbr_part_entry_at m a =
     \<lparr>stat = m a, chs_first = mread m (a + 1) 3, ptype = m (a + 4), chs_last = mread m (a + 5) 3,
      lba_first = le32_at m (a + 8), lba_size = le32_at m (a + 12)\<rparr>"

record guid_ptable =
  signature :: nat
  revision :: nat
  hdr_size :: nat
  hdr_crc32 :: nat
  res0 :: nat
  main_lba :: nat
  backup_lba :: nat
  first_usable :: nat
  last_usable :: nat
  disk_guid :: "nat list"
  start_array :: nat
  n_part :: nat
  array_sz :: nat
  part_crc :: nat
  res1 :: "byte list"

definition guid_ptable_at :: "mem \<Rightarrow> guid_ptable" where
  "guid_ptable_at m =
     \<lparr>signature = le64_at m 0, revision = le32_at m 8, hdr_size = le32_at m 12, hdr_crc32 = le32_at m 16,
      res0 = le32_at m 20, main_lba = le64_at m 24, backup_lba = le64_at m 32, first_usable = le64_at m 40,
      last_usable = le64_at m 48, disk_guid = [le64_at m 56, le64_at m 64], start_array = le64_at m 72,
      n_part = le32_at m 80, array_sz = le32_at m 84, part_crc = le32_at m 88,
      res1 = mread m 92 (GPT_SECTOR_SIZE - 0x5C)\<rparr>"

record gpt_part_entry =
  pe_type :: "nat list"
  pe_uuid :: "nat list"
  pe_first :: nat
  pe_last :: nat
  pe_flags :: nat
  pe_name :: "nat list"

definition gpt_part_entry_at :: "mem \<Rightarrow> gpt_part_entry" where
  "gpt_part_entry_at m =
     \<lparr>pe_type = [le64_at m 0, le64_at m 8], pe_uuid = [le64_at m 16, le64_at m 24],
      pe_first = le64_at m 32, pe_last = le64_at m 40, pe_flags = le64_at m 48,
      pe_name = map (\<lambda>i. le16_at m (56 + 2 * i)) [0..<GPT_PART_NAME_SIZE]\<rparr>"

text \<open>\<open>sizeof (struct gpt_part_entry)\<close>.\<close>

definition sizeof_gpt_part_entry :: nat where
  "sizeof_gpt_part_entry = 56 + 2 * GPT_PART_NAME_SIZE"

record gpt_part_info =
  info_start :: nat
  info_end :: nat
  info_name :: "nat list"

record gpt_crc32_ctx =
  crc_value :: "32 word"

subsection \<open>CRC-32\<close>

definition gpt_crc32_init :: gpt_crc32_ctx where
  "gpt_crc32_init = \<lparr>crc_value = 0xFFFFFFFF\<rparr>"

definition gpt_crc32_bit :: "32 word \<Rightarrow> 32 word" where
  "gpt_crc32_bit v = (let mask = - (v AND 1) in drop_bit 1 v XOR (0xEDB88320 AND mask))"

fun gpt_crc32_update :: "gpt_crc32_ctx \<Rightarrow> byte list \<Rightarrow> gpt_crc32_ctx" where
  "gpt_crc32_update ctx [] = ctx"
| "gpt_crc32_update ctx (b # bs) =
     gpt_crc32_update \<lparr>crc_value = (gpt_crc32_bit ^^ 8) (crc_value ctx XOR ucast b)\<rparr> bs"

definition gpt_crc32_final :: "gpt_crc32_ctx \<Rightarrow> 32 word" where
  "gpt_crc32_final ctx = NOT (crc_value ctx)"

subsection \<open>The protective MBR\<close>

fun mbr_scan :: "mem \<Rightarrow> nat list \<Rightarrow> nat option" where
  "mbr_scan mbr_sector [] = None"
| "mbr_scan mbr_sector (i # is) =
     (let pte = gpt_mbr_part_entry_at mbr_sector (GPT_MBR_ENTRY_START + i * 16)
      in if ptype pte = GPT_PTYPE_PROTECTIVE then Some (lba_first pte) else mbr_scan mbr_sector is)"

definition gpt_check_mbr_protective :: "mem \<Rightarrow> nat option" where
  "gpt_check_mbr_protective mbr_sector =
     (if le16_at mbr_sector GPT_MBR_BOOTSIG_OFFSET \<noteq> GPT_MBR_BOOTSIG_VALUE then None
      else mbr_scan mbr_sector [0..<4])"

subsection \<open>Header and entries\<close>

definition gpt_parse_header :: "mem \<Rightarrow> guid_ptable option" where
  "gpt_parse_header sector =
     (let src = guid_ptable_at sector
      in if signature src \<noteq> GPT_SIGNATURE then None
         else if hdr_size src < 0x5C \<or> hdr_size src > GPT_SECTOR_SIZE then None
         else
           (let tmp = mwrite sector 16 [0, 0, 0, 0];
                crc = gpt_crc32_update gpt_crc32_init (mread tmp 0 (hdr_size src))
            in if unat (gpt_crc32_final crc) \<noteq> hdr_crc32 src then None
               else Some src))"

definition gpt_parse_partition :: "mem \<Rightarrow> nat \<Rightarrow> gpt_part_info option" where
  "gpt_parse_partition entry_data entry_size =
     (if entry_size < sizeof_gpt_part_entry then None
      else
        (let pe = gpt_part_entry_at entry_data
         in if pe_type pe ! 0 = 0 \<and> pe_type pe ! 1 = 0 then None
            else if pe_first pe > pe_last pe then None
            else if pe_last pe = 0 then None
            else if pe_last pe \<ge> UINT64_MAX div GPT_SECTOR_SIZE then None
            else Some \<lparr>info_start = u64 (pe_first pe * GPT_SECTOR_SIZE),
                       info_end = u64 (u64 (u64 (pe_last pe + 1) * GPT_SECTOR_SIZE) + UINT64_MAX),
                       info_name = pe_name pe\<rparr>))"

subsection \<open>Names\<close>

text \<open>
  A label is the characters before its terminating zero. \<open>sc\<close> says whether \<open>char\<close> is signed on the
  target, which decides what a character above 127 becomes as a \<open>uint16_t\<close>.
\<close>

definition char_u16 :: "bool \<Rightarrow> byte \<Rightarrow> nat" where
  "char_u16 sc b = (if sc \<and> 128 \<le> b then 0xFF00 + unat b else unat b)"

text \<open>The comparison loop: the index after it, or \<open>None\<close> for the return value 0 inside it.\<close>

fun name_loop :: "bool \<Rightarrow> nat list \<Rightarrow> byte list \<Rightarrow> nat \<Rightarrow> nat option" where
  "name_loop sc utf16_name [] utf16_idx = Some utf16_idx"
| "name_loop sc utf16_name (b # bs) utf16_idx =
     (if utf16_name ! utf16_idx \<noteq> char_u16 sc b then None
      else name_loop sc utf16_name bs (utf16_idx + 1))"

definition gpt_part_name_eq :: "bool \<Rightarrow> nat list \<Rightarrow> byte list \<Rightarrow> bool" where
  "gpt_part_name_eq sc utf16_name ascii_label =
     (let ascii_len = length ascii_label
      in if ascii_len > GPT_PART_NAME_SIZE then False
         else
           (let bom = (utf16_name ! 0 = 0xfeff);
                utf16_idx = (if bom then 1 else 0)
            in if bom \<and> ascii_len + utf16_idx > GPT_PART_NAME_SIZE then False
               else
                 (case name_loop sc utf16_name ascii_label utf16_idx of
                    None \<Rightarrow> False
                  | Some utf16_idx \<Rightarrow>
                      \<not> (utf16_idx < GPT_PART_NAME_SIZE \<and> utf16_name ! utf16_idx \<noteq> 0))))"

text \<open>
  On names without a byte-order mark the comparison is equality with the label, padded by a zero
  where there is room for one; every index is inside the array of the name.
\<close>

lemma name_loop_eq:
  "i + length label \<le> length nm \<Longrightarrow>
     name_loop sc nm label i =
       (if take (length label) (drop i nm) = map (char_u16 sc) label then Some (i + length label) else None)"
proof (induction label arbitrary: i)
  case Nil
  then show ?case by simp
next
  case (Cons b label)
  have "drop i nm = nm ! i # drop (Suc i) nm"
    using Cons.prems by (intro Cons_nth_drop_Suc [symmetric]) simp
  then show ?case
    using Cons by simp
qed

lemma part_name_eq_iff:
  assumes "length nm = GPT_PART_NAME_SIZE" "nm ! 0 \<noteq> 0xfeff"
  shows "gpt_part_name_eq sc nm label \<longleftrightarrow>
    length label \<le> GPT_PART_NAME_SIZE \<and> take (length label) nm = map (char_u16 sc) label \<and>
    (length label < GPT_PART_NAME_SIZE \<longrightarrow> nm ! length label = 0)"
  using assms name_loop_eq [of 0 label nm sc] by (auto simp: gpt_part_name_eq_def Let_def)

end
