(* ===== verification/Disk.thy ===== *)
theory Disk
  imports Gpt
begin

text \<open>
  Disks with a GPT or MBR partition table (\<open>src/disk.c\<close>, \<open>include/disk.h\<close>): opening a disk, and
  reading and writing inside its partitions. The disk itself is a parameter. Accesses to the local
  buffers and to the array of partitions are checked: \<open>None\<close> is an access out of bounds.
\<close>

section \<open>Disks and partitions (\<open>src/disk.c\<close>)\<close>

subsection \<open>Data of \<open>include/disk.h\<close>\<close>

text \<open>
  The user-supplied functions. \<open>disk_read\<close> gives its return value and the bytes that it stored from
  the start of the buffer.
\<close>

record 's disk_dev =
  disk_init :: "int \<Rightarrow> 's \<Rightarrow> int \<times> 's"
  disk_read :: "int \<Rightarrow> nat \<Rightarrow> nat \<Rightarrow> 's \<Rightarrow> int \<times> byte list \<times> 's"
  disk_write :: "int \<Rightarrow> nat \<Rightarrow> byte list \<Rightarrow> 's \<Rightarrow> int \<times> 's"
  disk_close :: "int \<Rightarrow> 's \<Rightarrow> 's"

definition DISK_IO_MAX_SIZE :: nat where "DISK_IO_MAX_SIZE = 0x7FFFFFFF"
definition MAX_PARTITIONS :: nat where "MAX_PARTITIONS = 16"
definition MAX_DISKS :: nat where "MAX_DISKS = 4"

lemmas disk_consts = DISK_IO_MAX_SIZE_def MAX_PARTITIONS_def MAX_DISKS_def

record disk_partition =
  part_drv :: int
  part_no :: int
  part_start :: nat
  part_end :: nat
  part_name :: "nat list"

record disk_drive =
  drv_no :: int
  is_open :: bool
  n_parts :: nat
  drv_part :: "disk_partition list"

subsection \<open>Opening a disk\<close>

text \<open>An entry of the array \<open>part\<close> at index \<open>n_parts\<close>, and the increment.\<close>

definition add_part :: "disk_drive \<Rightarrow> nat \<Rightarrow> nat \<Rightarrow> nat list \<Rightarrow> disk_drive option" where
  "add_part drive start_bytes end_bytes nm =
     (let n = n_parts drive
      in if n < length (drv_part drive) then
           Some (drive\<lparr>drv_part := (drv_part drive)
                          [n := (drv_part drive ! n)\<lparr>part_drv := drv_no drive, part_start := start_bytes,
                                                     part_end := end_bytes, part_name := nm\<rparr>],
                       n_parts := n + 1\<rparr>)
         else None)"

fun mbr_loop :: "mem \<Rightarrow> nat list \<Rightarrow> disk_drive \<Rightarrow> disk_drive option" where
  "mbr_loop mbr_sector [] drive = Some drive"
| "mbr_loop mbr_sector (i # is) drive =
     (let pte = gpt_mbr_part_entry_at mbr_sector (GPT_MBR_ENTRY_START + i * 16)
      in if ptype pte = 0x00 \<or> ptype pte = 0x05 \<or> ptype pte = 0x0F \<or> ptype pte = 0x85 then
           mbr_loop mbr_sector is drive
         else if lba_first pte = 0 \<or> lba_size pte = 0 then mbr_loop mbr_sector is drive
         else
           (let start_bytes = u64 (lba_first pte * GPT_SECTOR_SIZE);
                end_bytes = u64 (start_bytes + lba_size pte * GPT_SECTOR_SIZE + UINT64_MAX)
            in if n_parts drive \<ge> MAX_PARTITIONS then Some drive
               else
                 (case add_part drive start_bytes end_bytes (replicate GPT_PART_NAME_SIZE 0) of
                    None \<Rightarrow> None
                  | Some drive \<Rightarrow> mbr_loop mbr_sector is drive)))"

definition disk_open_mbr :: "disk_drive \<Rightarrow> mem \<Rightarrow> (int \<times> disk_drive) option" where
  "disk_open_mbr drive mbr_sector =
     (case mbr_loop mbr_sector [0..<4] drive of
        None \<Rightarrow> None
      | Some drive \<Rightarrow> Some (int (n_parts drive), drive))"

text \<open>\<open>disk_read\<close> into a local buffer of \<open>cap\<close> bytes.\<close>

definition read_into :: "'s disk_dev \<Rightarrow> int \<Rightarrow> nat \<Rightarrow> nat \<Rightarrow> nat \<Rightarrow> mem \<Rightarrow> 's \<Rightarrow> (int \<times> mem \<times> 's) option" where
  "read_into D drv address count cap buf s =
     (if count > cap then None
      else (case disk_read D drv address count s of (r, bs, s) \<Rightarrow> Some (r, mwrite buf 0 bs, s)))"

text \<open>The CRC of the array of entries; the flag is \<open>False\<close> for a failed read.\<close>

function crc_loop ::
  "'s disk_dev \<Rightarrow> int \<Rightarrow> nat \<Rightarrow> nat \<Rightarrow> gpt_crc32_ctx \<Rightarrow> mem \<Rightarrow> 's \<Rightarrow> (bool \<times> gpt_crc32_ctx \<times> 's) option" where
  "crc_loop D drv array_addr bytes_left crc sector s =
     (if bytes_left > 0 then
        (let chunk = (if bytes_left < GPT_SECTOR_SIZE then bytes_left else GPT_SECTOR_SIZE)
         in case read_into D drv array_addr chunk GPT_SECTOR_SIZE sector s of
              None \<Rightarrow> None
            | Some (r, sector, s) \<Rightarrow>
                if r < 0 then Some (False, crc, s)
                else crc_loop D drv (u64 (array_addr + chunk)) (bytes_left - chunk)
                       (gpt_crc32_update crc (mread sector 0 chunk)) sector s)
      else Some (True, crc, s))"
  by pat_completeness auto
termination
  by (relation "measure (\<lambda>(D, drv, array_addr, bytes_left, crc, sector, s). bytes_left)")
    (auto simp: GPT_SECTOR_SIZE_def)

declare crc_loop.simps [simp del]

text \<open>The entries themselves. \<open>entry_buf\<close> is what the stack holds where the buffer is.\<close>

fun entry_loop ::
  "'s disk_dev \<Rightarrow> int \<Rightarrow> guid_ptable \<Rightarrow> mem \<Rightarrow> nat list \<Rightarrow> disk_drive \<Rightarrow> 's \<Rightarrow> (bool \<times> disk_drive \<times> 's) option" where
  "entry_loop D drv ptable entry_buf [] drive s = Some (True, drive, s)"
| "entry_loop D drv ptable entry_buf (i # is) drive s =
     (let address = u64 (u64 (start_array ptable * GPT_SECTOR_SIZE) + u32 (i * array_sz ptable))
      in if array_sz ptable > GPT_PART_ENTRY_SIZE then Some (True, drive, s)
         else
           (case read_into D drv address (array_sz ptable) GPT_PART_ENTRY_SIZE entry_buf s of
              None \<Rightarrow> None
            | Some (r, entry_buf, s) \<Rightarrow>
                if r < 0 then Some (False, drive, s)
                else
                  (case gpt_parse_partition entry_buf (array_sz ptable) of
                     None \<Rightarrow> Some (True, drive, s)
                   | Some part_info \<Rightarrow>
                       (case add_part drive (info_start part_info) (info_end part_info) (info_name part_info) of
                          None \<Rightarrow> None
                        | Some drive \<Rightarrow> entry_loop D drv ptable entry_buf is drive s))))"

text \<open>The branch of \<open>disk_open\<close> for a protective MBR.\<close>

definition disk_open_gpt ::
  "'s disk_dev \<Rightarrow> int \<Rightarrow> nat \<Rightarrow> mem \<Rightarrow> mem \<Rightarrow> disk_drive \<Rightarrow> 's \<Rightarrow> (bool \<times> disk_drive \<times> 's) option" where
  "disk_open_gpt D drv gpt_lba sector entry_buf drive s =
     (case read_into D drv (u64 (GPT_SECTOR_SIZE * gpt_lba)) GPT_SECTOR_SIZE GPT_SECTOR_SIZE sector s of
        None \<Rightarrow> None
      | Some (r, sector, s) \<Rightarrow>
          if r < 0 then Some (False, drive, s)
          else
            (case gpt_parse_header sector of
               None \<Rightarrow> Some (False, drive, s)
             | Some ptable \<Rightarrow>
                 (let array_addr = u64 (start_array ptable * GPT_SECTOR_SIZE);
                      bytes_left = u64 (n_part ptable * array_sz ptable)
                  in if bytes_left > GPT_MAX_PART_ENTRIES * GPT_PART_ENTRY_SIZE then Some (False, drive, s)
                     else
                       (case crc_loop D drv array_addr bytes_left gpt_crc32_init sector s of
                          None \<Rightarrow> None
                        | Some (ok, crc, s) \<Rightarrow>
                            if \<not> ok then Some (False, drive, s)
                            else if unat (gpt_crc32_final crc) \<noteq> part_crc ptable then Some (False, drive, s)
                            else
                              (let n = (if n_part ptable > MAX_PARTITIONS then MAX_PARTITIONS else n_part ptable)
                               in entry_loop D drv ptable entry_buf [0..<n] drive s)))))"

text \<open>
  \<open>sector\<close> and \<open>entry_buf\<close> are what the stack holds where the buffers are; \<open>drives\<close> is the array
  \<open>Drives\<close>. Every error after the first read closes the drive.
\<close>

definition disk_open ::
  "'s disk_dev \<Rightarrow> mem \<Rightarrow> mem \<Rightarrow> int \<Rightarrow> disk_drive list \<Rightarrow> 's \<Rightarrow> (int \<times> disk_drive list \<times> 's) option" where
  "disk_open D sector entry_buf drv drives s =
     (if drv < 0 \<or> drv \<ge> int MAX_DISKS then Some (-1, drives, s)
      else
        (case read_into D drv 0 GPT_SECTOR_SIZE GPT_SECTOR_SIZE sector s of
           None \<Rightarrow> None
         | Some (r, sector, s) \<Rightarrow>
             if r < 0 then Some (-1, drives, s)
             else
               (let drive = (drives ! nat drv)\<lparr>is_open := True, drv_no := drv, n_parts := 0\<rparr>
                in case
                     (case gpt_check_mbr_protective sector of
                        Some gpt_lba \<Rightarrow> disk_open_gpt D drv gpt_lba sector entry_buf drive s
                      | None \<Rightarrow>
                          if le16_at sector GPT_MBR_BOOTSIG_OFFSET \<noteq> GPT_MBR_BOOTSIG_VALUE then
                            Some (False, drive, s)
                          else
                            (case disk_open_mbr drive sector of
                               None \<Rightarrow> None
                             | Some (r, drive) \<Rightarrow> Some (\<not> r < 0, drive, s))) of
                     None \<Rightarrow> None
                   | Some (ok, drive, s) \<Rightarrow>
                       if ok then Some (int (n_parts drive), drives[nat drv := drive], s)
                       else Some (-1, drives[nat drv := drive\<lparr>is_open := False\<rparr>], s))))"

subsection \<open>Access to partitions\<close>

definition open_part :: "disk_drive list \<Rightarrow> int \<Rightarrow> int \<Rightarrow> disk_partition option" where
  "open_part drives drv part =
     (if drv < 0 \<or> drv \<ge> int MAX_DISKS then None
      else if part < 0 \<or> part \<ge> int MAX_PARTITIONS then None
      else if \<not> is_open (drives ! nat drv) then None
      else if part \<ge> int (n_parts (drives ! nat drv)) then None
      else Some (drv_part (drives ! nat drv) ! nat part))"

text \<open>\<open>buf\<close> is an address of \<open>ram\<close>.\<close>

definition disk_part_read ::
  "'s disk_dev \<Rightarrow> disk_drive list \<Rightarrow> int \<Rightarrow> int \<Rightarrow> nat \<Rightarrow> nat \<Rightarrow> nat \<Rightarrow> mem \<Rightarrow> 's \<Rightarrow> int \<times> mem \<times> 's" where
  "disk_part_read D drives drv part off sz buf ram s =
     (case open_part drives drv part of
        None \<Rightarrow> (-1, ram, s)
      | Some p \<Rightarrow>
          (let sz = (if sz > DISK_IO_MAX_SIZE then DISK_IO_MAX_SIZE else sz);
               start = u64 (part_start p + off)
           in if start < part_start p then (-1, ram, s)
              else if start > part_end p then (-1, ram, s)
              else
                (let sz = (if u64 (part_end p - start + 1) < sz then u64 (part_end p - start + 1) else sz);
                     (ret, bs, s) = disk_read D drv start (u32 sz) s
                 in (if ret = 0 then int sz else ret, mwrite ram buf bs, s))))"

definition disk_part_write ::
  "'s disk_dev \<Rightarrow> disk_drive list \<Rightarrow> int \<Rightarrow> int \<Rightarrow> nat \<Rightarrow> nat \<Rightarrow> nat \<Rightarrow> mem \<Rightarrow> 's \<Rightarrow> int \<times> 's" where
  "disk_part_write D drives drv part off sz buf ram s =
     (case open_part drives drv part of
        None \<Rightarrow> (-1, s)
      | Some p \<Rightarrow>
          (let sz = (if sz > DISK_IO_MAX_SIZE then DISK_IO_MAX_SIZE else sz);
               start = u64 (part_start p + off)
           in if start < part_start p then (-1, s)
              else if start > part_end p then (-1, s)
              else
                (let sz = (if u64 (part_end p - start + 1) < sz then u64 (part_end p - start + 1) else sz);
                     (ret, s) = disk_write D drv start (mread ram buf (u32 sz)) s
                 in (if ret = 0 then int sz else ret, s))))"

fun find_label_loop :: "bool \<Rightarrow> disk_drive list \<Rightarrow> int \<Rightarrow> byte list \<Rightarrow> nat list \<Rightarrow> int" where
  "find_label_loop sc drives drv label [] = -1"
| "find_label_loop sc drives drv label (i # is) =
     (case open_part drives drv (int i) of
        None \<Rightarrow> find_label_loop sc drives drv label is
      | Some p \<Rightarrow>
          if gpt_part_name_eq sc (part_name p) label then int i
          else find_label_loop sc drives drv label is)"

definition disk_find_partition_by_label :: "bool \<Rightarrow> disk_drive list \<Rightarrow> int \<Rightarrow> byte list \<Rightarrow> int" where
  "disk_find_partition_by_label sc drives drv label =
     (if drv < 0 \<or> drv \<ge> int MAX_DISKS then -1
      else if \<not> is_open (drives ! nat drv) then -1
      else find_label_loop sc drives drv label [0..<n_parts (drives ! nat drv)])"

subsection \<open>What opening a disk establishes\<close>

definition part_ok :: "disk_partition \<Rightarrow> bool" where
  "part_ok p \<longleftrightarrow> part_start p \<le> part_end p \<and> part_end p < UINT64_MAX"

text \<open>
  A drive: the array has its declared size, the entries in use fit in it, and each of them is an
  interval of 64-bit byte offsets.
\<close>

definition drive_ok :: "disk_drive \<Rightarrow> bool" where
  "drive_ok d \<longleftrightarrow> length (drv_part d) = MAX_PARTITIONS \<and> n_parts d \<le> MAX_PARTITIONS \<and>
     (\<forall>i<n_parts d. part_ok (drv_part d ! i))"

definition drives_ok :: "disk_drive list \<Rightarrow> bool" where
  "drives_ok drives \<longleftrightarrow> length drives = MAX_DISKS \<and> list_all drive_ok drives"

lemma drives_okD: "drives_ok drives \<Longrightarrow> i < MAX_DISKS \<Longrightarrow> drive_ok (drives ! i)"
  by (simp add: drives_ok_def list_all_length)

lemma drives_ok_update: "drives_ok drives \<Longrightarrow> drive_ok d \<Longrightarrow> drives_ok (drives[i := d])"
  by (auto simp: drives_ok_def list_all_length) (metis nth_list_update_eq nth_list_update_neq)

lemma drive_ok_closed [simp]: "drive_ok (d\<lparr>is_open := b\<rparr>) = drive_ok d"
  by (simp add: drive_ok_def)

lemma drive_ok_reset: "drive_ok d \<Longrightarrow> drive_ok (d\<lparr>is_open := True, drv_no := k, n_parts := 0\<rparr>)"
  by (simp add: drive_ok_def)

lemma add_part_ok:
  assumes "drive_ok d" "n_parts d < MAX_PARTITIONS" "a \<le> b" "b < UINT64_MAX"
  shows "\<exists>d'. add_part d a b nm = Some d' \<and> drive_ok d' \<and> n_parts d' = n_parts d + 1 \<and> is_open d' = is_open d"
  using assms by (auto simp: add_part_def Let_def drive_ok_def part_ok_def nth_list_update less_Suc_eq)

lemma u64_id: "n < 2 ^ 64 \<Longrightarrow> u64 n = n"
  by (simp add: u64_def)

text \<open>Subtracting one, as the compiler does it.\<close>

lemma u64_minus_one: "0 < n \<Longrightarrow> n < 2 ^ 64 \<Longrightarrow> u64 (n + UINT64_MAX) = n - 1"
proof -
  assume a: "0 < n" "n < 2 ^ 64"
  have "n + UINT64_MAX = (n - 1) + 2 ^ 64"
    using a(1) by (simp add: UINT64_MAX_def)
  then show ?thesis
    using a(2) by (simp add: u64_def)
qed

lemma le64_at_bound: "le64_at m a < 2 ^ 64"
  using le32_at_bound [of m a] le32_at_bound [of m "a + 4"] by (simp add: le64_at_def)

lemma mbr_extent:
  assumes "a < 4294967296" "b < 4294967296" "0 < b"
  shows "u64 (a * GPT_SECTOR_SIZE) \<le> u64 (u64 (a * GPT_SECTOR_SIZE) + b * GPT_SECTOR_SIZE + UINT64_MAX) \<and>
    u64 (u64 (a * GPT_SECTOR_SIZE) + b * GPT_SECTOR_SIZE + UINT64_MAX) < UINT64_MAX"
proof -
  have s: "u64 (a * GPT_SECTOR_SIZE) = a * 512"
    using assms by (simp add: u64_def GPT_SECTOR_SIZE_def)
  have "u64 (a * 512 + b * 512 + UINT64_MAX) = a * 512 + b * 512 - 1"
    using assms by (intro u64_minus_one) simp_all
  then have e: "u64 (u64 (a * GPT_SECTOR_SIZE) + b * GPT_SECTOR_SIZE + UINT64_MAX) = a * 512 + b * 512 - 1"
    unfolding s by (simp add: GPT_SECTOR_SIZE_def)
  show ?thesis
    unfolding e unfolding s UINT64_MAX_def using assms by simp arith
qed

lemma mbr_loop_ok:
  assumes "drive_ok d"
  shows "\<exists>d'. mbr_loop mbr is d = Some d' \<and> drive_ok d' \<and> is_open d' = is_open d"
  using assms
proof (induction "is" arbitrary: d)
  case Nil
  then show ?case by simp
next
  case (Cons i "is")
  let ?pte = "gpt_mbr_part_entry_at mbr (GPT_MBR_ENTRY_START + i * 16)"
  let ?first = "u64 (lba_first ?pte * GPT_SECTOR_SIZE)"
  let ?last = "u64 (?first + lba_size ?pte * GPT_SECTOR_SIZE + UINT64_MAX)"
  have b: "lba_first ?pte < 4294967296" "lba_size ?pte < 4294967296"
    by (simp_all add: gpt_mbr_part_entry_at_def le32_at_bound)
  show ?case
  proof (cases "lba_first ?pte = 0 \<or> lba_size ?pte = 0 \<or> n_parts d \<ge> MAX_PARTITIONS")
    case True
    then show ?thesis
      using Cons by (auto simp: Let_def)
  next
    case False
    have "?first \<le> ?last" "?last < UINT64_MAX"
      using mbr_extent [OF b] False by simp_all
    from add_part_ok [OF Cons.prems _ this] False
    obtain d1 where "add_part d ?first ?last (replicate GPT_PART_NAME_SIZE 0) = Some d1" "drive_ok d1" "is_open d1 = is_open d"
      by fastforce
    then show ?thesis
      using Cons False by (simp add: Let_def) fastforce
  qed
qed

lemma parse_partition_ok:
  assumes "gpt_parse_partition buf n = Some info"
  shows "info_start info \<le> info_end info \<and> info_end info < UINT64_MAX"
proof -
  let ?pe = "gpt_part_entry_at buf"
  have h: "pe_first ?pe \<le> pe_last ?pe" "pe_last ?pe < UINT64_MAX div 512"
    "info_start info = u64 (pe_first ?pe * 512)"
    "info_end info = u64 (u64 (u64 (pe_last ?pe + 1) * 512) + UINT64_MAX)"
    using assms by (auto simp: gpt_parse_partition_def Let_def GPT_SECTOR_SIZE_def split: if_splits)
  have l: "pe_last ?pe * 512 + 512 \<le> 18446744073709551104"
    using h(2) by (simp add: UINT64_MAX_def)
  then have "u64 (u64 (pe_last ?pe + 1) * 512) = pe_last ?pe * 512 + 512"
    by (simp add: u64_id)
  moreover have "u64 (pe_last ?pe * 512 + 512 + UINT64_MAX) = pe_last ?pe * 512 + 512 - 1"
    using l by (intro u64_minus_one) simp_all
  ultimately have "info_end info = pe_last ?pe * 512 + 511"
    using h(4) by simp
  moreover have "info_start info = pe_first ?pe * 512"
    using h(1,3) l by (simp add: u64_id)
  ultimately show ?thesis
    using h(1) l by (simp add: UINT64_MAX_def)
qed

lemma read_into_ok: "count \<le> cap \<Longrightarrow> \<exists>r buf' s'. read_into D drv a count cap buf s = Some (r, buf', s')"
  by (simp add: read_into_def split: prod.split)

lemma crc_loop_ok: "\<exists>ok crc' s'. crc_loop D drv a n crc sector s = Some (ok, crc', s')"
proof (induction D drv a n crc sector s rule: crc_loop.induct)
  case (1 D drv a n crc sector s)
  let ?chunk = "if n < GPT_SECTOR_SIZE then n else GPT_SECTOR_SIZE"
  have "?chunk \<le> GPT_SECTOR_SIZE"
    by simp
  then obtain r sec' s' where r: "read_into D drv a ?chunk GPT_SECTOR_SIZE sector s = Some (r, sec', s')"
    using read_into_ok [of ?chunk GPT_SECTOR_SIZE D drv a sector s] by blast
  show ?case
  proof (cases "0 < n \<and> \<not> r < 0")
    case True
    then show ?thesis
      using 1 [OF _ refl r refl refl] r by (subst crc_loop.simps) (simp add: Let_def)
  next
    case False
    then show ?thesis
      using r by (subst crc_loop.simps) (auto simp: Let_def)
  qed
qed

lemma entry_loop_ok:
  assumes "drive_ok d" "n_parts d + length is \<le> MAX_PARTITIONS"
  shows "\<exists>ok d' s'. entry_loop D drv pt buf is d s = Some (ok, d', s') \<and> drive_ok d' \<and> is_open d' = is_open d"
  using assms
proof (induction "is" arbitrary: d buf s)
  case Nil
  then show ?case by (auto intro: exI [of _ True])
next
  case (Cons i "is")
  let ?a = "u64 (u64 (start_array pt * GPT_SECTOR_SIZE) + u32 (i * array_sz pt))"
  show ?case
  proof (cases "array_sz pt \<le> GPT_PART_ENTRY_SIZE")
    case False
    then show ?thesis
      using Cons.prems by (auto intro: exI [of _ True])
  next
    case True
    then obtain r buf1 s1 where r: "read_into D drv ?a (array_sz pt) GPT_PART_ENTRY_SIZE buf s = Some (r, buf1, s1)"
      using read_into_ok [of "array_sz pt" GPT_PART_ENTRY_SIZE D drv ?a buf s] by blast
    show ?thesis
    proof (cases "r < 0 \<or> gpt_parse_partition buf1 (array_sz pt) = None")
      case t: True
      then show ?thesis
        using Cons.prems True r by auto
    next
      case False
      then obtain info where info: "gpt_parse_partition buf1 (array_sz pt) = Some info"
        by auto
      obtain d1 where d1: "add_part d (info_start info) (info_end info) (info_name info) = Some d1" "drive_ok d1"
        "n_parts d1 = n_parts d + 1" "is_open d1 = is_open d"
        using add_part_ok [OF Cons.prems(1), of "info_start info" "info_end info"] parse_partition_ok [OF info] Cons.prems(2)
        by fastforce
      have "\<exists>ok d' s'. entry_loop D drv pt buf1 is d1 s1 = Some (ok, d', s') \<and> drive_ok d' \<and> is_open d' = is_open d1"
        using Cons.IH [OF d1(2)] Cons.prems(2) d1(3) by simp
      then show ?thesis
        using True r info False d1 by simp
    qed
  qed
qed

lemma disk_open_gpt_ok:
  assumes "drive_ok d" "n_parts d = 0"
  shows "\<exists>ok d' s'. disk_open_gpt D drv lba sector buf d s = Some (ok, d', s') \<and> drive_ok d' \<and> is_open d' = is_open d"
proof -
  obtain r sector1 s1 where r: "read_into D drv (u64 (GPT_SECTOR_SIZE * lba)) GPT_SECTOR_SIZE GPT_SECTOR_SIZE sector s = Some (r, sector1, s1)"
    using read_into_ok [OF order_refl, of D drv "u64 (GPT_SECTOR_SIZE * lba)" GPT_SECTOR_SIZE sector s] by blast
  show ?thesis
  proof (cases "gpt_parse_header sector1")
    case None
    then show ?thesis
      using r assms by (auto simp: disk_open_gpt_def intro: exI [of _ False])
  next
    case (Some pt)
    let ?n = "if n_part pt > MAX_PARTITIONS then MAX_PARTITIONS else n_part pt"
    obtain ok crc s2 where c: "crc_loop D drv (u64 (start_array pt * GPT_SECTOR_SIZE)) (u64 (n_part pt * array_sz pt))
        gpt_crc32_init sector1 s1 = Some (ok, crc, s2)"
      using crc_loop_ok [of D drv "u64 (start_array pt * GPT_SECTOR_SIZE)" "u64 (n_part pt * array_sz pt)" gpt_crc32_init sector1 s1] by blast
    have "\<exists>ok d' s'. entry_loop D drv pt buf [0..<?n] d s2 = Some (ok, d', s') \<and> drive_ok d' \<and> is_open d' = is_open d"
      using entry_loop_ok [OF assms(1), of "[0..<?n]" D drv pt buf s2] assms(2) by simp
    then show ?thesis
      using r Some c assms by (auto simp: disk_open_gpt_def Let_def intro: exI [of _ False])
  qed
qed

lemma disk_open_ok:
  assumes "drives_ok drives"
  shows "\<exists>ret drives' s'. disk_open D sector buf drv drives s = Some (ret, drives', s') \<and> drives_ok drives' \<and> -1 \<le> ret \<and>
    (0 \<le> ret \<longrightarrow> 0 \<le> drv \<and> drv < int MAX_DISKS \<and> is_open (drives' ! nat drv) \<and> ret = int (n_parts (drives' ! nat drv)))"
proof (cases "drv < 0 \<or> drv \<ge> int MAX_DISKS")
  case True
  then show ?thesis
    using assms by (simp add: disk_open_def)
next
  case False
  obtain r sector1 s1 where r: "read_into D drv 0 GPT_SECTOR_SIZE GPT_SECTOR_SIZE sector s = Some (r, sector1, s1)"
    using read_into_ok [OF order_refl, of D drv 0 GPT_SECTOR_SIZE sector s] by blast
  let ?d = "(drives ! nat drv)\<lparr>is_open := True, drv_no := drv, n_parts := 0\<rparr>"
  have d: "drive_ok ?d"
    using drives_okD [OF assms, of "nat drv"] False by (intro drive_ok_reset) auto
  have len: "nat drv < length drives"
    using assms False by (simp add: drives_ok_def) linarith
  obtain ok d' s2 where b: "(case gpt_check_mbr_protective sector1 of
        Some lba \<Rightarrow> disk_open_gpt D drv lba sector1 buf ?d s1
      | None \<Rightarrow> if le16_at sector1 GPT_MBR_BOOTSIG_OFFSET \<noteq> GPT_MBR_BOOTSIG_VALUE then Some (False, ?d, s1)
          else (case disk_open_mbr ?d sector1 of None \<Rightarrow> None | Some (r, drive) \<Rightarrow> Some (\<not> r < 0, drive, s1))) = Some (ok, d', s2)"
    "drive_ok d'" "is_open d'"
  proof (cases "gpt_check_mbr_protective sector1")
    case None
    obtain d1 where "mbr_loop sector1 [0..<4] ?d = Some d1" "drive_ok d1" "is_open d1"
      using mbr_loop_ok [OF d, of sector1 "[0..<4]"] by auto
    then show ?thesis
      using that None d by (cases "le16_at sector1 GPT_MBR_BOOTSIG_OFFSET = GPT_MBR_BOOTSIG_VALUE")
        (simp_all add: disk_open_mbr_def)
  next
    case (Some lba)
    then show ?thesis
      using that disk_open_gpt_ok [OF d, of D drv lba sector1 buf s1] by auto
  qed
  show ?thesis
  proof (cases "r < 0")
    case True
    then show ?thesis
      using False r assms by (simp add: disk_open_def)
  next
    case t: False
    have ok': "drives_ok (drives[nat drv := d'])" "drives_ok (drives[nat drv := d'\<lparr>is_open := False\<rparr>])"
      using drives_ok_update [OF assms] b(2) by simp_all
    show ?thesis
      using False r t b(1) b(3) ok' len by (cases ok) (simp_all add: disk_open_def Let_def)
  qed
qed

text \<open>The request that an access to a partition makes of the disk lies inside the partition.\<close>

definition inside :: "disk_partition \<Rightarrow> nat \<Rightarrow> nat \<Rightarrow> bool" where
  "inside p start count \<longleftrightarrow> part_start p \<le> start \<and> start + count \<le> part_end p + 1"

lemma open_part_ok: "drives_ok drives \<Longrightarrow> open_part drives drv part = Some p \<Longrightarrow> part_ok p"
  using drives_okD [of drives "nat drv"] by (auto simp: open_part_def drive_ok_def split: if_splits)

lemma clip_inside:
  assumes "part_ok p" "part_start p \<le> start" "start \<le> part_end p" "sz \<le> DISK_IO_MAX_SIZE"
  defines "n \<equiv> if u64 (part_end p - start + 1) < sz then u64 (part_end p - start + 1) else sz"
  shows "inside p start n \<and> n \<le> sz \<and> u32 n = n"
proof -
  have "u64 (part_end p - start + 1) = part_end p - start + 1"
    using assms(1) by (intro u64_id) (simp add: part_ok_def UINT64_MAX_def less_imp_diff_less)
  then show ?thesis
    using assms by (auto simp: n_def inside_def DISK_IO_MAX_SIZE_def u32_def)
qed

lemma part_read_cases:
  assumes "drives_ok drives"
  shows "disk_part_read D drives drv part off sz buf ram s = (-1, ram, s) \<or>
    (\<exists>p n ret bs s'. open_part drives drv part = Some p \<and> inside p (u64 (part_start p + off)) n \<and> n \<le> sz \<and>
       disk_read D drv (u64 (part_start p + off)) n s = (ret, bs, s') \<and>
       disk_part_read D drives drv part off sz buf ram s = (if ret = 0 then int n else ret, mwrite ram buf bs, s'))"
proof (cases "open_part drives drv part")
  case None
  then show ?thesis
    by (simp add: disk_part_read_def)
next
  case (Some p)
  let ?first = "u64 (part_start p + off)" and ?sz = "if sz > DISK_IO_MAX_SIZE then DISK_IO_MAX_SIZE else sz"
  let ?n = "if u64 (part_end p - ?first + 1) < ?sz then u64 (part_end p - ?first + 1) else ?sz"
  show ?thesis
  proof (cases "?first < part_start p \<or> ?first > part_end p")
    case True
    then show ?thesis
      using Some by (auto simp: disk_part_read_def Let_def)
  next
    case False
    have c: "inside p ?first ?n \<and> ?n \<le> ?sz \<and> u32 ?n = ?n"
      using clip_inside [OF open_part_ok [OF assms Some], of ?first ?sz] False by auto
    obtain ret bs s' where d: "disk_read D drv ?first ?n s = (ret, bs, s')"
      using prod_cases3 by blast
    have "disk_part_read D drives drv part off sz buf ram s = (if ret = 0 then int ?n else ret, mwrite ram buf bs, s')"
      using False c d Some unfolding disk_part_read_def Let_def by (simp only: option.case if_False c) simp
    moreover have "?n \<le> sz"
      using c by (auto split: if_splits)
    ultimately show ?thesis
      using Some c d by blast
  qed
qed

lemma part_write_cases:
  assumes "drives_ok drives"
  shows "disk_part_write D drives drv part off sz buf ram s = (-1, s) \<or>
    (\<exists>p n ret s'. open_part drives drv part = Some p \<and> inside p (u64 (part_start p + off)) n \<and> n \<le> sz \<and>
       disk_write D drv (u64 (part_start p + off)) (mread ram buf n) s = (ret, s') \<and>
       disk_part_write D drives drv part off sz buf ram s = (if ret = 0 then int n else ret, s'))"
proof (cases "open_part drives drv part")
  case None
  then show ?thesis
    by (simp add: disk_part_write_def)
next
  case (Some p)
  let ?first = "u64 (part_start p + off)" and ?sz = "if sz > DISK_IO_MAX_SIZE then DISK_IO_MAX_SIZE else sz"
  let ?n = "if u64 (part_end p - ?first + 1) < ?sz then u64 (part_end p - ?first + 1) else ?sz"
  show ?thesis
  proof (cases "?first < part_start p \<or> ?first > part_end p")
    case True
    then show ?thesis
      using Some by (auto simp: disk_part_write_def Let_def)
  next
    case False
    have c: "inside p ?first ?n \<and> ?n \<le> ?sz \<and> u32 ?n = ?n"
      using clip_inside [OF open_part_ok [OF assms Some], of ?first ?sz] False by auto
    obtain ret s' where d: "disk_write D drv ?first (mread ram buf ?n) s = (ret, s')"
      by fastforce
    have "disk_part_write D drives drv part off sz buf ram s = (if ret = 0 then int ?n else ret, s')"
      using False c d Some unfolding disk_part_write_def Let_def by (simp only: option.case if_False c) simp
    moreover have "?n \<le> sz"
      using c by (auto split: if_splits)
    ultimately show ?thesis
      using Some c d by blast
  qed
qed

subsection \<open>Properties\<close>

text \<open>
  C14. Whatever a disk holds, and whatever its driver returns, \<open>disk_open\<close> ends without an access
  outside its buffers and the array of partitions, and it leaves a table in which every partition is
  a proper interval of 64-bit offsets. Every later \<open>disk_part_read\<close> and \<open>disk_part_write\<close> through that
  table either fails without touching the disk or makes one request, of no more bytes than were asked
  for, that lies inside the partition.
\<close>

theorem disk_open_safe:
  assumes "drives_ok drives"
  shows "\<exists>ret drives' s'. disk_open D sector entry_buf drv drives s = Some (ret, drives', s') \<and> drives_ok drives' \<and>
    (0 \<le> ret \<longrightarrow> is_open (drives' ! nat drv) \<and> ret = int (n_parts (drives' ! nat drv))) \<and>
    (\<forall>part off sz buf ram t.
       (disk_part_read D drives' drv part off sz buf ram t = (-1, ram, t) \<or>
        (\<exists>p n r bs t'. open_part drives' drv part = Some p \<and> inside p (u64 (part_start p + off)) n \<and> n \<le> sz \<and>
           disk_read D drv (u64 (part_start p + off)) n t = (r, bs, t') \<and>
           disk_part_read D drives' drv part off sz buf ram t = (if r = 0 then int n else r, mwrite ram buf bs, t'))) \<and>
       (disk_part_write D drives' drv part off sz buf ram t = (-1, t) \<or>
        (\<exists>p n r t'. open_part drives' drv part = Some p \<and> inside p (u64 (part_start p + off)) n \<and> n \<le> sz \<and>
           disk_write D drv (u64 (part_start p + off)) (mread ram buf n) t = (r, t') \<and>
           disk_part_write D drives' drv part off sz buf ram t = (if r = 0 then int n else r, t'))))"
proof -
  obtain ret drives' s' where o: "disk_open D sector entry_buf drv drives s = Some (ret, drives', s')" "drives_ok drives'"
    "0 \<le> ret \<longrightarrow> is_open (drives' ! nat drv) \<and> ret = int (n_parts (drives' ! nat drv))"
    using disk_open_ok [OF assms, of D sector entry_buf drv s] by blast
  note acc = part_read_cases [OF o(2), of D drv] part_write_cases [OF o(2), of D drv]
  show ?thesis
    by (rule exI [of _ ret], rule exI [of _ drives'], rule exI [of _ s'], intro conjI allI o acc)
qed

text \<open>A disk that is a byte memory, with an MBR that has one Linux partition of two sectors.\<close>

definition mem_disk :: "mem disk_dev" where
  "mem_disk = \<lparr>disk_init = (\<lambda>drv m. (0, m)), disk_read = (\<lambda>drv a n m. (0, mread m a n, m)),
     disk_write = (\<lambda>drv a bs m. (0, mwrite m a bs)), disk_close = (\<lambda>drv m. m)\<rparr>"

definition zero_drives :: "disk_drive list" where
  "zero_drives = replicate MAX_DISKS
     \<lparr>drv_no = 0, is_open = False, n_parts = 0, drv_part = replicate MAX_PARTITIONS
        \<lparr>part_drv = 0, part_no = 0, part_start = 0, part_end = 0, part_name = replicate GPT_PART_NAME_SIZE 0\<rparr>\<rparr>"

definition mbr_disk :: mem where
  "mbr_disk = (\<lambda>_. 0)(0x1C2 := 0x83, 0x1C6 := 1, 0x1CA := 2, 0x1FE := 0x55, 0x1FF := 0xAA)"

lemma zero_drives_ok: "drives_ok zero_drives"
  by (simp add: drives_ok_def zero_drives_def drive_ok_def list_all_length)

lemma mem_read_into:
  "n \<le> cap \<Longrightarrow> read_into mem_disk drv a n cap buf m = Some (0, mwrite buf 0 (mread m a n), m)"
  by (simp add: read_into_def mem_disk_def)

lemma mwrite_mread_apply: "mwrite buf a (mread m b n) x = (if a \<le> x \<and> x < a + n then m (b + (x - a)) else buf x)"
  by (auto simp: mwrite_apply)

text \<open>A disk that starts with the sector of \<open>mbr_disk\<close> has its one partition.\<close>

definition mbr_part :: disk_partition where
  "mbr_part = \<lparr>part_drv = 0, part_no = 0, part_start = 512, part_end = 1535, part_name = replicate GPT_PART_NAME_SIZE 0\<rparr>"

lemma mbr_disk_opens:
  assumes m: "\<And>x. x < 512 \<Longrightarrow> m x = mbr_disk x"
  shows "\<exists>drives'. disk_open mem_disk (\<lambda>_. 0) (\<lambda>_. 0) 0 zero_drives m = Some (1, drives', m) \<and>
    n_parts (drives' ! 0) = 1 \<and> is_open (drives' ! 0) \<and> drv_part (drives' ! 0) ! 0 = mbr_part"
proof -
  define b where "b = mwrite (\<lambda>_. 0) 0 (mread m 0 GPT_SECTOR_SIZE)"
  have b: "b x = mbr_disk x" if "x < 512" for x
    using that m by (simp add: b_def mwrite_mread_apply GPT_SECTOR_SIZE_def)
  have four: "[0..<4] = [0, 1, 2, 3 :: nat]"
    by (simp add: upt_rec)
  have s: "le16_at b GPT_MBR_BOOTSIG_OFFSET = GPT_MBR_BOOTSIG_VALUE"
    by (simp add: le16_at_eq b GPT_MBR_BOOTSIG_OFFSET_def GPT_MBR_BOOTSIG_VALUE_def mbr_disk_def)
  let ?e = "\<lambda>i. gpt_mbr_part_entry_at b (GPT_MBR_ENTRY_START + i * 16)"
  have e: "ptype (?e 0) = 0x83" "lba_first (?e 0) = 1" "lba_size (?e 0) = 2" "ptype (?e 1) = 0" "ptype (?e 2) = 0" "ptype (?e 3) = 0"
    by (simp_all add: gpt_mbr_part_entry_at_def GPT_MBR_ENTRY_START_def le32_at_eq b mbr_disk_def)
  have n: "gpt_check_mbr_protective b = None"
    using e by (simp add: gpt_check_mbr_protective_def four GPT_PTYPE_PROTECTIVE_def Let_def)
  define d where "d = (zero_drives ! 0)\<lparr>is_open := True, drv_no := 0, n_parts := 0\<rparr>"
  have u: "u64 512 = 512" "u64 (512 + 1024 + UINT64_MAX) = 1535"
    by (simp_all add: u64_def UINT64_MAX_def)
  obtain d' where d': "add_part d 512 1535 (replicate GPT_PART_NAME_SIZE 0) = Some d'" "n_parts d' = 1" "is_open d'"
    "drv_part d' ! 0 = mbr_part"
    by (simp add: add_part_def d_def zero_drives_def disk_consts mbr_part_def)
  have "n_parts d = 0"
    by (simp add: d_def)
  then have l: "mbr_loop b [0, 1, 2, 3] d = Some d'"
    using e d' u unfolding mbr_loop.simps Let_def by (simp add: MAX_PARTITIONS_def GPT_SECTOR_SIZE_def)
  have "disk_open mem_disk (\<lambda>_. 0) (\<lambda>_. 0) 0 zero_drives m = Some (1, zero_drives[0 := d'], m)"
    using s n l d' by (simp add: disk_open_def mem_read_into b_def [symmetric] disk_open_mbr_def four MAX_DISKS_def
        d_def [symmetric])
  then show ?thesis
    using d' by (simp add: zero_drives_def MAX_DISKS_def)
qed

theorem disk_open_safe_witness:
  "\<exists>drives'. disk_open mem_disk (\<lambda>_. 0) (\<lambda>_. 0) 0 zero_drives mbr_disk = Some (1, drives', mbr_disk) \<and>
     drives_ok drives' \<and> n_parts (drives' ! 0) = 1"
  using disk_open_safe [OF zero_drives_ok, of mem_disk "\<lambda>_. 0" "\<lambda>_. 0" 0 mbr_disk] mbr_disk_opens [of mbr_disk] by auto

end
