(* ===== verification/DiskBoot.thy ===== *)
theory DiskBoot
  imports Boot Disk
begin

text \<open>
  Booting from a disk (\<open>src/update_disk.c\<close>): the image with the higher version of two partitions is
  loaded into RAM and verified there; when that fails, the other partition is tried.

  The build modelled has fixed partitions and none of the options for encryption, FSP, FIT, ELF and
  device trees. The header is read to the buffer \<open>p_hdr\<close> on the stack and the payload to the load
  address, both in RAM; \<open>None\<close> is a panic or a load that does not end.
\<close>

section \<open>Booting from a disk (\<open>src/update_disk.c\<close>)\<close>

record disk_cfg =
  BOOT_DISK :: int
  BOOT_PART_A :: int
  BOOT_PART_B :: int
  MAX_FAILURES :: nat
  DISK_BLOCK_SIZE :: nat
  load_addr :: nat
  max_load :: nat
  p_hdr :: nat

text \<open>Reading the payload, block by block; the return value of the last read, and how much was loaded.\<close>

partial_function (option) load_loop ::
  "cfg \<Rightarrow> disk_cfg \<Rightarrow> 's disk_dev \<Rightarrow> disk_drive list \<Rightarrow> int \<Rightarrow> nat \<Rightarrow> nat \<Rightarrow> mem \<Rightarrow> 's \<Rightarrow> (int \<times> nat \<times> mem \<times> 's) option" where
  "load_loop c k D drives cur_part total_sz load_off ram s =
     (let chunk = sub32 total_sz load_off;
          chunk = (if chunk > DISK_BLOCK_SIZE k then DISK_BLOCK_SIZE k else chunk)
      in case disk_part_read D drives (BOOT_DISK k) cur_part (u32 (IMAGE_HEADER_SIZE c + load_off)) chunk
                (load_addr k + load_off) ram s of
           (ret, ram, s) \<Rightarrow>
             if ret \<le> 0 then Some (ret, load_off, ram, s)
             else
               (let load_off = u32 (load_off + nat ret)
                in if load_off < total_sz then load_loop c k D drives cur_part total_sz load_off ram s
                   else Some (ret, load_off, ram, s)))"

text \<open>
  One turn of the loop: \<open>Some (Some img, ...)\<close> is the success case, \<open>Some (None, ...)\<close> a \<open>continue\<close>.
\<close>

definition disk_try ::
  "crypto \<Rightarrow> cfg \<Rightarrow> disk_cfg \<Rightarrow> 's disk_dev \<Rightarrow> disk_drive list \<Rightarrow> int \<Rightarrow> mem \<Rightarrow> 's \<Rightarrow>
     (wolfBoot_image option \<times> mem \<times> 's) option" where
  "disk_try K c k D drives cur_part ram s =
     (case disk_part_read D drives (BOOT_DISK k) cur_part 0 (IMAGE_HEADER_SIZE c) (p_hdr k) ram s of
        (n, ram, s) \<Rightarrow>
          if n \<noteq> int (IMAGE_HEADER_SIZE c) then Some (None, ram, s)
          else
            (let (ret, os_image) = wolfBoot_open_image_address c ram image_zero (p_hdr k)
             in if ret < 0 then Some (None, ram, s)
                else if fw_size os_image > max_load k then Some (None, ram, s)
                else
                  (case load_loop c k D drives cur_part (fw_size os_image) 0 ram s of
                     None \<Rightarrow> None
                   | Some (ret, load_off, ram, s) \<Rightarrow>
                       if ret \<le> 0 \<or> load_off \<noteq> fw_size os_image then Some (None, ram, s)
                       else
                         (let (ret, os_image) = wolfBoot_open_image_address c ram image_zero (p_hdr k)
                          in if ret < 0 then Some (None, ram, s)
                             else
                               (let os_image = os_image\<lparr>fw_base := load_addr k\<rparr>
                                in case wolfBoot_verify_integrity K c ram os_image of
                                     None \<Rightarrow> None
                                   | Some (ret, os_image) \<Rightarrow>
                                       if ret \<noteq> 0 then Some (None, ram, s)
                                       else
                                         (case wolfBoot_verify_authenticity K c ram os_image of
                                            None \<Rightarrow> None
                                          | Some (ret, os_image) \<Rightarrow>
                                              if ret \<noteq> 0 then Some (None, ram, s)
                                              else Some (Some os_image, ram, s)))))))"

function disk_loop ::
  "crypto \<Rightarrow> cfg \<Rightarrow> disk_cfg \<Rightarrow> 's disk_dev \<Rightarrow> disk_drive list \<Rightarrow> nat \<Rightarrow> nat \<Rightarrow> bool \<Rightarrow> nat \<Rightarrow> mem \<Rightarrow> 's \<Rightarrow>
     (wolfBoot_image \<times> mem \<times> 's) option" where
  "disk_loop K c k D drives pA_ver pB_ver selected failures ram s =
     (let failures = failures + 1;
          cur_part = (if selected then BOOT_PART_B k else BOOT_PART_A k);
          max_ver = (if pB_ver > pA_ver then pB_ver else pA_ver);
          cur_ver = (if selected then pB_ver else pA_ver)
      in if \<not> ALLOW_DOWNGRADE c \<and> max_ver > 0 \<and> cur_ver < max_ver then None
         else
           (case disk_try K c k D drives cur_part ram s of
              None \<Rightarrow> None
            | Some (Some os_image, ram, s) \<Rightarrow> Some (os_image, ram, s)
            | Some (None, ram, s) \<Rightarrow>
                if failures < MAX_FAILURES k then
                  disk_loop K c k D drives pA_ver pB_ver (\<not> selected) failures ram s
                else None))"
  by pat_completeness auto
termination
  by (relation "measure (\<lambda>(K, c, k, D, drives, pA_ver, pB_ver, selected, failures, ram, s). MAX_FAILURES k - failures)") auto

declare disk_loop.simps [simp del]

text \<open>The version of the image in a partition, 0 if its header cannot be read.\<close>

definition disk_version ::
  "cfg \<Rightarrow> disk_cfg \<Rightarrow> 's disk_dev \<Rightarrow> disk_drive list \<Rightarrow> int \<Rightarrow> mem \<Rightarrow> 's \<Rightarrow> nat \<times> mem \<times> 's" where
  "disk_version c k D drives part ram s =
     (case disk_part_read D drives (BOOT_DISK k) part 0 (IMAGE_HEADER_SIZE c) (p_hdr k) ram s of
        (n, ram, s) \<Rightarrow>
          (if n = int (IMAGE_HEADER_SIZE c) then wolfBoot_get_blob_version c ram (p_hdr k) else 0, ram, s))"

text \<open>
  \<open>wolfBoot_start\<close> of this file: the address it jumps to, RAM and the disk at that moment.
  \<open>sector\<close> and \<open>entry_buf\<close> are the buffers of \<open>disk_open\<close>.
\<close>

definition wolfBoot_start_disk ::
  "crypto \<Rightarrow> cfg \<Rightarrow> disk_cfg \<Rightarrow> 's disk_dev \<Rightarrow> mem \<Rightarrow> mem \<Rightarrow> disk_drive list \<Rightarrow> mem \<Rightarrow> 's \<Rightarrow> (nat \<times> mem \<times> 's) option" where
  "wolfBoot_start_disk K c k D sector entry_buf drives ram s =
     (case disk_init D (BOOT_DISK k) s of
        (ret, s) \<Rightarrow>
          if ret \<noteq> 0 then None
          else
            (case disk_open D sector entry_buf (BOOT_DISK k) drives s of
               None \<Rightarrow> None
             | Some (ret, drives, s) \<Rightarrow>
                 if ret < 0 then None
                 else
                   (let (pA_ver, ram, s) = disk_version c k D drives (BOOT_PART_A k) ram s;
                        (pB_ver, ram, s) = disk_version c k D drives (BOOT_PART_B k) ram s
                    in if pB_ver = 0 \<and> pA_ver = 0 then None
                       else
                         (case disk_loop K c k D drives pA_ver pB_ver (pB_ver > pA_ver) 0 ram s of
                            None \<Rightarrow> None
                          | Some (os_image, ram, s) \<Rightarrow>
                              (let s = disk_close D (BOOT_DISK k) s;
                                   load_address = fw_base os_image
                               in if hal_flash_protect < 0 then None
                                  else if \<not> (hdr_ok os_image \<and> sha_ok os_image \<and> signature_ok os_image) then None
                                  else Some (load_address, ram, s))))))"

subsection \<open>Where the loader writes\<close>

text \<open>
  What the loader relies on of the disk driver: \<open>disk_read\<close> stores no more bytes than it was asked
  for, and returns 0 or a negative error code.
\<close>

definition disk_dev_ok :: "'s disk_dev \<Rightarrow> bool" where
  "disk_dev_ok D \<longleftrightarrow> (\<forall>drv a n s. case disk_read D drv a n s of (r, bs, s') \<Rightarrow> length bs \<le> n \<and> r \<le> 0)"

text \<open>The load address is not the null pointer, and the load region does not meet the header buffer.\<close>

definition disk_cfg_ok :: "cfg \<Rightarrow> disk_cfg \<Rightarrow> bool" where
  "disk_cfg_ok c k \<longleftrightarrow> 0 < load_addr k \<and>
     (p_hdr k + IMAGE_HEADER_SIZE c \<le> load_addr k \<or> load_addr k + max_load k \<le> p_hdr k)"

definition ram_frame :: "cfg \<Rightarrow> disk_cfg \<Rightarrow> mem \<Rightarrow> mem \<Rightarrow> bool" where
  "ram_frame c k ram ram' \<longleftrightarrow>
     (\<forall>x. \<not> (p_hdr k \<le> x \<and> x < p_hdr k + IMAGE_HEADER_SIZE c) \<and> \<not> (load_addr k \<le> x \<and> x < load_addr k + max_load k) \<longrightarrow>
        ram' x = ram x)"

lemma ram_frame_refl [simp]: "ram_frame c k ram ram"
  by (simp add: ram_frame_def)

lemma ram_frame_trans: "ram_frame c k a b \<Longrightarrow> ram_frame c k b d \<Longrightarrow> ram_frame c k a d"
  by (simp add: ram_frame_def)

lemma ram_frame_hdr: "same_outside (p_hdr k) (IMAGE_HEADER_SIZE c) ram ram' \<Longrightarrow> ram_frame c k ram ram'"
  by (auto simp: ram_frame_def same_outside_def)

lemma ram_frame_load: "same_outside (load_addr k) n ram ram' \<Longrightarrow> n \<le> max_load k \<Longrightarrow> ram_frame c k ram ram'"
  by (auto simp: ram_frame_def same_outside_def)

lemma part_read_frame:
  assumes "drives_ok drives" "disk_dev_ok D" "disk_part_read D drives drv part off sz buf ram s = (ret, ram', s')"
  shows "same_outside buf sz ram ram' \<and> ret \<le> int sz"
  using part_read_cases [OF assms(1), of D drv part off sz buf ram s]
proof (elim disjE exE conjE)
  fix p :: disk_partition and n r bs t
  assume a: "n \<le> sz" "disk_read D drv (u64 (part_start p + off)) n s = (r, bs, t)"
    "disk_part_read D drives drv part off sz buf ram s = (if r = 0 then int n else r, mwrite ram buf bs, t)"
  have "case disk_read D drv (u64 (part_start p + off)) n s of (r, bs, s') \<Rightarrow> length bs \<le> n \<and> r \<le> 0"
    using assms(2) unfolding disk_dev_ok_def by (elim allE)
  then show ?thesis
    using a assms(3) by (auto simp: same_outside_def mwrite_apply)
qed (use assms(3) in simp)

lemma load_loop_frame:
  assumes "load_loop c k D drives cur_part n off ram s = Some res"
  shows "drives_ok drives \<and> disk_dev_ok D \<and> off \<le> n \<and> n < 2147483648 \<longrightarrow>
    (case res of (ret, off', ram', s') \<Rightarrow> same_outside (load_addr k) n ram ram')"
  using assms
proof (induction c k D drives cur_part n off ram s res rule: load_loop.raw_induct [rotated, consumes 1])
  case (1 loop c k D drives cur_part n off ram s res)
  let ?chunk = "if sub32 n off > DISK_BLOCK_SIZE k then DISK_BLOCK_SIZE k else sub32 n off"
  show ?case
  proof
    assume pre: "drives_ok drives \<and> disk_dev_ok D \<and> off \<le> n \<and> n < 2147483648"
    obtain ret ram1 s1 where r: "disk_part_read D drives (BOOT_DISK k) cur_part (u32 (IMAGE_HEADER_SIZE c + off)) ?chunk
        (load_addr k + off) ram s = (ret, ram1, s1)"
      using prod_cases3 by blast
    have "sub32 n off = n - off"
      using pre by (intro sub32_id) auto
    then have ch: "?chunk \<le> n - off"
      by simp
    have f: "same_outside (load_addr k + off) ?chunk ram ram1" "ret \<le> int ?chunk"
      using part_read_frame [OF _ _ r] pre by blast+
    have f1: "same_outside (load_addr k) n ram ram1"
      using f(1) ch pre by (auto simp: same_outside_def)
    show "case res of (ret, off', ram', s') \<Rightarrow> same_outside (load_addr k) n ram ram'"
    proof (cases "ret \<le> 0 \<or> \<not> u32 (off + nat ret) < n")
      case True
      then show ?thesis
        using 1(2) r f1 by (auto simp: Let_def split: if_splits)
    next
      case False
      then have "loop c k D drives cur_part n (u32 (off + nat ret)) ram1 s1 = Some res"
        using 1(2) r by (auto simp: Let_def split: if_splits)
      moreover have "u32 (off + nat ret) \<le> n"
        using False by simp
      ultimately have "case res of (ret, off', ram', s') \<Rightarrow> same_outside (load_addr k) n ram1 ram'"
        using 1(1) pre by blast
      then show ?thesis
        using same_outside_trans [OF f1] by (auto split: prod.splits)
    qed
  qed
qed

subsection \<open>What is booted is authentic\<close>

definition disk_authentic :: "crypto \<Rightarrow> cfg \<Rightarrow> disk_cfg \<Rightarrow> mem \<Rightarrow> wolfBoot_image \<Rightarrow> bool" where
  "disk_authentic K c k ram img \<longleftrightarrow>
     hdr_ok img \<and> sha_ok img \<and> signature_ok img \<and> img_hdr img = p_hdr k \<and> fw_base img = load_addr k \<and>
     fw_size img = wolfBoot_image_size ram (p_hdr k) \<and> fw_size img \<le> max_load k \<and>
     le32_at ram (p_hdr k) = WOLFBOOT_MAGIC \<and> image_authentic K c ram img"

lemma open_zero:
  assumes "wolfBoot_open_image_address c ram image_zero a = (ret, img)" "\<not> ret < 0"
  shows "img_hdr img = a \<and> hdr_ok img \<and> \<not> signature_ok img \<and> fw_size img = wolfBoot_image_size ram a \<and>
    fw_size img \<le> WOLFBOOT_PARTITION_SIZE c \<and> le32_at ram a = WOLFBOOT_MAGIC"
  using assms by (auto simp: wolfBoot_open_image_address_def image_zero_def Let_def split: if_splits)

lemma image_size_frame:
  assumes "same_outside a n ram ram'" "h + 8 \<le> a \<or> a + n \<le> h"
  shows "wolfBoot_image_size ram' h = wolfBoot_image_size ram h"
  unfolding wolfBoot_image_size_def using assms(2) same_outsideD [OF assms(1)] by (intro le32_at_cong) auto

lemma disk_try_ok:
  assumes "cfg_ok c" "disk_cfg_ok c k" "\<And>x. length (wc_Sha256 K x) = 32" "drives_ok drives" "disk_dev_ok D"
    and tr: "disk_try K c k D drives cur_part ram s = Some (res, ram', s')"
  shows "ram_frame c k ram ram' \<and> (\<forall>img. res = Some img \<longrightarrow> disk_authentic K c k ram' img)"
proof -
  obtain n ram1 s1 where r: "disk_part_read D drives (BOOT_DISK k) cur_part 0 (IMAGE_HEADER_SIZE c) (p_hdr k) ram s = (n, ram1, s1)"
    using prod_cases3 by blast
  have f1: "ram_frame c k ram ram1"
    using part_read_frame [OF assms(4,5) r] by (intro ram_frame_hdr) simp
  obtain r1 img1 where o1: "wolfBoot_open_image_address c ram1 image_zero (p_hdr k) = (r1, img1)"
    by fastforce
  note step = disk_try_def r o1
  show ?thesis
  proof (cases "n \<noteq> int (IMAGE_HEADER_SIZE c) \<or> r1 < 0 \<or> fw_size img1 > max_load k")
    case True
    then show ?thesis
      using tr f1 by (auto simp: step split: if_splits)
  next
    case ok1: False
    note z1 = open_zero [OF o1]
    obtain r2 off ram2 s2 where l: "load_loop c k D drives cur_part (fw_size img1) 0 ram1 s1 = Some (r2, off, ram2, s2)"
      using tr ok1 by (auto simp: step split: option.splits if_splits)
    have sz: "fw_size img1 < 2147483648"
      using z1 ok1 cfg_okD [OF assms(1)] by simp
    have so: "same_outside (load_addr k) (fw_size img1) ram1 ram2"
      using load_loop_frame [OF l] assms(4,5) sz by simp
    have f2: "ram_frame c k ram ram2"
      using ram_frame_trans [OF f1 ram_frame_load [OF so]] ok1 by simp
    have h: "wolfBoot_image_size ram2 (p_hdr k) = fw_size img1"
      using image_size_frame [OF so, of "p_hdr k"] assms(2) ok1 z1 cfg_okD [OF assms(1)]
      by (auto simp: disk_cfg_ok_def IMAGE_HEADER_OFFSET_def)
    obtain r3 img3 where o3: "wolfBoot_open_image_address c ram2 image_zero (p_hdr k) = (r3, img3)"
      by fastforce
    show ?thesis
    proof (cases "r2 \<le> 0 \<or> off \<noteq> fw_size img1 \<or> r3 < 0")
      case True
      then show ?thesis
        using tr ok1 f2 by (auto simp: step l o3 split: if_splits)
    next
      case ok3: False
      let ?img = "img3\<lparr>fw_base := load_addr k\<rparr>"
      note z3 = open_zero [OF o3]
      have i: "fw_base ?img \<noteq> 0" "fw_size ?img < 2147483648" "\<not> signature_ok ?img"
        using z3 ok3 h sz assms(2) by (simp_all add: disk_cfg_ok_def)
      from integrity_then_authenticity [OF i(1,2) assms(3) i(3), of c ram2]
      obtain r4 img4 where v: "wolfBoot_verify_integrity K c ram2 ?img = Some (r4, img4)"
        "r4 = 0 \<longrightarrow> (\<exists>r5 img5. wolfBoot_verify_authenticity K c ram2 img4 = Some (r5, img5)
           \<and> (r5 = 0 \<longleftrightarrow> image_authentic K c ram2 ?img) \<and> (r5 = 0 \<longrightarrow> sha_ok img5 \<and> signature_ok img5)
           \<and> hdr_ok img5 = hdr_ok ?img \<and> fw_base img5 = fw_base ?img \<and> fw_size img5 = fw_size ?img
           \<and> img_hdr img5 = img_hdr ?img)"
        by blast
      show ?thesis
      proof (cases "r4 = 0")
        case False
        then show ?thesis
          using tr ok1 ok3 f2 v(1) by (auto simp: step l o3 split: if_splits)
      next
        case True
        then obtain r5 img5 where a: "wolfBoot_verify_authenticity K c ram2 img4 = Some (r5, img5)"
          "r5 = 0 \<longleftrightarrow> image_authentic K c ram2 ?img" "r5 = 0 \<longrightarrow> sha_ok img5 \<and> signature_ok img5"
          "hdr_ok img5 = hdr_ok ?img" "fw_base img5 = fw_base ?img" "fw_size img5 = fw_size ?img" "img_hdr img5 = img_hdr ?img"
          using v(2) by blast
        have e: "ram' = ram2" "res = (if r5 = 0 then Some img5 else None)"
          using tr ok1 ok3 v(1) True a(1) by (auto simp: step l o3 split: if_splits)
        have "disk_authentic K c k ram2 img5" if "r5 = 0"
          using that a z3 ok3 h ok1 authentic_cong [OF a(7,5,6), of K c ram2] by (simp add: disk_authentic_def)
        then show ?thesis
          using e f2 by simp
      qed
    qed
  qed
qed

lemma disk_loop_ok:
  assumes "cfg_ok c" "disk_cfg_ok c k" "\<And>x. length (wc_Sha256 K x) = 32" "drives_ok drives" "disk_dev_ok D"
    and "disk_loop K c k D drives pA pB sel failures ram s = Some (img, ram', s')"
  shows "ram_frame c k ram ram' \<and> disk_authentic K c k ram' img"
  using assms
proof (induction K c k D drives pA pB sel failures ram s rule: disk_loop.induct)
  case (1 K c k D drives pA pB sel failures ram s)
  let ?p = "if sel then BOOT_PART_B k else BOOT_PART_A k"
  obtain res ram1 s1 where t: "disk_try K c k D drives ?p ram s = Some (res, ram1, s1)"
    using "1.prems"(6) by (subst (asm) disk_loop.simps) (auto simp: Let_def split: if_splits option.splits)
  note ok = disk_try_ok [OF "1.prems"(1-5) t]
  show ?case
  proof (cases res)
    case (Some img1)
    then show ?thesis
      using ok t "1.prems"(6) by (subst (asm) disk_loop.simps) (auto simp: Let_def split: if_splits)
  next
    case None
    then have "disk_loop K c k D drives pA pB (\<not> sel) (failures + 1) ram1 s1 = Some (img, ram', s')"
      and g: "\<not> (\<not> ALLOW_DOWNGRADE c \<and> (if pB > pA then pB else pA) > 0 \<and> (if sel then pB else pA) < (if pB > pA then pB else pA))"
        "failures + 1 < MAX_FAILURES k"
      using t "1.prems"(6) by (subst (asm) disk_loop.simps, auto simp: Let_def split: if_splits)+
    then have "ram_frame c k ram1 ram' \<and> disk_authentic K c k ram' img"
      using "1.IH" [OF refl refl refl refl g(1) t refl _ refl g(2)] None "1.prems"(1-5) by blast
    then show ?thesis
      using ok ram_frame_trans by blast
  qed
qed

lemma disk_version_frame:
  assumes "drives_ok drives" "disk_dev_ok D" "disk_version c k D drives part ram s = (v, ram', s')"
  shows "ram_frame c k ram ram'"
proof -
  obtain n ram1 s1 where r: "disk_part_read D drives (BOOT_DISK k) part 0 (IMAGE_HEADER_SIZE c) (p_hdr k) ram s = (n, ram1, s1)"
    using prod_cases3 by blast
  then show ?thesis
    using part_read_frame [OF assms(1,2) r] assms(3) by (auto simp: disk_version_def intro: ram_frame_hdr)
qed

subsection \<open>Properties\<close>

text \<open>
  C6. Secure boot from a disk: whatever the disk holds, and even if it changes between two reads, the
  boot loader only jumps to the load address when RAM holds there the payload of an image that is
  authentic with the header it read; and until then it has written nothing outside the header buffer
  and the limit of the load region.
\<close>

theorem disk_start_authentic:
  assumes "cfg_ok c" "disk_cfg_ok c k" "\<forall>x. length (wc_Sha256 K x) = 32" "drives_ok drives" "disk_dev_ok D"
    and "wolfBoot_start_disk K c k D sector entry_buf drives ram s = Some (entry, ram', s')"
  shows "entry = load_addr k \<and> (\<exists>img. disk_authentic K c k ram' img) \<and> ram_frame c k ram ram'"
proof -
  obtain s0 where i: "disk_init D (BOOT_DISK k) s = (0, s0)"
    using assms(6) by (cases "disk_init D (BOOT_DISK k) s") (auto simp: wolfBoot_start_disk_def split: if_splits)
  obtain ret dr s1 where o: "disk_open D sector entry_buf (BOOT_DISK k) drives s0 = Some (ret, dr, s1)" "drives_ok dr"
    using disk_open_ok [OF assms(4), of D sector entry_buf "BOOT_DISK k" s0] by blast
  obtain pA ram2 s2 where a: "disk_version c k D dr (BOOT_PART_A k) ram s1 = (pA, ram2, s2)"
    using prod_cases3 by blast
  obtain pB ram3 s3 where b: "disk_version c k D dr (BOOT_PART_B k) ram2 s2 = (pB, ram3, s3)"
    using prod_cases3 by blast
  obtain img s4 where l: "disk_loop K c k D dr pA pB (pB > pA) 0 ram3 s3 = Some (img, ram', s4)" "entry = fw_base img"
    using assms(6) by (auto simp: wolfBoot_start_disk_def i o(1) a b Let_def split: if_splits option.splits)
  have "ram_frame c k ram3 ram' \<and> disk_authentic K c k ram' img"
    using disk_loop_ok [OF assms(1,2) _ o(2) assms(5) l(1)] assms(3) by blast
  moreover have "ram_frame c k ram ram3"
    using disk_version_frame [OF o(2) assms(5) a] disk_version_frame [OF o(2) assms(5) b] by (rule ram_frame_trans)
  ultimately show ?thesis
    using l(2) ram_frame_trans by (auto simp: disk_authentic_def)
qed

text \<open>
  A disk with one partition that holds the image of version 2, loaded to the addresses at which RAM
  holds that image already.
\<close>

definition demo_disk_cfg :: disk_cfg where
  "demo_disk_cfg = \<lparr>BOOT_DISK = 0, BOOT_PART_A = 0, BOOT_PART_B = 1, MAX_FAILURES = 4, DISK_BLOCK_SIZE = 512,
     load_addr = 0x100100, max_load = 64, p_hdr = 0x100000\<rparr>"

definition demo_disk :: mem where
  "demo_disk = (\<lambda>x. if x < 512 then mbr_disk x else demo_update_mem (0x100000 + (x - 512)))"

lemma mem_disk_ok: "disk_dev_ok mem_disk"
  by (simp add: disk_dev_ok_def mem_disk_def)

lemma mwrite_mread_same:
  assumes "\<And>i. i < n \<Longrightarrow> m (a + i) = ram (b + i)"
  shows "mwrite ram b (mread m a n) = ram"
proof
  fix x
  show "mwrite ram b (mread m a n) x = ram x"
    using assms [of "x - b"] by (auto simp: mwrite_mread_apply)
qed

lemma demo_part_read:
  assumes "n_parts (dr ! 0) = 1" "is_open (dr ! 0)" "drv_part (dr ! 0) ! 0 = mbr_part" "off + n \<le> 1024" "0 < n"
  shows "disk_part_read mem_disk dr 0 0 off n (0x100000 + off) demo_update_mem demo_disk = (int n, demo_update_mem, demo_disk)"
proof -
  have p: "open_part dr 0 0 = Some mbr_part"
    using assms by (simp add: open_part_def disk_consts)
  have u: "u64 (512 + off) = 512 + off" "u64 (Suc (1535 - (512 + off))) = Suc (1535 - (512 + off))" "u32 n = n"
    using assms(4) by (simp_all add: u64_def u32_def)
  have "mwrite demo_update_mem (0x100000 + off) (mread demo_disk (512 + off) n) = demo_update_mem"
    by (rule mwrite_mread_same) (simp add: demo_disk_def add.assoc)
  then show ?thesis
    using assms(4,5) u by (auto simp: disk_part_read_def p mbr_part_def DISK_IO_MAX_SIZE_def mem_disk_def Let_def)
qed

lemma demo_disk_try:
  assumes "n_parts (dr ! 0) = 1" "is_open (dr ! 0)" "drv_part (dr ! 0) ! 0 = mbr_part"
  shows "\<exists>img. disk_try demo_crypto sim_config demo_disk_cfg mem_disk dr 0 demo_update_mem demo_disk
      = Some (Some img, demo_update_mem, demo_disk) \<and> hdr_ok img \<and> sha_ok img \<and> signature_ok img \<and> fw_base img = 0x100100"
proof -
  let ?img = "\<lparr>img_hdr = 0x100000, img_trailer = 0x140000, sha_hash = 0, fw_base = 0x100100, fw_size = 16,
     img_part = img_part image_zero, hdr_ok = True, signature_ok = False, sha_ok = False\<rparr>"
  have o: "wolfBoot_open_image_address sim_config demo_update_mem image_zero 0x100000 = (0, ?img)"
    using demo_update_magic
    by (simp add: wolfBoot_open_image_address_def wolfBoot_image_size_def image_zero_def Let_def)
  have "image_authentic demo_crypto sim_config demo_update_mem ?img"
    by (rule demo_update_authentic) simp
  then obtain img1 img2 where v: "wolfBoot_verify_integrity demo_crypto sim_config demo_update_mem ?img = Some (0, img1)"
    "wolfBoot_verify_authenticity demo_crypto sim_config demo_update_mem img1 = Some (0, img2)"
    "hdr_ok img2" "sha_ok img2" "signature_ok img2" "fw_base img2 = 0x100100"
    using integrity_then_authenticity [of ?img demo_crypto sim_config demo_update_mem] by auto
  have h: "disk_part_read mem_disk dr 0 0 0 256 0x100000 demo_update_mem demo_disk = (256, demo_update_mem, demo_disk)"
    using demo_part_read [OF assms, of 0 256] by simp
  have l: "disk_part_read mem_disk dr 0 0 256 16 0x100100 demo_update_mem demo_disk = (16, demo_update_mem, demo_disk)"
    using demo_part_read [OF assms, of 256 16] by simp
  have "load_loop sim_config demo_disk_cfg mem_disk dr 0 16 0 demo_update_mem demo_disk = Some (16, 16, demo_update_mem, demo_disk)"
    by (subst load_loop.simps) (simp add: demo_disk_cfg_def sub32_def u32_def l)
  then show ?thesis
    using v by (simp add: disk_try_def h o demo_disk_cfg_def)
qed

lemma demo_disk_start:
  "wolfBoot_start_disk demo_crypto sim_config demo_disk_cfg mem_disk (\<lambda>_. 0) (\<lambda>_. 0) zero_drives demo_update_mem demo_disk
     = Some (0x100100, demo_update_mem, demo_disk)"
proof -
  have "\<And>x. x < 512 \<Longrightarrow> demo_disk x = mbr_disk x"
    by (simp add: demo_disk_def)
  from mbr_disk_opens [OF this] obtain dr where o: "disk_open mem_disk (\<lambda>_. 0) (\<lambda>_. 0) 0 zero_drives demo_disk = Some (1, dr, demo_disk)"
    "n_parts (dr ! 0) = 1" "is_open (dr ! 0)" "drv_part (dr ! 0) ! 0 = mbr_part"
    by auto
  let ?k = demo_disk_cfg
  have k: "BOOT_DISK ?k = 0" "BOOT_PART_A ?k = 0" "BOOT_PART_B ?k = 1" "p_hdr ?k = 0x100000"
    by (simp_all add: demo_disk_cfg_def)
  have "wolfBoot_get_blob_version sim_config demo_update_mem 0x100000 = 2"
    by (simp add: wolfBoot_get_blob_version_def demo_update_magic demo_update_fields demo_update_values WOLFBOOT_MAGIC_def
        IMAGE_HEADER_OFFSET_def)
  then have a: "disk_version sim_config ?k mem_disk dr 0 demo_update_mem demo_disk = (2, demo_update_mem, demo_disk)"
    using demo_part_read [OF o(2-4), of 0 256] by (simp add: disk_version_def k)
  have b: "disk_version sim_config ?k mem_disk dr 1 demo_update_mem demo_disk = (0, demo_update_mem, demo_disk)"
    using o(2,3) by (simp add: disk_version_def disk_part_read_def open_part_def disk_consts k)
  obtain img where t: "disk_try demo_crypto sim_config ?k mem_disk dr 0 demo_update_mem demo_disk
      = Some (Some img, demo_update_mem, demo_disk)" "hdr_ok img" "sha_ok img" "signature_ok img" "fw_base img = 0x100100"
    using demo_disk_try [OF o(2-4)] by blast
  have "disk_loop demo_crypto sim_config ?k mem_disk dr 2 0 False 0 demo_update_mem demo_disk = Some (img, demo_update_mem, demo_disk)"
    by (subst disk_loop.simps) (simp add: k t(1))
  moreover have "disk_init mem_disk 0 demo_disk = (0, demo_disk)" "disk_close mem_disk 0 demo_disk = demo_disk"
    by (simp_all add: mem_disk_def)
  ultimately show ?thesis
    using t(2-5) by (simp add: wolfBoot_start_disk_def k o(1) a b hal_flash_protect_def)
qed

theorem disk_start_authentic_witness:
  "wolfBoot_start_disk demo_crypto sim_config demo_disk_cfg mem_disk (\<lambda>_. 0) (\<lambda>_. 0) zero_drives demo_update_mem demo_disk
     = Some (0x100100, demo_update_mem, demo_disk) \<and> (\<exists>img. disk_authentic demo_crypto sim_config demo_disk_cfg demo_update_mem img)"
proof -
  have "disk_cfg_ok sim_config demo_disk_cfg" "\<forall>x. length (wc_Sha256 demo_crypto x) = 32"
    by (simp_all add: disk_cfg_ok_def demo_disk_cfg_def)
  from disk_start_authentic [OF sim_config_ok this zero_drives_ok mem_disk_ok demo_disk_start] show ?thesis
    using demo_disk_start by blast
qed

end
