(* ===== verification/Spec2Isabelle.thy ===== *)
theory Spec2Isabelle
  imports Boot Printf DeltaUpdate Gzip_Props Ramboot DiskBoot
begin

text \<open>
  A verification development for wolfBoot, a secure boot loader for small systems.

  \<^bold>\<open>The program.\<close> wolfBoot starts a signed firmware image. In the flow of \<open>src/update_flash.c\<close> the image
  lies in the BOOT partition of flash; a new image is placed in the UPDATE partition, and the boot
  loader exchanges the two, sector by sector, through a SWAP sector. The progress of the exchange is
  kept in the trailers of the partitions (\<open>src/libwolfboot.c\<close>), so that it continues after a power
  failure. An update can be a patch against the running image (\<open>src/delta.c\<close>). The other flows load the
  image into RAM, from flash (\<open>src/update_ram.c\<close>) or from a disk (\<open>src/update_disk.c\<close>, \<open>src/disk.c\<close>,
  \<open>src/gpt.c\<close>). In all of them \<open>src/image.c\<close> decides whether an image is started. Images in a FIT
  container may be compressed (\<open>src/gzip.c\<close>), and \<open>src/string.c\<close> is the C library of the boot loader.

  \<^bold>\<open>The theories\<close>, from the bottom up:

  \<^item> \<open>Prelude\<close>: bytes, memories, C integers and little-endian fields.
  \<^item> \<open>Flash\<close>: the flash driver of \<open>include/hal.h\<close> as a record of functions, the configuration, and the
    simulator \<open>hal/sim.c\<close> with its power failures, which has the documented behaviour.
  \<^item> \<open>Trailer\<close>: partition states and sector flags of \<open>src/libwolfboot.c\<close>, in place and in the two-sector
    scheme for write-once flash. What is set is what is read, and a power failure leaves the old or the
    new state.
  \<^item> \<open>Header\<close>, \<open>Image\<close>: the fields of an image header; opening an image, its integrity and its
    authenticity (\<open>src/image.c\<close>). The lookup stays inside the header and finds what was written, and
    verification succeeds exactly for images that a key with the right permission has signed.
  \<^item> \<open>Update\<close>: the definitions of \<open>src/update_flash.c\<close>; \<open>Swap\<close>, \<open>Install\<close>, \<open>Boot\<close>: the invariant of the swap, the
    final erase, and the properties of \<open>wolfBoot_update\<close> and \<open>wolfBoot_start\<close>. Only authentic images are
    started; an update is installed, also after power failures; unacceptable ones are refused.
  \<^item> \<open>Delta\<close>, \<open>Patch\<close>, \<open>Delta_Props\<close>, \<open>DeltaUpdate\<close>: \<open>wb_patch\<close> and \<open>wb_diff\<close> of \<open>src/delta.c\<close> with the loop of
    \<open>tools/keytools/sign.c\<close> that collects a patch, their round trip and bounds, and \<open>wolfBoot_delta_update\<close>.
  \<^item> \<open>Ramboot\<close>: \<open>wolfBoot_start\<close> and \<open>wolfBoot_ramboot\<close> of \<open>src/update_ram.c\<close>. \<open>Gpt\<close>, \<open>Disk\<close>, \<open>DiskBoot\<close>: partition
    tables, access to partitions, and \<open>wolfBoot_start\<close> of \<open>src/update_disk.c\<close>. What is started is authentic
    in RAM, and what is written and requested before that is bounded.
  \<^item> \<open>Gzip\<close>: all of \<open>src/gzip.c\<close>; \<open>Gzip_Bits\<close>, \<open>Gzip_Huffman\<close>, \<open>Gzip_Deflate\<close>, \<open>Gzip_Props\<close>: it refines the formats
    of RFC 1951 and RFC 1952, given there as relations on bit lists, and it is memory safe.
  \<^item> \<open>Strings\<close>, \<open>Printf\<close>: \<open>src/string.c\<close> over a flat memory.

  \<^bold>\<open>How state is modelled.\<close> Flash and RAM are memories \<open>mem\<close>, functions from addresses to bytes. Code that
  changes flash takes a driver \<open>H\<close> and its state and returns the new state. The contract of a driver,
  power failures included, is the locale \<open>flash_dev\<close>, and \<open>flash_hal\<close> for flash whose bits can be cleared
  again; the simulator has both. Secure boot and termination hold for every \<open>H\<close>, contract or not, and
  so does the refusal of updates in builds without \<open>NVM_FLASH_WRITEONCE\<close>. That an update is installed and resumed is shown under \<open>flash_hal\<close>, for builds without
  \<open>NVM_FLASH_WRITEONCE\<close> and \<open>FLAGS_HOME\<close>. Build options are fields of the
  record \<open>cfg\<close> and its companions. wolfCrypt and the keystore are the record \<open>crypto\<close>, of which only the
  digest length is assumed; the disk driver is the record \<open>disk_dev\<close>. Arithmetic is on naturals with the
  wraps \<open>u16\<close>, \<open>u32\<close>, \<open>u64\<close> written out, or on words.

  \<^bold>\<open>Results and bounds.\<close> Error codes are the integers of the source. \<open>None\<close> is a panic, a loop that does
  not end, or an access out of bounds; each theory says which. Loops that may not end are partial
  functions into \<open>option\<close>, and the properties of termination show that they return. There is no fuel.
  \<open>cfg_ok\<close> asks for aligned partitions that end below \<open>2 ^ 31\<close> and for sectors large enough for the flags.
  The theorems on decompression are for inputs of at most \<open>2 ^ 32 - 65540\<close> bytes: beyond that the position
  in the input can wrap.

  \<^bold>\<open>Not modelled.\<close> Register-level drivers (\<open>hal/\<close>, SPI, QSPI, UART, SD, PCI), processor start-up and the
  jump, and x86 platform code: they are assembly and I/O whose effect is not in the sources. TPM, PKCS#11,
  PSA, wolfHSM and DICE services: they are calls into libraries that are not part of the sources. ELF,
  multiboot, device-tree and FIT parsing, external and encrypted partitions, the other signature and
  digest algorithms and hybrid signatures: options outside the builds that are modelled. Host tools
  other than the delta loop of the sign tool: file I/O. Tests, examples and the build system.
\<close>

section \<open>One CRC in two components\<close>

text \<open>
  \<open>src/gpt.c\<close> and \<open>src/gzip.c\<close> carry their own CRC-32, one with a mask and one with a branch; they
  compute the same function.
\<close>

lemma gpt_crc32_bit_eq: "gpt_crc32_bit = gz_crc32_bit"
proof
  fix v :: "32 word"
  have "v AND 1 = (if odd v then 1 else 0)"
    by (simp add: and_one_eq mod2_eq_if)
  then show "gpt_crc32_bit v = gz_crc32_bit v"
    by (simp add: gpt_crc32_bit_def gz_crc32_bit_def GZIP_CRC32_POLY_def Let_def)
qed

lemma gpt_crc32_update_eq: "crc_value (gpt_crc32_update ctx bs) = foldl gz_crc32_byte (crc_value ctx) bs"
  by (induction ctx bs rule: gpt_crc32_update.induct) (simp_all add: gz_crc32_byte_def gpt_crc32_bit_eq)

lemma gpt_crc32_is_crc32: "gpt_crc32_final (gpt_crc32_update gpt_crc32_init bs) = crc32 bs"
proof -
  have "(0xFFFFFFFF :: 32 word) = - 1"
    by simp
  then have "x XOR 0xFFFFFFFF = NOT x" for x :: "32 word"
    by (simp only: bit.xor_one_right)
  then show ?thesis
    by (simp add: gpt_crc32_final_def gpt_crc32_update_eq gpt_crc32_init_def crc32_def)
qed

end
